(* ===== verification/Prelude.thy ===== *)
theory Prelude
  imports Main "HOL-Library.Word"
begin

text \<open>
  Shared vocabulary of the development: the machine-level types, the error type that stands for
  every assertion, exception and out-of-range access of the C++ code, the sequencing operator on
  results, and the generic lemmas on lists, association lists and majorities that the component
  theories use.
\<close>

section \<open>Types\<close>

text \<open>
  A \<open>raft::server_id\<close> is a tagged 128-bit UUID and \<open>server_id{}\<close> is the all-zero one. Log indexes,
  terms and read identifiers are \<open>uint64_t\<close> counters; they are natural numbers here, and the places
  where the code subtracts from one that may be zero write the wrap-around out (\<open>pred64\<close>).
\<close>

type_synonym server_id = "128 word"
type_synonym snapshot_id = "128 word"
type_synonym term_t = nat
type_synonym index_t = nat
type_synonym read_id = nat
type_synonym bytes = "8 word list"

definition pred64 :: "nat \<Rightarrow> nat" where
  "pred64 n = (if n = 0 then 2 ^ 64 - 1 else n - 1)"

lemma pred64_pos [simp]: "0 < n \<Longrightarrow> pred64 n = n - 1"
  by (simp add: pred64_def)

lemma pred64_Suc [simp]: "pred64 (Suc n) = n"
  by (simp add: pred64_def)

section \<open>Errors as values\<close>

text \<open>
  \<open>Assertion_failed\<close> is a failing \<open>SCYLLA_ASSERT\<close>; \<open>Out_of_range\<close> an unchecked container access
  outside the container; \<open>Bad_variant\<close> a \<open>std::get\<close> on the wrong alternative; \<open>Internal_error\<close> a call
  of \<open>on_internal_error\<close>. The others are the exceptions of \<open>raft/raft.hh\<close> and of the standard library
  that the modelled code throws.
\<close>

datatype raft_error =
    Assertion_failed
  | Out_of_range
  | Bad_variant
  | Internal_error
  | Invalid_argument
  | Not_a_leader server_id
  | Conf_change_in_progress
  | No_other_voting_member
  | Runtime_error

type_synonym 'a result = "raft_error + 'a"

definition bindE :: "'e + 'a \<Rightarrow> ('a \<Rightarrow> 'e + 'b) \<Rightarrow> 'e + 'b" where
  "bindE m k = (case m of Inl e \<Rightarrow> Inl e | Inr x \<Rightarrow> k x)"

definition assertE :: "bool \<Rightarrow> unit result" where
  "assertE b = (if b then Inr () else Inl Assertion_failed)"

lemma bindE_simps [simp]:
  "bindE (Inl e) k = Inl e"
  "bindE (Inr x) k = k x"
  by (simp_all add: bindE_def)

lemma bindE_Inr_iff: "bindE m k = Inr y \<longleftrightarrow> (\<exists>x. m = Inr x \<and> k x = Inr y)"
  by (cases m) simp_all

lemma bindE_InrE [elim!]:
  assumes "bindE m k = Inr y"
  obtains x where "m = Inr x" and "k x = Inr y"
  using assms by (auto simp: bindE_Inr_iff)

lemma bindE_cong [fundef_cong]:
  assumes "m = m'" and "\<And>x. m' = Inr x \<Longrightarrow> k x = k' x"
  shows "bindE m k = bindE m' k'"
  using assms by (cases m') simp_all

lemma assertE_simps [simp]:
  "assertE b = Inr u \<longleftrightarrow> b"
  "assertE True = Inr ()"
  "assertE False = Inl Assertion_failed"
  by (simp_all add: assertE_def)

text \<open>\<open>returns P m\<close>: if the computation \<open>m\<close> returns normally, its value satisfies \<open>P\<close>.\<close>

definition returns :: "('a \<Rightarrow> bool) \<Rightarrow> 'e + 'a \<Rightarrow> bool" where
  "returns P m \<longleftrightarrow> (\<forall>x. m = Inr x \<longrightarrow> P x)"

named_theorems wp_intros \<open>rules that decompose a goal of the form returns P m\<close>

lemma returns_simps [simp]:
  "returns P (Inl e)"
  "returns P (Inr x) \<longleftrightarrow> P x"
  by (simp_all add: returns_def)

lemma returns_bindE [wp_intros]:
  assumes "returns Q m" and "\<And>x. Q x \<Longrightarrow> returns P (k x)"
  shows "returns P (bindE m k)"
  using assms by (cases m) simp_all

lemma returns_mono: "returns Q m \<Longrightarrow> (\<And>x. Q x \<Longrightarrow> P x) \<Longrightarrow> returns P m"
  by (cases m) simp_all

lemma returnsI: "(\<And>x. m = Inr x \<Longrightarrow> P x) \<Longrightarrow> returns P m"
  by (simp add: returns_def)

lemma returnsD: "returns P m \<Longrightarrow> m = Inr x \<Longrightarrow> P x"
  by (simp add: returns_def)

text \<open>Loops over a container whose body may fail: with a state, and collecting the results.\<close>

fun foldE :: "('a \<Rightarrow> 's \<Rightarrow> 'e + 's) \<Rightarrow> 'a list \<Rightarrow> 's \<Rightarrow> 'e + 's" where
  "foldE g [] s = Inr s"
| "foldE g (x # xs) s = bindE (g x s) (foldE g xs)"

fun mapE :: "('a \<Rightarrow> 'e + 'b) \<Rightarrow> 'a list \<Rightarrow> 'e + 'b list" where
  "mapE g [] = Inr []"
| "mapE g (x # xs) = bindE (g x) (\<lambda>y. bindE (mapE g xs) (\<lambda>ys. Inr (y # ys)))"

lemma returns_foldE [wp_intros]:
  assumes "P s" and "\<And>x s. x \<in> set xs \<Longrightarrow> P s \<Longrightarrow> returns P (g x s)"
  shows "returns P (foldE g xs s)"
  using assms
proof (induction xs arbitrary: s)
  case (Cons x xs)
  then have "returns P (g x s)" by simp
  with Cons show ?case by (cases "g x s") auto
qed simp

lemma mapE_Inr_iff: "mapE g xs = Inr ys \<longleftrightarrow> list_all2 (\<lambda>x y. g x = Inr y) xs ys"
  by (induction xs arbitrary: ys) (auto simp: bindE_Inr_iff list_all2_Cons1)

section \<open>Containers\<close>

text \<open>
  \<open>deque_at first xs i\<close> is the element with global index \<open>i\<close> of a deque whose first element has
  index \<open>first\<close>. Below \<open>first\<close> the unsigned difference wraps to a position past the end, so both
  directions out of range are the same failure.
\<close>

definition deque_at :: "nat \<Rightarrow> 'a list \<Rightarrow> nat \<Rightarrow> 'a option" where
  "deque_at first xs i =
     (if first \<le> i \<and> i - first < length xs then Some (xs ! (i - first)) else None)"

lemma deque_at_None_iff: "deque_at n xs i = None \<longleftrightarrow> i < n \<or> n + length xs \<le> i"
  by (auto simp: deque_at_def)

lemma deque_at_Some_iff:
  "deque_at n xs i = Some x \<longleftrightarrow> n \<le> i \<and> i < n + length xs \<and> x = xs ! (i - n)"
  by (auto simp: deque_at_def)

lemma deque_at_in_range [simp]: "n \<le> i \<Longrightarrow> i < n + length xs \<Longrightarrow> deque_at n xs i = Some (xs ! (i - n))"
  by (simp add: deque_at_def)

lemma deque_at_append:
  "deque_at n (xs @ [x]) i = (if i = n + length xs then Some x else deque_at n xs i)"
  by (auto simp: deque_at_def nth_append)

lemma deque_at_take:
  "deque_at n (take k xs) i = (if i < n + k then deque_at n xs i else None)"
  by (auto simp: deque_at_def)

lemma deque_at_drop:
  "k \<le> length xs \<Longrightarrow> deque_at (n + k) (drop k xs) i = (if n + k \<le> i then deque_at n xs i else None)"
  by (auto simp: deque_at_def)

text \<open>Assignment through a reference into an association list: the value of an existing key.\<close>

definition alist_set :: "'k \<Rightarrow> 'v \<Rightarrow> ('k \<times> 'v) list \<Rightarrow> ('k \<times> 'v) list" where
  "alist_set k v = map (\<lambda>(k', v'). if k' = k then (k', v) else (k', v'))"

lemma alist_set_simps [simp]:
  "alist_set k v [] = []"
  "alist_set k v (x # xs) = (if fst x = k then (fst x, v) else x) # alist_set k v xs"
  by (auto simp: alist_set_def split: prod.splits)

lemma map_fst_alist_set [simp]: "map fst (alist_set k v xs) = map fst xs"
  by (induction xs) auto

lemma map_of_alist_set:
  "map_of (alist_set k v xs) j = (if j = k \<and> j \<in> fst ` set xs then Some v else map_of xs j)"
  by (induction xs) (auto simp: rev_image_eqI)

lemma set_alist_set_subset: "set (alist_set k v xs) \<subseteq> insert (k, v) (set xs)"
  by (induction xs) auto

section \<open>Majorities\<close>

text \<open>Two subsets of a finite set that are each larger than half of it share an element.\<close>

lemma majorities_meet:
  assumes "finite E" "S \<subseteq> E" "T \<subseteq> E" "card E div 2 < card S" "card E div 2 < card T"
  shows "\<exists>x. x \<in> S \<and> x \<in> T"
proof (rule ccontr)
  assume "\<not> ?thesis"
  then have "S \<inter> T = {}" by blast
  moreover have "finite S" "finite T" using assms finite_subset by blast+
  ultimately have "card (S \<union> T) = card S + card T" by (simp add: card_Un_disjoint)
  moreover have "card (S \<union> T) \<le> card E" using assms by (simp add: card_mono)
  ultimately show False using assms(4,5) by linarith
qed

section \<open>Comparisons\<close>

text \<open>\<open>std::strong_ordering\<close>, the result of a three-way comparison.\<close>

datatype strong_ordering = Ord_less | Ord_equal | Ord_greater

end
