(* ===== verification/Raft_Config.thy ===== *)
theory Raft_Config
  imports Prelude
begin

text \<open>
  Raft group membership (\<open>raft/raft.hh\<close>): server addresses, configuration members, simple and joint
  configurations and the operations on them, followed by the quorums that a configuration defines
  and the overlap of the quorums of consecutive configurations.
\<close>

section \<open>Members and member sets\<close>

record server_address =
  addr_id :: server_id
  addr_info :: bytes

record config_member =
  cm_addr :: server_address
  cm_can_vote :: bool

abbreviation member_id :: "config_member \<Rightarrow> server_id" where
  "member_id m \<equiv> addr_id (cm_addr m)"

text \<open>
  A \<open>config_member_set\<close> is an \<open>unordered_set\<close> whose equality and hash look at the server id only. It
  is the list of its elements in iteration order; an insertion keeps an element that is already there.
\<close>

type_synonym config_member_set = "config_member list"

definition cset_find :: "config_member_set \<Rightarrow> server_id \<Rightarrow> config_member option" where
  "cset_find c i = find (\<lambda>m. member_id m = i) c"

definition cset_contains :: "config_member_set \<Rightarrow> server_id \<Rightarrow> bool" where
  "cset_contains c i \<longleftrightarrow> cset_find c i \<noteq> None"

definition cset_insert :: "config_member_set \<Rightarrow> config_member \<Rightarrow> config_member_set" where
  "cset_insert c m = (if cset_contains c (member_id m) then c else c @ [m])"

definition cset_ids :: "config_member_set \<Rightarrow> server_id list" where
  "cset_ids c = map member_id c"

section \<open>Configurations\<close>

record configuration =
  conf_current :: config_member_set
  conf_previous :: config_member_set

record configuration_diff =
  diff_joining :: config_member_set
  diff_leaving :: config_member_set

definition make_configuration ::
  "config_member_set \<Rightarrow> config_member_set \<Rightarrow> configuration result" where
  "make_configuration cur prev =
     (if cset_contains cur 0 \<or> cset_contains prev 0 then Inl Invalid_argument
      else Inr \<lparr>conf_current = cur, conf_previous = prev\<rparr>)"

definition is_joint :: "configuration \<Rightarrow> bool" where
  "is_joint c \<longleftrightarrow> conf_previous c \<noteq> []"

definition voter_count :: "config_member_set \<Rightarrow> nat" where
  "voter_count c_new = length (filter cm_can_vote c_new)"

definition check_configuration :: "config_member_set \<Rightarrow> unit result" where
  "check_configuration c_new =
     (if c_new = [] then Inl Invalid_argument
      else if voter_count c_new = 0 then Inl Invalid_argument
      else Inr ())"

definition conf_diff :: "configuration \<Rightarrow> config_member_set \<Rightarrow> configuration_diff" where
  "conf_diff c c_new =
     \<lparr>diff_joining =
        fold (\<lambda>s acc. case cset_find (conf_current c) (member_id s) of
                 None \<Rightarrow> cset_insert acc s
               | Some m \<Rightarrow> if cm_can_vote m \<noteq> cm_can_vote s then cset_insert acc s else acc)
             c_new [],
      diff_leaving =
        fold (\<lambda>s acc. if \<not> cset_contains c_new (member_id s) then cset_insert acc s else acc)
             (conf_current c) []\<rparr>"

definition conf_contains :: "configuration \<Rightarrow> server_id \<Rightarrow> bool" where
  "conf_contains c i \<longleftrightarrow> (if cset_contains (conf_current c) i then True
                         else cset_contains (conf_previous c) i)"

definition conf_can_vote :: "configuration \<Rightarrow> server_id \<Rightarrow> bool" where
  "conf_can_vote c i =
     (let v = (case cset_find (conf_current c) i of None \<Rightarrow> False | Some m \<Rightarrow> cm_can_vote m);
          v' = (case cset_find (conf_previous c) i of None \<Rightarrow> v | Some m \<Rightarrow> v \<or> cm_can_vote m)
      in v')"

definition enter_joint :: "configuration \<Rightarrow> config_member_set \<Rightarrow> configuration result" where
  "enter_joint c c_new =
     (if c_new = [] then Inl Invalid_argument
      else Inr \<lparr>conf_current = c_new, conf_previous = conf_current c\<rparr>)"

definition leave_joint :: "configuration \<Rightarrow> configuration result" where
  "leave_joint c = (if is_joint c then Inr (c\<lparr>conf_previous := []\<rparr>) else Inl Assertion_failed)"

section \<open>Well-formed configurations\<close>

text \<open>
  A member set never holds an id twice (it is a set) and never the zero id (the constructor refuses
  it). A configuration in use has a voter in every part: \<open>check_configuration\<close> refuses other changes.
\<close>

definition voters :: "config_member_set \<Rightarrow> server_id set" where
  "voters c = {member_id m | m. m \<in> set c \<and> cm_can_vote m}"

definition cset_ok :: "config_member_set \<Rightarrow> bool" where
  "cset_ok c \<longleftrightarrow> distinct (cset_ids c) \<and> 0 \<notin> set (cset_ids c)"

definition conf_ok :: "configuration \<Rightarrow> bool" where
  "conf_ok c \<longleftrightarrow> cset_ok (conf_current c) \<and> cset_ok (conf_previous c) \<and>
     voters (conf_current c) \<noteq> {} \<and> (is_joint c \<longrightarrow> voters (conf_previous c) \<noteq> {})"

lemma finite_voters [simp]: "finite (voters c)"
proof -
  have "voters c \<subseteq> member_id ` set c" by (auto simp: voters_def)
  then show ?thesis using finite_subset by blast
qed

lemma voters_Nil [simp]: "voters [] = {}"
  by (simp add: voters_def)

lemma voters_Cons: "voters (m # c) = (if cm_can_vote m then insert (member_id m) (voters c) else voters c)"
  by (auto simp: voters_def)

lemma voters_subset_ids: "voters c \<subseteq> set (cset_ids c)"
  by (auto simp: voters_def cset_ids_def)

lemma voters_eq_set_filter: "voters c = set (map member_id (filter cm_can_vote c))"
  by (auto simp: voters_def)

lemma voter_count_card: "distinct (cset_ids c) \<Longrightarrow> voter_count c = card (voters c)"
proof (induction c)
  case (Cons m c)
  then have "member_id m \<notin> voters c" using voters_subset_ids[of c] by (auto simp: cset_ids_def)
  with Cons show ?case by (auto simp: voter_count_def voters_Cons cset_ids_def)
qed (simp add: voter_count_def)

lemma cset_find_Some_iff:
  "distinct (cset_ids c) \<Longrightarrow> cset_find c i = Some m \<longleftrightarrow> m \<in> set c \<and> member_id m = i"
  by (induction c) (auto simp: cset_find_def cset_ids_def rev_image_eqI)

lemma cset_find_None_iff: "cset_find c i = None \<longleftrightarrow> i \<notin> set (cset_ids c)"
  by (induction c) (auto simp: cset_find_def cset_ids_def)

lemma cset_contains_iff [simp]: "cset_contains c i \<longleftrightarrow> i \<in> set (cset_ids c)"
  by (simp add: cset_contains_def cset_find_None_iff)

lemma cset_find_append: "cset_find (xs @ ys) i = (case cset_find xs i of None \<Rightarrow> cset_find ys i | Some m \<Rightarrow> Some m)"
  by (induction xs) (auto simp: cset_find_def)

lemma cset_ids_insert:
  "set (cset_ids (cset_insert c m)) = insert (member_id m) (set (cset_ids c))"
  by (auto simp: cset_insert_def cset_ids_def)

lemma distinct_cset_insert: "distinct (cset_ids c) \<Longrightarrow> distinct (cset_ids (cset_insert c m))"
  by (auto simp: cset_insert_def cset_ids_def)

lemma voters_find:
  "distinct (cset_ids c) \<Longrightarrow> i \<in> voters c \<longleftrightarrow> (\<exists>m. cset_find c i = Some m \<and> cm_can_vote m)"
  by (auto simp: cset_find_Some_iff voters_def)

lemma conf_can_vote_iff:
  assumes "cset_ok (conf_current c)" "cset_ok (conf_previous c)"
  shows "conf_can_vote c i \<longleftrightarrow> i \<in> voters (conf_current c) \<or> i \<in> voters (conf_previous c)"
  using assms by (auto simp: conf_can_vote_def Let_def cset_ok_def voters_find split: option.splits)

section \<open>The membership difference\<close>

lemma fold_cset_insert_filter:
  assumes "distinct (cset_ids (acc @ filter P xs))"
  shows "fold (\<lambda>s acc. if P s then cset_insert acc s else acc) xs acc = acc @ filter P xs"
  using assms
proof (induction xs arbitrary: acc)
  case (Cons x xs)
  show ?case
  proof (cases "P x")
    case True
    then have "cset_insert acc x = acc @ [x]"
      using Cons.prems by (auto simp: cset_insert_def cset_ids_def)
    with Cons.IH[of "acc @ [x]"] Cons.prems True show ?thesis by simp
  qed (use Cons in simp)
qed simp

definition diff_joins :: "configuration \<Rightarrow> config_member \<Rightarrow> bool" where
  "diff_joins c s \<longleftrightarrow> (case cset_find (conf_current c) (member_id s) of
     None \<Rightarrow> True | Some m \<Rightarrow> cm_can_vote m \<noteq> cm_can_vote s)"

lemma distinct_cset_ids_filter: "distinct (cset_ids c) \<Longrightarrow> distinct (cset_ids (filter P c))"
  by (induction c) (auto simp: cset_ids_def)

lemma diff_joining_eq:
  assumes "distinct (cset_ids c_new)"
  shows "diff_joining (conf_diff c c_new) = filter (diff_joins c) c_new"
proof -
  have "(\<lambda>s acc. case cset_find (conf_current c) (member_id s) of
                 None \<Rightarrow> cset_insert acc s
               | Some m \<Rightarrow> if cm_can_vote m \<noteq> cm_can_vote s then cset_insert acc s else acc)
      = (\<lambda>s acc. if diff_joins c s then cset_insert acc s else acc)"
    by (auto simp: diff_joins_def fun_eq_iff split: option.splits)
  then show ?thesis
    using fold_cset_insert_filter[of "[]" "diff_joins c" c_new] assms
    by (simp add: conf_diff_def distinct_cset_ids_filter)
qed

lemma diff_leaving_eq:
  assumes "distinct (cset_ids (conf_current c))"
  shows "diff_leaving (conf_diff c c_new) =
         filter (\<lambda>s. member_id s \<notin> set (cset_ids c_new)) (conf_current c)"
  using fold_cset_insert_filter[of "[]" "\<lambda>s. member_id s \<notin> set (cset_ids c_new)" "conf_current c"] assms
  by (simp add: conf_diff_def distinct_cset_ids_filter)

lemma cset_find_filter:
  assumes "distinct (cset_ids c)"
  shows "cset_find (filter P c) i = (case cset_find c i of None \<Rightarrow> None | Some m \<Rightarrow> if P m then Some m else None)"
  using assms
proof (induction c)
  case (Cons x xs)
  have "cset_find xs i = None" if "member_id x = i"
    using Cons.prems that by (simp add: cset_find_None_iff cset_ids_def)
  with Cons show ?case by (auto simp: cset_find_def cset_ids_def split: option.splits)
qed (simp add: cset_find_def)

text \<open>The voting status a member set gives to an id; \<open>None\<close> for a server that is not a member.\<close>

definition vote_status :: "config_member_set \<Rightarrow> server_id \<Rightarrow> bool option" where
  "vote_status c i = map_option cm_can_vote (cset_find c i)"

section \<open>Quorums\<close>

text \<open>
  A majority of the voters of one member set, and the quorum of a configuration: a majority of the
  current set and, in a joint configuration, of the previous set too.
\<close>

definition majority :: "server_id set \<Rightarrow> server_id set \<Rightarrow> bool" where
  "majority V S \<longleftrightarrow> card V div 2 < card (S \<inter> V)"

definition conf_quorum :: "configuration \<Rightarrow> server_id set \<Rightarrow> bool" where
  "conf_quorum c S \<longleftrightarrow> majority (voters (conf_current c)) S \<and>
     (is_joint c \<longrightarrow> majority (voters (conf_previous c)) S)"

lemma majorities_overlap:
  assumes "finite V" "majority V S" "majority V T"
  shows "\<exists>x \<in> V. x \<in> S \<and> x \<in> T"
  using majorities_meet[of V "S \<inter> V" "T \<inter> V"] assms by (auto simp: majority_def)

lemma majority_mono: "finite V \<Longrightarrow> majority V S \<Longrightarrow> S \<subseteq> T \<Longrightarrow> majority V T"
  unfolding majority_def by (meson Int_mono card_mono finite_Int order_refl order_less_le_trans)

text \<open>
  Two families of quorums that always meet: what a leader of one configuration and a leader of the
  next rely on. The lemmas in the locale are what the election and the commit rule need of it.
\<close>

locale meeting_quorums =
  fixes Q :: "'a set \<Rightarrow> bool" and R :: "'a set \<Rightarrow> bool"
  assumes quorums_meet: "Q S \<Longrightarrow> R T \<Longrightarrow> \<exists>x. x \<in> S \<and> x \<in> T"
    and left_mono: "Q S \<Longrightarrow> S \<subseteq> S' \<Longrightarrow> Q S'"
    and right_mono: "R T \<Longrightarrow> T \<subseteq> T' \<Longrightarrow> R T'"
begin

lemma decisions_agree:
  assumes "Q {x. choice x = Some a}" "R {x. choice x = Some b}"
  shows "a = b"
  using quorums_meet[OF assms] by auto

lemma both_not_disjoint: "Q S \<Longrightarrow> R T \<Longrightarrow> S \<inter> T \<noteq> {}"
  using quorums_meet by blast

lemma no_disjoint_extension: "Q S \<Longrightarrow> S \<subseteq> S' \<Longrightarrow> R T \<Longrightarrow> T \<subseteq> T' \<Longrightarrow> S' \<inter> T' \<noteq> {}"
  using both_not_disjoint left_mono right_mono by blast

end

lemma conf_quorum_mono: "conf_quorum c S \<Longrightarrow> S \<subseteq> T \<Longrightarrow> conf_quorum c T"
  by (auto simp: conf_quorum_def intro: majority_mono)

text \<open>Within one configuration, and across the two halves of a joint one.\<close>

interpretation same_conf: meeting_quorums "conf_quorum c" "conf_quorum c" for c
proof unfold_locales
  show "\<exists>x. x \<in> S \<and> x \<in> T" if "conf_quorum c S" "conf_quorum c T" for S T
    using that majorities_overlap[of "voters (conf_current c)" S T] by (auto simp: conf_quorum_def)
qed (auto intro: conf_quorum_mono)

interpretation joint_half: meeting_quorums
    "conf_quorum \<lparr>conf_current = new, conf_previous = old\<rparr>"
    "\<lambda>T. old \<noteq> [] \<and> majority (voters old) T" for new old
proof unfold_locales
  show "\<exists>x. x \<in> S \<and> x \<in> T"
    if "conf_quorum \<lparr>conf_current = new, conf_previous = old\<rparr> S" "old \<noteq> [] \<and> majority (voters old) T" for S T
    using that majorities_overlap[of "voters old" S T] by (auto simp: conf_quorum_def is_joint_def)
qed (auto intro: conf_quorum_mono majority_mono)

section \<open>Properties\<close>

text \<open>A member used in the concrete instances.\<close>

definition ex_member :: "server_id \<Rightarrow> bool \<Rightarrow> config_member" where
  "ex_member i v = \<lparr>cm_addr = \<lparr>addr_id = i, addr_info = []\<rparr>, cm_can_vote = v\<rparr>"

text \<open>
  C5: An arbitrary change of configuration through \<open>enter_joint\<close> and \<open>leave_joint\<close> is safe: from a
  simple configuration in use, entering the joint configuration succeeds in leading to one that can
  be left, the result is exactly the new simple configuration, every quorum of the old configuration
  meets every quorum of the joint one, and every quorum of the joint one meets every quorum of the
  new one. So at no moment can two disjoint sets of servers both decide.
\<close>

theorem joint_transition_safe:
  assumes "\<not> is_joint c" and "conf_current c \<noteq> []" and "enter_joint c c_new = Inr j"
  shows "\<exists>n. leave_joint j = Inr n \<and> conf_current n = c_new \<and> \<not> is_joint n \<and>
           (\<forall>S T. conf_quorum c S \<longrightarrow> conf_quorum j T \<longrightarrow> S \<inter> T \<noteq> {}) \<and>
           (\<forall>S T. conf_quorum j S \<longrightarrow> conf_quorum n T \<longrightarrow> S \<inter> T \<noteq> {})"
proof -
  from assms(3) have j: "j = \<lparr>conf_current = c_new, conf_previous = conf_current c\<rparr>"
    by (simp add: enter_joint_def split: if_splits)
  let ?n = "\<lparr>conf_current = c_new, conf_previous = []\<rparr>"
  have "leave_joint j = Inr ?n" using assms(2) by (simp add: j leave_joint_def is_joint_def)
  moreover have "S \<inter> T \<noteq> {}" if "conf_quorum c S" "conf_quorum j T" for S T
    using joint_half.both_not_disjoint[of c_new "conf_current c" T S] that assms(1,2)
    by (auto simp: j conf_quorum_def Int_commute)
  moreover have "S \<inter> T \<noteq> {}" if "conf_quorum j S" "conf_quorum ?n T" for S T
    using majorities_overlap[of "voters c_new" S T] that by (auto simp: j conf_quorum_def is_joint_def)
  ultimately show ?thesis by (auto simp: is_joint_def)
qed

theorem joint_transition_safe_witness:
  "\<exists>n. leave_joint \<lparr>conf_current = [ex_member 2 True], conf_previous = [ex_member 1 True]\<rparr> = Inr n \<and>
       conf_current n = [ex_member 2 True] \<and> \<not> is_joint n \<and>
       (\<forall>S T. conf_quorum \<lparr>conf_current = [ex_member 1 True], conf_previous = []\<rparr> S \<longrightarrow>
          conf_quorum \<lparr>conf_current = [ex_member 2 True], conf_previous = [ex_member 1 True]\<rparr> T \<longrightarrow> S \<inter> T \<noteq> {}) \<and>
       (\<forall>S T. conf_quorum \<lparr>conf_current = [ex_member 2 True], conf_previous = [ex_member 1 True]\<rparr> S \<longrightarrow>
          conf_quorum n T \<longrightarrow> S \<inter> T \<noteq> {})"
  by (rule joint_transition_safe) (simp_all add: is_joint_def enter_joint_def)

text \<open>
  C14: The difference between the current members and a proposed set, as \<open>conf_diff\<close> computes it, loses
  nothing: overriding the current members by the joining ones and dropping the leaving ones gives
  every server exactly the membership and voting status it has in the proposed set. In particular a
  member whose voting status changes is among the joining ones.
\<close>

theorem conf_diff_reconstructs:
  assumes "cset_ok (conf_current c)" and "cset_ok c_new"
  shows "vote_status c_new i =
    (case vote_status (diff_joining (conf_diff c c_new)) i of
       Some v \<Rightarrow> Some v
     | None \<Rightarrow> if vote_status (diff_leaving (conf_diff c c_new)) i \<noteq> None then None
               else vote_status (conf_current c) i)"
proof -
  have d: "distinct (cset_ids c_new)" "distinct (cset_ids (conf_current c))"
    using assms by (auto simp: cset_ok_def)
  have m: "member_id m = i" if "cset_find e i = Some m" for e m
    using that by (auto simp: cset_find_def find_Some_iff)
  show ?thesis
    using m by (auto simp: vote_status_def diff_joining_eq diff_leaving_eq d cset_find_filter
        diff_joins_def cset_find_None_iff[symmetric] split: option.splits)
qed

definition ex_conf :: configuration where
  "ex_conf = \<lparr>conf_current = [ex_member 1 True, ex_member 2 True], conf_previous = []\<rparr>"

theorem conf_diff_reconstructs_witness:
  "vote_status [ex_member 1 False, ex_member 3 True] 1 =
    (case vote_status (diff_joining (conf_diff ex_conf [ex_member 1 False, ex_member 3 True])) 1 of
       Some v \<Rightarrow> Some v
     | None \<Rightarrow> if vote_status (diff_leaving (conf_diff ex_conf [ex_member 1 False, ex_member 3 True])) 1 \<noteq> None
               then None else vote_status (conf_current ex_conf) 1)"
  by (rule conf_diff_reconstructs) (simp_all add: cset_ok_def cset_ids_def ex_member_def ex_conf_def)

end
