(* ===== verification/Raft_Log.thy ===== *)
theory Raft_Log
  imports Raft_Config
begin

text \<open>
  The in-memory Raft log (\<open>raft/log.hh\<close>, \<open>raft/log.cc\<close>): entries, the snapshot that replaces a prefix,
  and the operations that append, truncate, match and compact it.
\<close>

section \<open>Entries and snapshots\<close>

datatype entry_data = Command bytes | Configuration configuration | Dummy

record log_entry =
  le_term :: term_t
  le_idx :: index_t
  le_data :: entry_data

record snapshot_descriptor =
  snp_idx :: index_t
  snp_term :: term_t
  snp_config :: configuration
  snp_id :: snapshot_id

definition is_conf :: "log_entry \<Rightarrow> bool" where
  "is_conf e \<longleftrightarrow> (case le_data e of Configuration c \<Rightarrow> True | _ \<Rightarrow> False)"

definition get_conf :: "log_entry \<Rightarrow> configuration result" where
  "get_conf e = (case le_data e of Configuration c \<Rightarrow> Inr c | _ \<Rightarrow> Inl Bad_variant)"

section \<open>The log\<close>

text \<open>
  \<open>log_sizeof_entry\<close> is the compile-time constant \<open>sizeof(log_entry)\<close>, whose value depends on the
  platform; it is a field so that every operation sees the same one.
\<close>

record raft_log =
  log_snapshot :: snapshot_descriptor
  log_entries :: "log_entry list"
  log_max_command_size :: nat
  log_first_idx :: index_t
  log_stable_idx :: index_t
  log_last_conf_idx :: index_t
  log_prev_conf_idx :: index_t
  log_memory_usage :: nat
  log_sizeof_entry :: nat

definition memory_usage_of :: "nat \<Rightarrow> nat \<Rightarrow> log_entry \<Rightarrow> nat" where
  "memory_usage_of sizeof_entry max_command_size e =
     (case le_data e of
        Command c \<Rightarrow>
          (if max_command_size > sizeof_entry \<and> length c < max_command_size - sizeof_entry
           then length c + sizeof_entry else length c)
      | _ \<Rightarrow> 0)"

definition entry_usage :: "raft_log \<Rightarrow> log_entry \<Rightarrow> nat" where
  "entry_usage l = memory_usage_of (log_sizeof_entry l) (log_max_command_size l)"

definition range_memory_usage :: "raft_log \<Rightarrow> log_entry list \<Rightarrow> nat" where
  "range_memory_usage l es = fold (\<lambda>e result. result + entry_usage l e) es 0"

definition get_entry :: "raft_log \<Rightarrow> index_t \<Rightarrow> log_entry result" where
  "get_entry l i = (case deque_at (log_first_idx l) (log_entries l) i of
     Some e \<Rightarrow> Inr e | None \<Rightarrow> Inl Out_of_range)"

text \<open>\<open>operator[]\<close>: asserts that the log is not empty and the index not before its start.\<close>

definition log_index :: "raft_log \<Rightarrow> index_t \<Rightarrow> log_entry result" where
  "log_index l i =
     bindE (assertE (log_entries l \<noteq> [] \<and> log_first_idx l \<le> i)) (\<lambda>_. get_entry l i)"

definition last_idx :: "raft_log \<Rightarrow> index_t" where
  "last_idx l = length (log_entries l) + log_first_idx l - 1"

definition next_idx :: "raft_log \<Rightarrow> index_t" where
  "next_idx l = last_idx l + 1"

definition last_conf_idx :: "raft_log \<Rightarrow> index_t" where
  "last_conf_idx l = (if log_last_conf_idx l \<noteq> 0 then log_last_conf_idx l else snp_idx (log_snapshot l))"

definition last_term :: "raft_log \<Rightarrow> term_t" where
  "last_term l = (if log_entries l = [] then snp_term (log_snapshot l) else le_term (last (log_entries l)))"

definition is_up_to_date :: "raft_log \<Rightarrow> index_t \<Rightarrow> term_t \<Rightarrow> bool" where
  "is_up_to_date l idx term \<longleftrightarrow>
     term > last_term l \<or> (term = last_term l \<and> idx \<ge> last_idx l)"

definition emplace_back :: "raft_log \<Rightarrow> log_entry \<Rightarrow> raft_log" where
  "emplace_back l e =
     (let l1 = l\<lparr>log_entries := log_entries l @ [e]\<rparr>;
          l2 = l1\<lparr>log_memory_usage := log_memory_usage l1 + entry_usage l1 e\<rparr>
      in if is_conf e
         then l2\<lparr>log_prev_conf_idx := log_last_conf_idx l2, log_last_conf_idx := last_idx l2\<rparr>
         else l2)"

definition stable_to :: "raft_log \<Rightarrow> index_t \<Rightarrow> raft_log result" where
  "stable_to l idx = bindE (assertE (idx \<le> last_idx l)) (\<lambda>_. Inr (l\<lparr>log_stable_idx := idx\<rparr>))"

text \<open>Erasing from an iterator past the end is out of range.\<close>

definition truncate_uncommitted :: "raft_log \<Rightarrow> index_t \<Rightarrow> raft_log result" where
  "truncate_uncommitted l idx =
     bindE (assertE (idx \<ge> log_first_idx l)) (\<lambda>_.
     (let k = idx - log_first_idx l in
      if k > length (log_entries l) then Inl Out_of_range
      else
       let released_memory = range_memory_usage l (drop k (log_entries l));
           l1 = l\<lparr>log_entries := take k (log_entries l),
                  log_memory_usage := log_memory_usage l - released_memory\<rparr>
       in bindE (stable_to l1 (min (log_stable_idx l1) (last_idx l1))) (\<lambda>l2.
          if log_last_conf_idx l2 > last_idx l2
          then bindE (assertE (log_prev_conf_idx l2 < log_last_conf_idx l2)) (\<lambda>_.
               Inr (l2\<lparr>log_last_conf_idx := log_prev_conf_idx l2, log_prev_conf_idx := 0\<rparr>))
          else Inr l2)))"

text \<open>
  The backward scan over the loaded entries; the arguments are the values of \<open>_last_conf_idx\<close> and
  \<open>_prev_conf_idx\<close> so far and the entries still to visit, last one first.
\<close>

fun init_last_conf_loop :: "index_t \<Rightarrow> index_t \<times> index_t \<Rightarrow> log_entry list \<Rightarrow> index_t \<times> index_t" where
  "init_last_conf_loop s (lc, pc) [] = (lc, pc)"
| "init_last_conf_loop s (lc, pc) (e # es) =
     (if le_idx e = s then (lc, pc)
      else if is_conf e then
        (if lc = 0 then init_last_conf_loop s (le_idx e, pc) es else (lc, le_idx e))
      else init_last_conf_loop s (lc, pc) es)"

definition init_last_conf_idx :: "raft_log \<Rightarrow> raft_log" where
  "init_last_conf_idx l =
     (let (lc, pc) = init_last_conf_loop (snp_idx (log_snapshot l))
                       (log_last_conf_idx l, log_prev_conf_idx l) (rev (log_entries l))
      in l\<lparr>log_last_conf_idx := lc, log_prev_conf_idx := pc\<rparr>)"

definition make_log ::
  "nat \<Rightarrow> snapshot_descriptor \<Rightarrow> log_entry list \<Rightarrow> nat \<Rightarrow> raft_log result" where
  "make_log sizeof_entry snp es max_command_size =
     (let l0 = \<lparr>log_snapshot = snp, log_entries = es, log_max_command_size = max_command_size,
                log_first_idx = (case es of [] \<Rightarrow> snp_idx snp + 1 | e # _ \<Rightarrow> le_idx e),
                log_stable_idx = 0, log_last_conf_idx = 0, log_prev_conf_idx = 0,
                log_memory_usage = 0, log_sizeof_entry = sizeof_entry\<rparr>
      in bindE (assertE (es = [] \<or> log_first_idx l0 \<le> snp_idx snp + 1)) (\<lambda>_.
         let l1 = l0\<lparr>log_memory_usage := range_memory_usage l0 es\<rparr>
         in bindE (assertE (log_first_idx l1 > 0)) (\<lambda>_.
            bindE (stable_to l1 (last_idx l1)) (\<lambda>l2. Inr (init_last_conf_idx l2)))))"

definition match_term :: "raft_log \<Rightarrow> index_t \<Rightarrow> term_t \<Rightarrow> bool \<times> term_t" where
  "match_term l idx term =
     (if idx = 0 then (True, 0)
      else if idx < snp_idx (log_snapshot l) then (True, last_term l)
      else
        let my_term = (if idx = snp_idx (log_snapshot l) then Some (snp_term (log_snapshot l))
                       else map_option le_term (deque_at (log_first_idx l) (log_entries l) idx))
        in case my_term of
             None \<Rightarrow> (False, 0)
           | Some t \<Rightarrow> if t = term then (True, 0) else (False, t))"

text \<open>\<open>term_for\<close> does not check the upper bound: past the last entry the access is out of range.\<close>

definition term_for :: "raft_log \<Rightarrow> index_t \<Rightarrow> term_t option result" where
  "term_for l idx =
     (if log_entries l \<noteq> [] \<and> idx \<ge> log_first_idx l
      then bindE (get_entry l idx) (\<lambda>e. Inr (Some (le_term e)))
      else if idx = snp_idx (log_snapshot l) then Inr (Some (snp_term (log_snapshot l)))
      else Inr None)"

definition get_configuration :: "raft_log \<Rightarrow> configuration result" where
  "get_configuration l =
     (if log_last_conf_idx l \<noteq> 0 then bindE (get_entry l (log_last_conf_idx l)) get_conf
      else Inr (snp_config (log_snapshot l)))"

function last_conf_loop :: "raft_log \<Rightarrow> index_t \<Rightarrow> configuration result" where
  "last_conf_loop l idx =
     (if idx > snp_idx (log_snapshot l)
      then bindE (get_entry l idx) (\<lambda>e.
             case le_data e of
               Configuration cfg \<Rightarrow> Inr cfg
             | _ \<Rightarrow> last_conf_loop l (idx - 1))
      else Inr (snp_config (log_snapshot l)))"
  by pat_completeness auto
termination
  by (relation "measure (\<lambda>(l, idx). idx)") auto

declare last_conf_loop.simps [simp del]

definition last_conf_for :: "raft_log \<Rightarrow> index_t \<Rightarrow> configuration result" where
  "last_conf_for l idx =
     bindE (assertE (last_idx l \<ge> idx)) (\<lambda>_.
     bindE (assertE (idx \<ge> snp_idx (log_snapshot l))) (\<lambda>_.
     if log_last_conf_idx l = 0
     then bindE (assertE (log_prev_conf_idx l = 0)) (\<lambda>_. Inr (snp_config (log_snapshot l)))
     else if idx \<ge> log_last_conf_idx l
     then bindE (get_entry l (log_last_conf_idx l)) get_conf
     else if log_prev_conf_idx l = 0 then Inr (snp_config (log_snapshot l))
     else if idx \<ge> log_prev_conf_idx l
     then bindE (get_entry l (log_prev_conf_idx l)) get_conf
     else last_conf_loop l idx))"

definition get_prev_configuration :: "raft_log \<Rightarrow> configuration option result" where
  "get_prev_configuration l =
     (if log_prev_conf_idx l \<noteq> 0
      then bindE (bindE (get_entry l (log_prev_conf_idx l)) get_conf) (\<lambda>c. Inr (Some c))
      else if log_last_conf_idx l > snp_idx (log_snapshot l) then Inr (Some (snp_config (log_snapshot l)))
      else Inr None)"

fun maybe_append_loop :: "raft_log \<Rightarrow> log_entry list \<Rightarrow> raft_log result" where
  "maybe_append_loop l [] = Inr l"
| "maybe_append_loop l (e # es) =
     (let append_rest = (\<lambda>l'. bindE (assertE (le_idx e = next_idx l'))
                                 (\<lambda>_. maybe_append_loop (emplace_back l' e) es))
      in if le_idx e \<le> last_idx l then
           if le_idx e < log_first_idx l then maybe_append_loop l es
           else bindE (get_entry l (le_idx e)) (\<lambda>old.
                if le_term e = le_term old then maybe_append_loop l es
                else bindE (assertE (le_idx e > snp_idx (log_snapshot l))) (\<lambda>_.
                     bindE (truncate_uncommitted l (le_idx e)) append_rest))
         else append_rest l)"

definition maybe_append :: "raft_log \<Rightarrow> log_entry list \<Rightarrow> (index_t \<times> raft_log) result" where
  "maybe_append l entries =
     bindE (assertE (entries \<noteq> [])) (\<lambda>_.
     let last_new_idx = le_idx (last entries)
     in bindE (maybe_append_loop l entries) (\<lambda>l'. Inr (last_new_idx, l')))"

text \<open>
  The loop that keeps trailing entries: \<open>n\<close> is \<open>entries_to_remove\<close>, \<open>i\<close> the loop counter and \<open>tb\<close> the
  trailing bytes so far.
\<close>

fun trailing_loop ::
  "(log_entry \<Rightarrow> nat) \<Rightarrow> log_entry list \<Rightarrow> nat \<Rightarrow> nat \<Rightarrow> nat \<Rightarrow> nat \<Rightarrow> nat \<Rightarrow> nat" where
  "trailing_loop usage es max_trailing_entries max_trailing_bytes i 0 tb = 0"
| "trailing_loop usage es max_trailing_entries max_trailing_bytes i (Suc n) tb =
     (if i < max_trailing_entries then
        let tb' = tb + usage (es ! n)
        in if tb' > max_trailing_bytes then Suc n
           else trailing_loop usage es max_trailing_entries max_trailing_bytes (Suc i) n tb'
      else Suc n)"

definition log_apply_snapshot ::
  "raft_log \<Rightarrow> snapshot_descriptor \<Rightarrow> nat \<Rightarrow> nat \<Rightarrow> (nat \<times> index_t \<times> raft_log) result" where
  "log_apply_snapshot l snp max_trailing_entries max_trailing_bytes =
     bindE (assertE (snp_idx snp > snp_idx (log_snapshot l))) (\<lambda>_.
     let idx = snp_idx snp;
         (released_memory, l1) =
           (if idx > last_idx l
            then (log_memory_usage l,
                  l\<lparr>log_memory_usage := 0, log_entries := [], log_first_idx := idx + 1\<rparr>)
            else
              let n = trailing_loop (entry_usage l) (log_entries l) max_trailing_entries
                        max_trailing_bytes 0 (length (log_entries l) - (last_idx l - idx)) 0;
                  released = range_memory_usage l (take n (log_entries l))
              in (released,
                  l\<lparr>log_entries := drop n (log_entries l),
                    log_memory_usage := log_memory_usage l - released,
                    log_first_idx := log_first_idx l + n\<rparr>));
         l2 = l1\<lparr>log_stable_idx := max idx (log_stable_idx l1)\<rparr>;
         l3 = (if idx \<ge> log_prev_conf_idx l2
               then let l2' = l2\<lparr>log_prev_conf_idx := 0\<rparr>
                    in if idx \<ge> log_last_conf_idx l2' then l2'\<lparr>log_last_conf_idx := 0\<rparr> else l2'
               else l2);
         l4 = l3\<lparr>log_snapshot := snp\<rparr>
     in Inr (released_memory, log_first_idx l4, l4))"

section \<open>Well-formedness\<close>

text \<open>
  The abstract view of a log: a partial map from global indexes to entries. Well-formedness says that
  entries carry consecutive indexes from \<open>_first_idx\<close>, that there is no gap between the snapshot and
  the entries, that the snapshot and the stable index are not ahead of the log, and that the memory
  counter is the sum over the entries.
\<close>

abbreviation log_snp_idx :: "raft_log \<Rightarrow> index_t" where
  "log_snp_idx l \<equiv> snp_idx (log_snapshot l)"

definition entry_at :: "raft_log \<Rightarrow> index_t \<Rightarrow> log_entry option" where
  "entry_at l = deque_at (log_first_idx l) (log_entries l)"

definition consecutive :: "index_t \<Rightarrow> log_entry list \<Rightarrow> bool" where
  "consecutive first es \<longleftrightarrow> (\<forall>k < length es. le_idx (es ! k) = first + k)"

definition usage_sum :: "raft_log \<Rightarrow> log_entry list \<Rightarrow> nat" where
  "usage_sum l es = sum_list (map (entry_usage l) es)"

definition log_wf :: "raft_log \<Rightarrow> bool" where
  "log_wf l \<longleftrightarrow> 0 < log_first_idx l \<and> log_first_idx l \<le> log_snp_idx l + 1 \<and>
     log_snp_idx l \<le> last_idx l \<and> consecutive (log_first_idx l) (log_entries l) \<and>
     log_stable_idx l \<le> last_idx l \<and> log_memory_usage l = usage_sum l (log_entries l)"

lemma consecutive_Nil [simp]: "consecutive n []"
  by (simp add: consecutive_def)

lemma consecutive_Cons [simp]: "consecutive n (e # es) \<longleftrightarrow> le_idx e = n \<and> consecutive (Suc n) es"
  by (auto simp: consecutive_def nth_Cons less_Suc_eq_0_disj split: nat.splits)

lemma consecutive_append [simp]:
  "consecutive n (xs @ ys) \<longleftrightarrow> consecutive n xs \<and> consecutive (n + length xs) ys"
  by (induction xs arbitrary: n) auto

lemma consecutive_take: "consecutive n xs \<Longrightarrow> consecutive n (take k xs)"
  by (simp add: consecutive_def)

lemma consecutive_drop: "consecutive n xs \<Longrightarrow> consecutive (n + k) (drop k xs)"
  by (auto simp: consecutive_def)

lemma consecutive_nth: "consecutive n xs \<Longrightarrow> k < length xs \<Longrightarrow> le_idx (xs ! k) = n + k"
  by (simp add: consecutive_def)

lemma range_memory_usage_sum: "range_memory_usage l es = usage_sum l es"
proof -
  have "fold (\<lambda>e result. result + entry_usage l e) es a = a + usage_sum l es" for a
    by (induction es arbitrary: a) (auto simp: usage_sum_def)
  then show ?thesis by (simp add: range_memory_usage_def)
qed

lemma usage_sum_simps [simp]:
  "usage_sum l [] = 0"
  "usage_sum l (e # es) = entry_usage l e + usage_sum l es"
  "usage_sum l (xs @ ys) = usage_sum l xs + usage_sum l ys"
  by (simp_all add: usage_sum_def)

lemma usage_sum_take_drop: "usage_sum l (take k es) + usage_sum l (drop k es) = usage_sum l es"
  by (metis append_take_drop_id usage_sum_simps(3))

lemma entry_usage_cong [simp]:
  "entry_usage (l\<lparr>log_entries := a\<rparr>) = entry_usage l"
  "entry_usage (l\<lparr>log_memory_usage := b\<rparr>) = entry_usage l"
  "entry_usage (l\<lparr>log_first_idx := c\<rparr>) = entry_usage l"
  "entry_usage (l\<lparr>log_stable_idx := c\<rparr>) = entry_usage l"
  "entry_usage (l\<lparr>log_last_conf_idx := c\<rparr>) = entry_usage l"
  "entry_usage (l\<lparr>log_prev_conf_idx := c\<rparr>) = entry_usage l"
  "entry_usage (l\<lparr>log_snapshot := d\<rparr>) = entry_usage l"
  by (simp_all add: entry_usage_def)

lemma usage_sum_cong [simp]:
  "usage_sum (l\<lparr>log_entries := a\<rparr>) = usage_sum l"
  "usage_sum (l\<lparr>log_memory_usage := b\<rparr>) = usage_sum l"
  "usage_sum (l\<lparr>log_first_idx := c\<rparr>) = usage_sum l"
  "usage_sum (l\<lparr>log_stable_idx := c\<rparr>) = usage_sum l"
  "usage_sum (l\<lparr>log_last_conf_idx := c\<rparr>) = usage_sum l"
  "usage_sum (l\<lparr>log_prev_conf_idx := c\<rparr>) = usage_sum l"
  "usage_sum (l\<lparr>log_snapshot := d\<rparr>) = usage_sum l"
  by (simp_all add: usage_sum_def fun_eq_iff)

lemma entry_at_range:
  assumes "log_wf l"
  shows "entry_at l i \<noteq> None \<longleftrightarrow> log_first_idx l \<le> i \<and> i \<le> last_idx l"
  using assms by (auto simp: entry_at_def last_idx_def log_wf_def deque_at_def)

lemma entry_at_idx: "log_wf l \<Longrightarrow> entry_at l i = Some e \<Longrightarrow> le_idx e = i"
  by (auto simp: entry_at_def log_wf_def deque_at_Some_iff consecutive_nth)

lemma get_entry_eq: "get_entry l i = (case entry_at l i of Some e \<Rightarrow> Inr e | None \<Rightarrow> Inl Out_of_range)"
  by (simp add: get_entry_def entry_at_def)

lemma get_entry_Inr [simp]: "get_entry l i = Inr e \<longleftrightarrow> entry_at l i = Some e"
  by (simp add: get_entry_eq split: option.splits)

lemma log_index_Inr: "log_index l i = Inr e \<longleftrightarrow> entry_at l i = Some e"
  by (auto simp: log_index_def bindE_Inr_iff entry_at_def deque_at_Some_iff)

lemma last_idx_cong [simp]:
  "last_idx (l\<lparr>log_memory_usage := b\<rparr>) = last_idx l"
  "last_idx (l\<lparr>log_stable_idx := c\<rparr>) = last_idx l"
  "last_idx (l\<lparr>log_last_conf_idx := c\<rparr>) = last_idx l"
  "last_idx (l\<lparr>log_prev_conf_idx := c\<rparr>) = last_idx l"
  "last_idx (l\<lparr>log_snapshot := d\<rparr>) = last_idx l"
  by (simp_all add: last_idx_def)

lemma entry_at_cong [simp]:
  "entry_at (l\<lparr>log_memory_usage := b\<rparr>) = entry_at l"
  "entry_at (l\<lparr>log_stable_idx := c\<rparr>) = entry_at l"
  "entry_at (l\<lparr>log_last_conf_idx := c\<rparr>) = entry_at l"
  "entry_at (l\<lparr>log_prev_conf_idx := c\<rparr>) = entry_at l"
  "entry_at (l\<lparr>log_snapshot := d\<rparr>) = entry_at l"
  by (simp_all add: entry_at_def)

section \<open>Appending, truncating and compacting keep the log well formed\<close>

lemma emplace_back_fields [simp]:
  "log_entries (emplace_back l e) = log_entries l @ [e]"
  "log_first_idx (emplace_back l e) = log_first_idx l"
  "log_snapshot (emplace_back l e) = log_snapshot l"
  "log_stable_idx (emplace_back l e) = log_stable_idx l"
  "log_memory_usage (emplace_back l e) = log_memory_usage l + entry_usage l e"
  "log_sizeof_entry (emplace_back l e) = log_sizeof_entry l"
  "log_max_command_size (emplace_back l e) = log_max_command_size l"
  by (simp_all add: emplace_back_def Let_def)

lemma entry_usage_emplace_back [simp]:
  "entry_usage (emplace_back l e) = entry_usage l" "usage_sum (emplace_back l e) = usage_sum l"
  by (simp_all add: entry_usage_def usage_sum_def fun_eq_iff)

lemma last_idx_emplace_back [simp]:
  "0 < log_first_idx l \<Longrightarrow> last_idx (emplace_back l e) = Suc (last_idx l)"
  by (simp add: last_idx_def)

lemma entry_at_emplace_back:
  "log_wf l \<Longrightarrow> entry_at (emplace_back l e) i = (if i = next_idx l then Some e else entry_at l i)"
  by (auto simp: entry_at_def deque_at_append next_idx_def last_idx_def log_wf_def)

lemma log_wf_emplace_back:
  assumes "log_wf l" "le_idx e = next_idx l"
  shows "log_wf (emplace_back l e)"
  using assms by (auto simp: log_wf_def next_idx_def last_idx_def)

lemma stable_to_Inr: "stable_to l i = Inr l' \<longleftrightarrow> i \<le> last_idx l \<and> l' = l\<lparr>log_stable_idx := i\<rparr>"
  by (auto simp: stable_to_def bindE_Inr_iff)

lemma log_wf_stable_to: "log_wf l \<Longrightarrow> stable_to l i = Inr l' \<Longrightarrow> log_wf l'"
  by (auto simp: stable_to_Inr log_wf_def)

lemma usage_sum_eqI: "entry_usage l' = entry_usage l \<Longrightarrow> usage_sum l' = usage_sum l"
  by (auto simp: usage_sum_def fun_eq_iff intro!: arg_cong[of _ _ sum_list])

text \<open>The result of a truncation, and how the two configuration indexes move.\<close>

lemma truncate_uncommitted_Inr:
  assumes "truncate_uncommitted l i = Inr l'"
  defines "es \<equiv> take (i - log_first_idx l) (log_entries l)"
  defines "li \<equiv> last_idx (l\<lparr>log_entries := es\<rparr>)"
  shows "log_first_idx l \<le> i" "i - log_first_idx l \<le> length (log_entries l)"
    and "l' = l\<lparr>log_entries := es,
       log_memory_usage := log_memory_usage l - usage_sum l (drop (i - log_first_idx l) (log_entries l)),
       log_stable_idx := min (log_stable_idx l) li,
       log_last_conf_idx := (if log_last_conf_idx l > li then log_prev_conf_idx l else log_last_conf_idx l),
       log_prev_conf_idx := (if log_last_conf_idx l > li then 0 else log_prev_conf_idx l)\<rparr>"
  using assms(1)
  by (auto simp: truncate_uncommitted_def Let_def bindE_Inr_iff stable_to_Inr range_memory_usage_sum
      es_def li_def last_idx_def split: if_splits)

lemma truncate_uncommitted_fields:
  assumes "log_wf l" "truncate_uncommitted l i = Inr l'"
  shows "log_entries l' = take (i - log_first_idx l) (log_entries l)"
    and "log_first_idx l' = log_first_idx l" "log_snapshot l' = log_snapshot l"
    and "last_idx l' = i - 1" "log_stable_idx l' = min (log_stable_idx l) (i - 1)"
    and "log_memory_usage l' = usage_sum l (take (i - log_first_idx l) (log_entries l))"
    and "entry_usage l' = entry_usage l"
    and "log_first_idx l \<le> i" "i \<le> next_idx l"
proof -
  note t = truncate_uncommitted_Inr[OF assms(2)]
  have wf: "0 < log_first_idx l" "log_memory_usage l = usage_sum l (log_entries l)"
    using assms(1) by (auto simp: log_wf_def)
  have li: "last_idx (l\<lparr>log_entries := take (i - log_first_idx l) (log_entries l)\<rparr>) = i - 1"
    using t(1,2) wf(1) by (simp add: last_idx_def)
  show "log_first_idx l \<le> i" "i \<le> next_idx l"
    using t(1,2) wf(1) by (auto simp: next_idx_def last_idx_def)
  show "log_entries l' = take (i - log_first_idx l) (log_entries l)"
    "log_first_idx l' = log_first_idx l" "log_snapshot l' = log_snapshot l"
    "entry_usage l' = entry_usage l" "log_stable_idx l' = min (log_stable_idx l) (i - 1)"
    "last_idx l' = i - 1"
    using li by (simp_all add: t(3))
  show "log_memory_usage l' = usage_sum l (take (i - log_first_idx l) (log_entries l))"
    using usage_sum_take_drop[of l "i - log_first_idx l" "log_entries l"] wf(2) by (simp add: t(3))
qed

lemma log_wf_truncate_uncommitted:
  assumes "log_wf l" "truncate_uncommitted l i = Inr l'" "log_snp_idx l < i"
  shows "log_wf l'"
proof -
  note f = truncate_uncommitted_fields[OF assms(1,2)]
  show ?thesis using assms(1,3) f(8,9)
    by (simp add: log_wf_def f(1-6) usage_sum_eqI[OF f(7)] consecutive_take)
qed

lemma entry_at_truncate_uncommitted:
  assumes "log_wf l" "truncate_uncommitted l i = Inr l'"
  shows "entry_at l' j = (if j < i then entry_at l j else None)"
  using truncate_uncommitted_fields[OF assms] by (auto simp: entry_at_def deque_at_take)

section \<open>The configuration indexes\<close>

text \<open>
  \<open>conf_set l\<close> is the set of indexes after the snapshot that hold a configuration entry. The cached
  indexes are exact when they are the greatest and the second greatest of them (0 for none). A
  truncation forgets the second one, so the weaker \<open>conf_tracked\<close> also allows \<open>_prev_conf_idx = 0\<close>.
\<close>

definition conf_at :: "raft_log \<Rightarrow> index_t \<Rightarrow> bool" where
  "conf_at l i \<longleftrightarrow> (case entry_at l i of Some e \<Rightarrow> is_conf e | None \<Rightarrow> False)"

definition conf_set :: "raft_log \<Rightarrow> index_t set" where
  "conf_set l = {i. log_snp_idx l < i \<and> conf_at l i}"

definition greatest :: "nat set \<Rightarrow> nat \<Rightarrow> bool" where
  "greatest S k \<longleftrightarrow> (if S = {} then k = 0 else k \<in> S \<and> (\<forall>i\<in>S. i \<le> k))"

definition conf_exact :: "raft_log \<Rightarrow> bool" where
  "conf_exact l \<longleftrightarrow> greatest (conf_set l) (log_last_conf_idx l) \<and>
     greatest (conf_set l - {log_last_conf_idx l}) (log_prev_conf_idx l)"

definition conf_tracked :: "raft_log \<Rightarrow> bool" where
  "conf_tracked l \<longleftrightarrow> greatest (conf_set l) (log_last_conf_idx l) \<and>
     (log_prev_conf_idx l = 0 \<or> greatest (conf_set l - {log_last_conf_idx l}) (log_prev_conf_idx l))"

lemma conf_exact_tracked: "conf_exact l \<Longrightarrow> conf_tracked l"
  by (simp add: conf_exact_def conf_tracked_def)

lemma conf_exact_no_conf:
  assumes "log_last_conf_idx l = 0" "log_prev_conf_idx l = 0" "\<forall>e \<in> set (log_entries l). \<not> is_conf e"
  shows "conf_exact l"
proof -
  have "conf_set l = {}" using assms(3)
    by (auto simp: conf_set_def conf_at_def entry_at_def deque_at_def split: option.splits if_splits)
  then show ?thesis using assms by (simp add: conf_exact_def greatest_def)
qed

lemma greatest_empty [simp]: "greatest {} k \<longleftrightarrow> k = 0"
  by (simp add: greatest_def)

lemma greatest_mem: "greatest S k \<Longrightarrow> k \<noteq> 0 \<Longrightarrow> k \<in> S"
  by (auto simp: greatest_def split: if_splits)

lemma greatest_ge: "greatest S k \<Longrightarrow> i \<in> S \<Longrightarrow> i \<le> k"
  by (auto simp: greatest_def split: if_splits)

lemma greatest_zero: "greatest S 0 \<Longrightarrow> 0 \<notin> S \<Longrightarrow> S = {}"
  by (auto simp: greatest_def split: if_splits)

lemma greatestI: "k \<in> S \<Longrightarrow> (\<And>i. i \<in> S \<Longrightarrow> i \<le> k) \<Longrightarrow> greatest S k"
  by (auto simp: greatest_def)

lemma greatest_emptyI: "S = {} \<Longrightarrow> greatest S 0"
  by simp

lemma conf_set_range: "log_wf l \<Longrightarrow> i \<in> conf_set l \<Longrightarrow> log_snp_idx l < i \<and> i \<le> last_idx l"
  using entry_at_range[of l i] by (auto simp: conf_set_def conf_at_def split: option.splits)

lemma zero_notin_conf_set [simp]: "0 \<notin> conf_set l"
  by (simp add: conf_set_def)

lemma conf_tracked_order:
  assumes "conf_tracked l" "log_last_conf_idx l \<noteq> 0"
  shows "log_prev_conf_idx l < log_last_conf_idx l"
  using assms greatest_mem[of "conf_set l - {log_last_conf_idx l}" "log_prev_conf_idx l"]
    greatest_ge[of "conf_set l" "log_last_conf_idx l" "log_prev_conf_idx l"]
  by (cases "log_prev_conf_idx l = 0") (auto simp: conf_tracked_def)

lemma conf_tracked_zero:
  assumes "conf_tracked l" "log_last_conf_idx l = 0"
  shows "log_prev_conf_idx l = 0"
proof -
  have "conf_set l = {}" using assms greatest_zero[of "conf_set l"] by (simp add: conf_tracked_def)
  then show ?thesis using assms by (auto simp: conf_tracked_def)
qed

lemma conf_set_emplace_back:
  assumes "log_wf l" "le_idx e = next_idx l"
  shows "conf_set (emplace_back l e) = (if is_conf e then insert (next_idx l) (conf_set l) else conf_set l)"
proof -
  have "conf_at l (next_idx l) = False"
    using entry_at_range[OF assms(1), of "next_idx l"]
    by (simp add: conf_at_def next_idx_def split: option.splits)
  moreover have "log_snp_idx l < next_idx l" using assms(1) by (simp add: log_wf_def next_idx_def)
  ultimately show ?thesis
    by (auto simp: conf_set_def conf_at_def entry_at_emplace_back[OF assms(1)])
qed

lemma conf_indexes_emplace_back:
  "log_last_conf_idx (emplace_back l e) = (if is_conf e then last_idx (emplace_back l e) else log_last_conf_idx l)"
  "log_prev_conf_idx (emplace_back l e) = (if is_conf e then log_last_conf_idx l else log_prev_conf_idx l)"
  by (simp_all add: emplace_back_def Let_def last_idx_def)

text \<open>Appending a configuration makes the cached indexes exact again.\<close>

lemma conf_exact_emplace_back_conf:
  assumes "log_wf l" "le_idx e = next_idx l" "is_conf e" "conf_tracked l"
  shows "conf_exact (emplace_back l e)"
proof -
  have n: "last_idx (emplace_back l e) = next_idx l"
    using assms(1) by (simp add: log_wf_def next_idx_def)
  have le: "i \<le> next_idx l" if "i \<in> conf_set l" for i
    using conf_set_range[OF assms(1) that] by (simp add: next_idx_def)
  have notin: "next_idx l \<notin> conf_set l"
    using conf_set_range[OF assms(1), of "next_idx l"] by (auto simp: next_idx_def)
  have "greatest (insert (next_idx l) (conf_set l)) (next_idx l)"
    using le by (auto intro: greatestI)
  moreover have "insert (next_idx l) (conf_set l) - {next_idx l} = conf_set l" using notin by auto
  ultimately show ?thesis
    using assms by (simp add: conf_exact_def conf_tracked_def conf_set_emplace_back
        conf_indexes_emplace_back n del: last_idx_emplace_back)
qed

lemma conf_emplace_back_other:
  assumes "log_wf l" "le_idx e = next_idx l" "\<not> is_conf e"
  shows "conf_exact (emplace_back l e) \<longleftrightarrow> conf_exact l"
    and "conf_tracked (emplace_back l e) \<longleftrightarrow> conf_tracked l"
  using assms by (simp_all add: conf_exact_def conf_tracked_def conf_set_emplace_back
      conf_indexes_emplace_back)

lemma conf_tracked_emplace_back:
  assumes "log_wf l" "le_idx e = next_idx l" "conf_tracked l"
  shows "conf_tracked (emplace_back l e)"
  using assms conf_exact_emplace_back_conf[THEN conf_exact_tracked] conf_emplace_back_other(2)
  by blast

lemma conf_exact_emplace_back:
  assumes "log_wf l" "le_idx e = next_idx l" "conf_exact l"
  shows "conf_exact (emplace_back l e)"
  using assms conf_exact_emplace_back_conf[OF _ _ _ conf_exact_tracked] conf_emplace_back_other(1)
  by blast

lemma conf_set_truncate_uncommitted:
  assumes "log_wf l" "truncate_uncommitted l i = Inr l'"
  shows "conf_set l' = {j \<in> conf_set l. j < i}"
  using truncate_uncommitted_fields(3)[OF assms] entry_at_truncate_uncommitted[OF assms]
  by (auto simp: conf_set_def conf_at_def split: if_splits)

text \<open>
  A truncation keeps the cached index right when it removes no configuration entry, or one whose
  predecessor is known. The protocol gives this: at most one configuration entry is uncommitted.
\<close>

definition truncation_safe :: "raft_log \<Rightarrow> index_t \<Rightarrow> bool" where
  "truncation_safe l i \<longleftrightarrow> (\<forall>j \<in> conf_set l. j < i) \<or>
     (conf_exact l \<and> (\<forall>j \<in> conf_set l - {log_last_conf_idx l}. j < i))"

lemma conf_tracked_truncate_uncommitted:
  assumes wf: "log_wf l" and tr: "truncate_uncommitted l i = Inr l'"
    and "conf_tracked l" "truncation_safe l i" and i: "log_snp_idx l < i"
  shows "conf_tracked l'"
proof -
  have li: "last_idx (l\<lparr>log_entries := take (i - log_first_idx l) (log_entries l)\<rparr>) = i - 1"
    using truncate_uncommitted_fields(4)[OF wf tr] truncate_uncommitted_Inr(3)[OF tr] by simp
  have cs: "conf_set l' = {j \<in> conf_set l. j < i}"
    by (rule conf_set_truncate_uncommitted[OF wf tr])
  have c: "log_last_conf_idx l' = (if log_last_conf_idx l \<ge> i then log_prev_conf_idx l else log_last_conf_idx l)"
    "log_prev_conf_idx l' = (if log_last_conf_idx l \<ge> i then 0 else log_prev_conf_idx l)"
    using i by (auto simp: truncate_uncommitted_Inr(3)[OF tr] li)
  show ?thesis
  proof (cases "log_last_conf_idx l \<ge> i")
    case True
    then have mem: "log_last_conf_idx l \<in> conf_set l"
      using assms(3) i greatest_mem by (fastforce simp: conf_tracked_def)
    with True assms(4) have ex: "conf_exact l" and lt: "\<forall>j \<in> conf_set l - {log_last_conf_idx l}. j < i"
      by (auto simp: truncation_safe_def)
    have "conf_set l' = conf_set l - {log_last_conf_idx l}" using lt True by (auto simp: cs)
    then show ?thesis using ex True by (simp add: conf_tracked_def conf_exact_def c)
  next
    case False
    then have "conf_set l' = conf_set l"
      using assms(3) greatest_ge by (fastforce simp: cs conf_tracked_def)
    then show ?thesis using False assms(3) by (simp add: conf_tracked_def c)
  qed
qed

lemma truncate_uncommitted_total:
  assumes "log_wf l" "conf_tracked l" "log_snp_idx l < i" "i \<le> next_idx l"
  shows "\<exists>l'. truncate_uncommitted l i = Inr l'"
proof -
  have f: "log_first_idx l \<le> i" "i - log_first_idx l \<le> length (log_entries l)"
    using assms by (auto simp: log_wf_def next_idx_def last_idx_def)
  have "log_prev_conf_idx l < log_last_conf_idx l" if "log_last_conf_idx l > n" for n
    using conf_tracked_order[OF assms(2)] that by (cases "log_last_conf_idx l = 0") auto
  with f show ?thesis by (auto simp: truncate_uncommitted_def stable_to_def assertE_def Let_def)
qed

section \<open>Looking configurations up\<close>

lemma conf_at_get_conf: "conf_at l i \<Longrightarrow> \<exists>e c. entry_at l i = Some e \<and> le_data e = Configuration c"
  by (auto simp: conf_at_def is_conf_def split: option.splits entry_data.splits)

text \<open>What the backward scan finds, in terms of the set of configuration indexes.\<close>

lemma last_conf_loop_greatest:
  assumes "log_wf l" "idx \<le> last_idx l" "greatest {i \<in> conf_set l. i \<le> idx} k"
  shows "last_conf_loop l idx =
    (if k = 0 then Inr (snp_config (log_snapshot l)) else bindE (get_entry l k) get_conf)"
  using assms
proof (induction l idx rule: last_conf_loop.induct)
  case (1 l idx)
  show ?case
  proof (cases "idx > log_snp_idx l")
    case False
    then have "{i \<in> conf_set l. i \<le> idx} = {}" by (auto simp: conf_set_def)
    with "1.prems" have "k = 0" by simp
    with False show ?thesis by (simp add: last_conf_loop.simps[of l idx])
  next
    case True
    show ?thesis
    proof (cases "conf_at l idx")
      case c: True
      then have "idx \<in> {i \<in> conf_set l. i \<le> idx}" using True by (simp add: conf_set_def)
      then have "k = idx" using "1.prems"(3) by (auto simp: greatest_def split: if_splits)
      with conf_at_get_conf[OF c] True show ?thesis
        by (auto simp: last_conf_loop.simps[of l idx] get_entry_eq get_conf_def)
    next
      case c: False
      then have same: "{i \<in> conf_set l. i \<le> idx} = {i \<in> conf_set l. i \<le> idx - 1}"
        using True by (auto simp: conf_set_def le_less)
      obtain e where e: "entry_at l idx = Some e"
        using entry_at_range[of l idx] True "1.prems"(1,2) by (force simp: log_wf_def)
      have nc: "le_data e \<noteq> Configuration cc" for cc using c e by (auto simp: conf_at_def is_conf_def)
      have "last_conf_loop l (idx - 1) =
          (if k = 0 then Inr (snp_config (log_snapshot l)) else bindE (get_entry l k) get_conf)"
        using "1.IH"[OF True, of e] e "1.prems" same nc by (cases "le_data e") auto
      then show ?thesis using True e nc
        by (cases "le_data e") (auto simp: last_conf_loop.simps[of l idx] get_entry_eq)
    qed
  qed
qed

lemma get_configuration_scan:
  assumes "log_wf l" "conf_tracked l"
  shows "get_configuration l = last_conf_loop l (last_idx l)"
proof -
  have "{i \<in> conf_set l. i \<le> last_idx l} = conf_set l" using conf_set_range[OF assms(1)] by auto
  then have "greatest {i \<in> conf_set l. i \<le> last_idx l} (log_last_conf_idx l)"
    using assms(2) by (simp add: conf_tracked_def)
  from last_conf_loop_greatest[OF assms(1) order_refl this] show ?thesis
    by (simp add: get_configuration_def)
qed

lemma get_configuration_total:
  assumes "log_wf l" "conf_tracked l"
  shows "\<exists>c. get_configuration l = Inr c"
proof (cases "log_last_conf_idx l = 0")
  case False
  then have "log_last_conf_idx l \<in> conf_set l" using assms(2) greatest_mem by (auto simp: conf_tracked_def)
  then have "conf_at l (log_last_conf_idx l)" by (simp add: conf_set_def)
  from conf_at_get_conf[OF this] False show ?thesis
    by (auto simp: get_configuration_def get_entry_eq get_conf_def)
qed (simp add: get_configuration_def)

lemma get_configuration_emplace_conf:
  assumes "log_entries l \<noteq> [] \<or> 0 < log_first_idx l" "le_data e = Configuration c"
  shows "get_configuration (emplace_back l e) = Inr c"
  using assms by (auto simp: get_configuration_def conf_indexes_emplace_back last_idx_def
      get_entry_def deque_at_def nth_append is_conf_def get_conf_def)

lemma get_configuration_emplace_other:
  assumes "log_wf l" "conf_tracked l" "\<not> is_conf e"
  shows "get_configuration (emplace_back l e) = get_configuration l"
proof -
  have "log_last_conf_idx l \<noteq> next_idx l"
    using assms greatest_mem[of "conf_set l" "log_last_conf_idx l"] conf_set_range[OF assms(1)]
    by (cases "log_last_conf_idx l = 0") (force simp: conf_tracked_def next_idx_def)+
  then show ?thesis using assms(3)
    by (simp add: get_configuration_def conf_indexes_emplace_back get_entry_eq
        entry_at_emplace_back[OF assms(1)])
qed

lemma last_conf_for_scan:
  assumes "log_wf l" "conf_exact l" "log_snp_idx l \<le> idx" "idx \<le> last_idx l"
  shows "last_conf_for l idx = last_conf_loop l idx"
proof -
  let ?S = "conf_set l" and ?lc = "log_last_conf_idx l" and ?pc = "log_prev_conf_idx l"
  have lc: "greatest ?S ?lc" and pc: "greatest (?S - {?lc}) ?pc"
    using assms(2) by (auto simp: conf_exact_def)
  note scan = last_conf_loop_greatest[OF assms(1,4)]
  consider (none) "?lc = 0" | (last) "?lc \<noteq> 0" "?lc \<le> idx" | (one) "?lc \<noteq> 0" "idx < ?lc" "?pc = 0"
    | (prev) "?lc \<noteq> 0" "idx < ?lc" "?pc \<noteq> 0" "?pc \<le> idx" | (older) "?lc \<noteq> 0" "idx < ?lc" "?pc \<noteq> 0" "idx < ?pc"
    by linarith
  then show ?thesis
  proof cases
    case none
    then have "?S = {}" using lc greatest_zero by auto
    then show ?thesis using none pc scan[of 0] assms(3,4) by (simp add: last_conf_for_def)
  next
    case last
    then have "greatest {i \<in> ?S. i \<le> idx} ?lc"
      using greatest_mem[OF lc] greatest_ge[OF lc] by (auto intro: greatestI)
    then show ?thesis using last scan assms(3,4) by (simp add: last_conf_for_def)
  next
    case one
    then have "?S - {?lc} = {}" using greatest_zero[of "?S - {?lc}"] pc by simp
    then have "{i \<in> ?S. i \<le> idx} = {}" using one(2) by auto
    from scan[OF greatest_emptyI[OF this]] one assms(3,4) show ?thesis
      by (simp add: last_conf_for_def)
  next
    case prev
    then have "greatest {i \<in> ?S. i \<le> idx} ?pc"
      using greatest_mem[OF pc] greatest_ge[OF pc] by (intro greatestI) auto
    then show ?thesis using prev scan assms(3,4) by (simp add: last_conf_for_def)
  next
    case older
    then show ?thesis using assms(3,4) by (simp add: last_conf_for_def)
  qed
qed

section \<open>Loading a log\<close>

lemma init_last_conf_loop_found:
  "lc \<noteq> 0 \<Longrightarrow> init_last_conf_loop s (lc, pc) es =
     (lc, case filter is_conf (takeWhile (\<lambda>e. le_idx e \<noteq> s) es) of [] \<Rightarrow> pc | e # _ \<Rightarrow> le_idx e)"
  by (induction s "(lc, pc)" es arbitrary: lc pc rule: init_last_conf_loop.induct) auto

lemma init_last_conf_loop_eq:
  assumes "\<forall>e \<in> set es. le_idx e \<noteq> 0"
  shows "init_last_conf_loop s (0, 0) es =
     (case filter is_conf (takeWhile (\<lambda>e. le_idx e \<noteq> s) es) of
        [] \<Rightarrow> (0, 0)
      | [e] \<Rightarrow> (le_idx e, 0)
      | e # e' # _ \<Rightarrow> (le_idx e, le_idx e'))"
  using assms
proof (induction es)
  case (Cons e es)
  then show ?case
    by (auto simp: init_last_conf_loop_found split: list.splits)
qed simp

lemma consecutive_ge: "consecutive n es \<Longrightarrow> e \<in> set es \<Longrightarrow> n \<le> le_idx e \<and> le_idx e < n + length es"
  by (induction es arbitrary: n) fastforce+

lemma takeWhile_rev_consecutive:
  assumes "consecutive n es" "n \<le> Suc s" "s < n + length es"
  shows "takeWhile (\<lambda>e. le_idx e \<noteq> s) (rev es) = rev (drop (Suc s - n) es)"
proof (cases "n = Suc s")
  case True
  then have "\<forall>e \<in> set es. le_idx e \<noteq> s" using consecutive_ge[OF assms(1)] by fastforce
  then show ?thesis using True by simp
next
  case False
  define k where "k = s - n"
  have k: "k < length es" "Suc s - n = Suc k" "n + k = s" using False assms by (auto simp: k_def)
  have split: "es = take k es @ es ! k # drop (Suc k) es" using k(1) by (rule id_take_nth_drop)
  have after: "le_idx e \<noteq> s" if "e \<in> set (rev (drop (Suc k) es))" for e
    using that consecutive_ge[OF consecutive_drop[OF assms(1), of "Suc k"], of e] k(3) by simp
  have at: "le_idx (es ! k) = s" using consecutive_nth[OF assms(1) k(1)] k(3) by simp
  have r: "rev es = rev (drop (Suc k) es) @ es ! k # rev (take k es)"
    using arg_cong[OF split, of rev] by (simp only: rev_append rev.simps append_assoc append.simps)
  have "takeWhile (\<lambda>e. le_idx e \<noteq> s) (rev (drop (Suc k) es) @ es ! k # rev (take k es)) =
      rev (drop (Suc k) es) @ takeWhile (\<lambda>e. le_idx e \<noteq> s) (es ! k # rev (take k es))"
    by (rule takeWhile_append2) (rule after)
  then show ?thesis by (simp only: r k(2) takeWhile.simps at) simp
qed

lemma greatest_of_descending:
  assumes "sorted_wrt (\<lambda>a b. le_idx b < le_idx a) xs" "S = le_idx ` set xs"
  shows "greatest S (case xs of [] \<Rightarrow> 0 | e # _ \<Rightarrow> le_idx e)"
    and "greatest (S - {case xs of [] \<Rightarrow> 0 | e # _ \<Rightarrow> le_idx e})
           (case xs of e # e' # _ \<Rightarrow> le_idx e' | _ \<Rightarrow> 0)"
proof -
  show "greatest S (case xs of [] \<Rightarrow> 0 | e # _ \<Rightarrow> le_idx e)"
    using assms by (cases xs) (auto simp: less_imp_le intro!: greatestI)
  show "greatest (S - {case xs of [] \<Rightarrow> 0 | e # _ \<Rightarrow> le_idx e})
           (case xs of e # e' # _ \<Rightarrow> le_idx e' | _ \<Rightarrow> 0)"
  proof (cases xs)
    case (Cons e ys)
    then show ?thesis using assms
      by (cases ys) (auto simp: less_imp_le intro!: greatestI)
  qed (use assms in simp)
qed

lemma sorted_wrt_consecutive: "consecutive n es \<Longrightarrow> sorted_wrt (\<lambda>a b. le_idx a < le_idx b) es"
  by (simp add: sorted_wrt_iff_nth_less consecutive_nth)

lemma set_drop_consecutive:
  assumes "consecutive n es"
  shows "e \<in> set (drop k es) \<longleftrightarrow> e \<in> set es \<and> n + k \<le> le_idx e"
proof
  assume "e \<in> set (drop k es)"
  then show "e \<in> set es \<and> n + k \<le> le_idx e"
    using consecutive_ge[OF consecutive_drop[OF assms, of k], of e] by (simp add: in_set_dropD)
next
  assume e: "e \<in> set es \<and> n + k \<le> le_idx e"
  then obtain j where j: "j < length es" "es ! j = e" by (auto simp: in_set_conv_nth)
  then have "k \<le> j" using e consecutive_nth[OF assms j(1)] by simp
  then have "drop k es ! (j - k) = e" "j - k < length (drop k es)" using j by auto
  then show "e \<in> set (drop k es)" using nth_mem by blast
qed

lemma entry_at_iff:
  assumes "log_wf l"
  shows "entry_at l i = Some e \<longleftrightarrow> e \<in> set (log_entries l) \<and> le_idx e = i"
proof
  assume "entry_at l i = Some e"
  then show "e \<in> set (log_entries l) \<and> le_idx e = i"
    using entry_at_idx[OF assms] by (auto simp: entry_at_def deque_at_Some_iff)
next
  assume e: "e \<in> set (log_entries l) \<and> le_idx e = i"
  then obtain j where j: "j < length (log_entries l)" "log_entries l ! j = e" by (auto simp: in_set_conv_nth)
  have "consecutive (log_first_idx l) (log_entries l)" using assms by (simp add: log_wf_def)
  then have "i = log_first_idx l + j" using consecutive_nth j e by fastforce
  then show "entry_at l i = Some e" using j by (simp add: entry_at_def deque_at_def)
qed

lemma conf_set_eq_image:
  assumes "log_wf l"
  shows "conf_set l = le_idx ` set (filter is_conf (drop (Suc (log_snp_idx l) - log_first_idx l) (log_entries l)))"
proof -
  have c: "consecutive (log_first_idx l) (log_entries l)" "log_first_idx l \<le> Suc (log_snp_idx l)"
    using assms by (auto simp: log_wf_def)
  have "conf_set l = {i. log_snp_idx l < i \<and> (\<exists>e. entry_at l i = Some e \<and> is_conf e)}"
    by (auto simp: conf_set_def conf_at_def split: option.splits)
  also have "\<dots> = le_idx ` {e \<in> set (log_entries l). log_snp_idx l < le_idx e \<and> is_conf e}"
    by (auto simp: entry_at_iff[OF assms])
  finally show ?thesis
    using c(2) by (auto simp: set_drop_consecutive[OF c(1)] Suc_le_eq)
qed

lemma conf_exact_init:
  assumes wf: "log_wf l" and "log_last_conf_idx l = 0" "log_prev_conf_idx l = 0"
  shows "conf_exact (init_last_conf_idx l)"
proof -
  let ?xs = "filter is_conf (rev (drop (Suc (log_snp_idx l) - log_first_idx l) (log_entries l)))"
  have c: "consecutive (log_first_idx l) (log_entries l)" "log_first_idx l \<le> Suc (log_snp_idx l)"
    "log_snp_idx l < log_first_idx l + length (log_entries l)" "0 < log_first_idx l"
    using wf by (auto simp: log_wf_def last_idx_def)
  have nz: "\<forall>e \<in> set (rev (log_entries l)). le_idx e \<noteq> 0"
    using c(1,4) by (auto simp: consecutive_def in_set_conv_nth)
  have loop: "init_last_conf_loop (log_snp_idx l) (0, 0) (rev (log_entries l)) =
      (case ?xs of [] \<Rightarrow> 0 | e # _ \<Rightarrow> le_idx e, case ?xs of e # e' # _ \<Rightarrow> le_idx e' | _ \<Rightarrow> 0)"
    by (simp add: init_last_conf_loop_eq[OF nz] takeWhile_rev_consecutive[OF c(1-3)] split: list.splits)
  have "sorted_wrt (\<lambda>a b. le_idx b < le_idx a) ?xs"
    using sorted_wrt_consecutive[OF consecutive_drop[OF c(1)]]
    by (auto simp: sorted_wrt_rev intro: sorted_wrt_filter)
  note g = greatest_of_descending[OF this, of "conf_set l"]
  have "conf_set (init_last_conf_idx l) = conf_set l"
    by (simp add: init_last_conf_idx_def conf_set_def conf_at_def split: prod.splits)
  moreover have "conf_set l = le_idx ` set ?xs"
    using conf_set_eq_image[OF wf] by (simp add: rev_filter)
  ultimately show ?thesis using g assms(2,3) loop
    by (simp add: conf_exact_def init_last_conf_idx_def)
qed

lemma log_wf_init_last_conf_idx [simp]: "log_wf (init_last_conf_idx l) = log_wf l"
  by (simp add: init_last_conf_idx_def log_wf_def split: prod.splits)

text \<open>A log loaded from disk: consecutive entries that reach the snapshot.\<close>

lemma make_log_ok:
  assumes "case es of [] \<Rightarrow> True | e # _ \<Rightarrow> 0 < le_idx e \<and> le_idx e \<le> snp_idx snp + 1 \<and>
             consecutive (le_idx e) es \<and> snp_idx snp < le_idx e + length es"
  shows "\<exists>l. make_log sz snp es mcs = Inr l \<and> log_wf l \<and> conf_exact l \<and> log_entries l = es \<and>
             log_snapshot l = snp \<and> log_stable_idx l = last_idx l"
proof -
  define l0 where "l0 = \<lparr>log_snapshot = snp, log_entries = es, log_max_command_size = mcs,
                log_first_idx = (case es of [] \<Rightarrow> snp_idx snp + 1 | e # _ \<Rightarrow> le_idx e),
                log_stable_idx = 0, log_last_conf_idx = 0, log_prev_conf_idx = 0,
                log_memory_usage = 0, log_sizeof_entry = sz\<rparr>"
  define l2 where "l2 = l0\<lparr>log_memory_usage := range_memory_usage l0 es, log_stable_idx := last_idx l0\<rparr>"
  have eq: "make_log sz snp es mcs = Inr (init_last_conf_idx l2)"
    using assms by (auto simp: make_log_def l0_def l2_def Let_def stable_to_def assertE_def split: list.splits)
  have wf: "log_wf l2"
    using assms by (auto simp: log_wf_def l2_def l0_def range_memory_usage_sum last_idx_def usage_sum_def
        entry_usage_def split: list.splits)
  have "log_last_conf_idx l2 = 0" "log_prev_conf_idx l2 = 0" by (simp_all add: l2_def l0_def)
  from conf_exact_init[OF wf this] have "conf_exact (init_last_conf_idx l2)" .
  moreover have "log_entries (init_last_conf_idx l2) = es \<and> log_snapshot (init_last_conf_idx l2) = snp \<and>
      log_stable_idx (init_last_conf_idx l2) = last_idx (init_last_conf_idx l2)"
    by (simp add: init_last_conf_idx_def l2_def l0_def last_idx_def split: prod.splits)
  ultimately show ?thesis using eq wf by auto
qed

section \<open>Compaction\<close>

lemma drop_take_Suc: "r \<le> n \<Longrightarrow> n < length es \<Longrightarrow> drop r (take (Suc n) es) = drop r (take n es) @ [es ! n]"
  by (simp add: take_Suc_conv_app_nth)

lemma trailing_loop_le: "trailing_loop u es me mb i n tb \<le> n"
  by (induction u es me mb i n tb rule: trailing_loop.induct) (auto simp: Let_def le_SucI)

lemma trailing_loop_count: "i \<le> me \<Longrightarrow> i + (n - trailing_loop u es me mb i n tb) \<le> me"
proof (induction u es me mb i n tb rule: trailing_loop.induct)
  case (2 u es me mb i n tb)
  have "trailing_loop u es me mb (Suc i) n (tb + u (es ! n)) \<le> n" by (rule trailing_loop_le)
  with 2 show ?case by (auto simp: Let_def)
qed simp

lemma trailing_loop_bytes:
  assumes "n \<le> length es" "tb \<le> mb"
  shows "tb + sum_list (map u (drop (trailing_loop u es me mb i n tb) (take n es))) \<le> mb"
  using assms
proof (induction u es me mb i n tb rule: trailing_loop.induct)
  case (2 u es me mb i n tb)
  let ?r = "trailing_loop u es me mb (Suc i) n (tb + u (es ! n))"
  have "?r \<le> n" by (rule trailing_loop_le)
  with 2 show ?case by (auto simp: Let_def drop_take_Suc algebra_simps)
qed simp

lemma trailing_loop_maximal:
  assumes "n \<le> length es" "i \<le> me" "0 < trailing_loop u es me mb i n tb"
  shows "i + (n - trailing_loop u es me mb i n tb) = me \<or>
    mb < tb + sum_list (map u (drop (trailing_loop u es me mb i n tb - 1) (take n es)))"
  using assms
proof (induction u es me mb i n tb rule: trailing_loop.induct)
  case (2 u es me mb i n tb)
  let ?r = "trailing_loop u es me mb (Suc i) n (tb + u (es ! n))"
  have r: "?r \<le> n" by (rule trailing_loop_le)
  have d: "drop n (take (Suc n) es) = [es ! n]" using drop_take_Suc[of n n es] 2(2) by simp
  show ?case
  proof (cases "i < me \<and> tb + u (es ! n) \<le> mb")
    case True
    then have "Suc i + (n - ?r) = me \<or>
        mb < tb + u (es ! n) + sum_list (map u (drop (?r - 1) (take n es)))"
      using 2 by (simp add: Let_def)
    moreover have "drop (?r - 1) (take (Suc n) es) = drop (?r - 1) (take n es) @ [es ! n]"
      using r 2(2) by (intro drop_take_Suc) auto
    ultimately show ?thesis using True r by (auto simp: Let_def)
  qed (use 2 d in \<open>auto simp: Let_def\<close>)
qed simp

text \<open>
  The number of entries a compaction removes; \<open>log_apply_snapshot\<close> in closed form.
\<close>

definition snapshot_cut :: "raft_log \<Rightarrow> index_t \<Rightarrow> nat \<Rightarrow> nat \<Rightarrow> nat" where
  "snapshot_cut l idx me mb = trailing_loop (entry_usage l) (log_entries l) me mb 0
     (length (log_entries l) - (last_idx l - idx)) 0"

lemma log_apply_snapshot_eq:
  fixes me mb :: nat and l :: raft_log and snp :: snapshot_descriptor
  assumes "log_snp_idx l < snp_idx snp"
  defines "idx \<equiv> snp_idx snp" and "n \<equiv> snapshot_cut l (snp_idx snp) me mb"
  defines "l' \<equiv> l\<lparr>
       log_snapshot := snp,
       log_entries := (if idx > last_idx l then [] else drop n (log_entries l)),
       log_first_idx := (if idx > last_idx l then idx + 1 else log_first_idx l + n),
       log_stable_idx := max idx (log_stable_idx l),
       log_last_conf_idx := (if idx \<ge> log_prev_conf_idx l \<and> idx \<ge> log_last_conf_idx l then 0 else log_last_conf_idx l),
       log_prev_conf_idx := (if idx \<ge> log_prev_conf_idx l then 0 else log_prev_conf_idx l),
       log_memory_usage := (if idx > last_idx l then 0
                            else log_memory_usage l - usage_sum l (take n (log_entries l)))\<rparr>"
  shows "log_apply_snapshot l snp me mb =
    Inr (if idx > last_idx l then log_memory_usage l else usage_sum l (take n (log_entries l)),
         log_first_idx l', l')"
  using assms(1) unfolding log_apply_snapshot_def l'_def idx_def n_def snapshot_cut_def
  by (cases "snp_idx snp > last_idx l"; cases "snp_idx snp \<ge> log_prev_conf_idx l";
      cases "snp_idx snp \<ge> log_last_conf_idx l")
     (simp_all add: Let_def range_memory_usage_sum)

lemma snapshot_cut_bounds:
  fixes me mb :: nat and l :: raft_log
  assumes "log_wf l" "log_snp_idx l < idx" "idx \<le> last_idx l"
  defines "n \<equiv> snapshot_cut l idx me mb"
  shows "n \<le> Suc idx - log_first_idx l" "Suc idx - log_first_idx l \<le> length (log_entries l)"
    and "Suc idx - log_first_idx l - n \<le> me"
    and "usage_sum l (drop n (take (Suc idx - log_first_idx l) (log_entries l))) \<le> mb"
    and "0 < n \<Longrightarrow> Suc idx - log_first_idx l - n = me \<or>
      mb < usage_sum l (drop (n - 1) (take (Suc idx - log_first_idx l) (log_entries l)))"
proof -
  have e: "length (log_entries l) - (last_idx l - idx) = Suc idx - log_first_idx l"
    using assms(1-3) by (simp add: log_wf_def last_idx_def)
  show le: "Suc idx - log_first_idx l \<le> length (log_entries l)"
    using assms(1,3) by (auto simp: log_wf_def last_idx_def)
  show "n \<le> Suc idx - log_first_idx l"
    using trailing_loop_le by (simp add: n_def snapshot_cut_def e)
  show "Suc idx - log_first_idx l - n \<le> me"
    using trailing_loop_count[of 0 me "Suc idx - log_first_idx l" "entry_usage l" "log_entries l" mb 0]
    by (simp add: n_def snapshot_cut_def e)
  show "usage_sum l (drop n (take (Suc idx - log_first_idx l) (log_entries l))) \<le> mb"
    using trailing_loop_bytes[OF le, of 0 mb] by (simp add: n_def snapshot_cut_def e usage_sum_def)
  show "Suc idx - log_first_idx l - n = me \<or>
      mb < usage_sum l (drop (n - 1) (take (Suc idx - log_first_idx l) (log_entries l)))" if "0 < n"
    using trailing_loop_maximal[OF le, of 0 me "entry_usage l" mb 0] that
    by (simp add: n_def snapshot_cut_def e usage_sum_def)
qed

lemma entry_at_apply_snapshot:
  assumes "log_wf l" "log_snp_idx l < snp_idx snp" "log_apply_snapshot l snp me mb = Inr (rel, fi, l')"
    "snp_idx snp < i"
  shows "entry_at l' i = entry_at l i"
proof (cases "snp_idx snp > last_idx l")
  case True
  then have "entry_at l i = None" using entry_at_range[OF assms(1), of i] assms(4) by auto
  then show ?thesis using True assms(2,3) by (auto simp: log_apply_snapshot_eq entry_at_def deque_at_def)
next
  case False
  note b = snapshot_cut_bounds(1)[OF assms(1,2), of me mb] snapshot_cut_bounds(2)[OF assms(1,2)]
      snapshot_cut_bounds(3)[OF assms(1,2), of me mb]
  have n: "snapshot_cut l (snp_idx snp) me mb \<le> length (log_entries l)"
    "log_first_idx l + snapshot_cut l (snp_idx snp) me mb \<le> Suc (snp_idx snp)"
    using b(1,2) False assms(1,2) by (auto simp: log_wf_def)
  show ?thesis using False assms(2-4) n
    by (auto simp: log_apply_snapshot_eq entry_at_def deque_at_drop)
qed

lemma log_wf_apply_snapshot:
  assumes "log_wf l" "log_snp_idx l < snp_idx snp" "log_apply_snapshot l snp me mb = Inr (rel, fi, l')"
  shows "log_wf l'" "last_idx l' = max (snp_idx snp) (last_idx l)" "log_snapshot l' = snp"
    and "fi = log_first_idx l'" "log_memory_usage l' + rel = log_memory_usage l"
    and "log_stable_idx l' = max (snp_idx snp) (log_stable_idx l)"
    and "Suc (snp_idx snp) - log_first_idx l' \<le> me"
proof -
  let ?n = "snapshot_cut l (snp_idx snp) me mb"
  have res: "l' = snd (snd (rel, fi, l'))" by simp
  have wf: "0 < log_first_idx l" "log_first_idx l \<le> Suc (log_snp_idx l)" "log_stable_idx l \<le> last_idx l"
    "consecutive (log_first_idx l) (log_entries l)" "log_memory_usage l = usage_sum l (log_entries l)"
    using assms(1) by (auto simp: log_wf_def)
  have u: "usage_sum l (take ?n (log_entries l)) + usage_sum l (drop ?n (log_entries l)) = usage_sum l (log_entries l)"
    by (rule usage_sum_take_drop)
  have all: "log_wf l' \<and> last_idx l' = max (snp_idx snp) (last_idx l) \<and> log_snapshot l' = snp \<and>
    fi = log_first_idx l' \<and> log_memory_usage l' + rel = log_memory_usage l \<and>
    log_stable_idx l' = max (snp_idx snp) (log_stable_idx l) \<and> Suc (snp_idx snp) - log_first_idx l' \<le> me"
  proof (cases "snp_idx snp > last_idx l")
    case True
    then have "log_wf l'" using assms(2,3) wf by (auto simp: log_apply_snapshot_eq log_wf_def last_idx_def)
    with True show ?thesis using assms(2,3) wf(3) by (auto simp: log_apply_snapshot_eq last_idx_def)
  next
    case False
    note b = snapshot_cut_bounds(1)[OF assms(1,2), of me mb] snapshot_cut_bounds(2)[OF assms(1,2)]
      snapshot_cut_bounds(3)[OF assms(1,2), of me mb]
    have n: "?n \<le> length (log_entries l)" "log_first_idx l + ?n \<le> Suc (snp_idx snp)"
      "Suc (snp_idx snp) - log_first_idx l - ?n \<le> me"
      using b(1,2,3) False wf(2) assms(2) by auto
    have l': "log_entries l' = drop ?n (log_entries l)" "log_first_idx l' = log_first_idx l + ?n"
      "log_snapshot l' = snp" "log_stable_idx l' = max (snp_idx snp) (log_stable_idx l)"
      "log_memory_usage l' = usage_sum l (drop ?n (log_entries l))"
      "rel = usage_sum l (take ?n (log_entries l))" "fi = log_first_idx l + ?n" "entry_usage l' = entry_usage l"
      using assms(2,3) False u wf(5) by (auto simp: log_apply_snapshot_eq)
    have "last_idx l' = last_idx l" using n(1) wf(1) by (simp add: last_idx_def l')
    then show ?thesis
      using n False wf(1,3) consecutive_drop[OF wf(4)] u wf(5)
      by (simp add: log_wf_def l' usage_sum_eqI[OF l'(8)])
  qed
  then show "log_wf l'" "last_idx l' = max (snp_idx snp) (last_idx l)" "log_snapshot l' = snp"
    "fi = log_first_idx l'" "log_memory_usage l' + rel = log_memory_usage l"
    "log_stable_idx l' = max (snp_idx snp) (log_stable_idx l)" "Suc (snp_idx snp) - log_first_idx l' \<le> me"
    by blast+
qed

lemma conf_set_apply_snapshot:
  assumes "log_wf l" "log_snp_idx l < snp_idx snp" "log_apply_snapshot l snp me mb = Inr (rel, fi, l')"
  shows "conf_set l' = {i \<in> conf_set l. snp_idx snp < i}"
  using log_wf_apply_snapshot(3)[OF assms] entry_at_apply_snapshot[OF assms] assms(2)
  by (auto simp: conf_set_def conf_at_def)

lemma conf_apply_snapshot:
  assumes "log_wf l" "log_snp_idx l < snp_idx snp" "log_apply_snapshot l snp me mb = Inr (rel, fi, l')"
  shows "conf_tracked l \<Longrightarrow> conf_tracked l'" and "conf_exact l \<Longrightarrow> conf_exact l'"
proof -
  let ?S = "conf_set l" and ?lc = "log_last_conf_idx l" and ?pc = "log_prev_conf_idx l" and ?i = "snp_idx snp"
  have c: "log_last_conf_idx l' = (if ?i \<ge> ?pc \<and> ?i \<ge> ?lc then 0 else ?lc)"
    "log_prev_conf_idx l' = (if ?i \<ge> ?pc then 0 else ?pc)"
    using assms(2,3) by (auto simp: log_apply_snapshot_eq)
  note cs = conf_set_apply_snapshot[OF assms]
  have last: "greatest (conf_set l') (log_last_conf_idx l')" if t: "conf_tracked l"
  proof (cases "?i < ?lc")
    case True
    then show ?thesis using t greatest_mem[of ?S ?lc] greatest_ge[of ?S ?lc] assms(2)
      by (auto simp: conf_tracked_def c cs intro!: greatestI)
  next
    case False
    then have "conf_set l' = {}" using t greatest_ge[of ?S ?lc] by (fastforce simp: conf_tracked_def cs)
    moreover have "?pc \<le> ?i" using conf_tracked_order[OF t] conf_tracked_zero[OF t] False
      by (cases "?lc = 0") auto
    ultimately show ?thesis using False by (simp add: c)
  qed
  have prev: "greatest (conf_set l' - {log_last_conf_idx l'}) (log_prev_conf_idx l')"
    if "conf_tracked l" "greatest (?S - {?lc}) ?pc"
  proof (cases "?i < ?pc")
    case True
    moreover have "?pc < ?lc" using conf_tracked_order[OF that(1)] conf_tracked_zero[OF that(1)] True
      by (cases "?lc = 0") auto
    ultimately show ?thesis using greatest_mem[OF that(2)] greatest_ge[OF that(2)]
      by (auto simp: c cs intro!: greatestI)
  next
    case False
    have "conf_set l' - {?lc} = {}" using greatest_ge[OF that(2)] False by (fastforce simp: cs)
    moreover have "conf_set l' = {}" if "?i \<ge> ?lc"
      using last[OF \<open>conf_tracked l\<close>] that False greatest_zero[of "conf_set l'"] by (simp add: c)
    ultimately show ?thesis using False by (auto simp: c intro!: greatest_emptyI)
  qed
  show "conf_tracked l \<Longrightarrow> conf_tracked l'"
    using last prev by (cases "?pc = 0") (auto simp: conf_tracked_def c)
  show "conf_exact l \<Longrightarrow> conf_exact l'"
    using last prev conf_exact_tracked by (auto simp: conf_exact_def)
qed

section \<open>Appending entries received from a leader\<close>

definition append_all :: "raft_log \<Rightarrow> log_entry list \<Rightarrow> raft_log" where
  "append_all = foldl emplace_back"

definition mismatch :: "raft_log \<Rightarrow> log_entry \<Rightarrow> bool" where
  "mismatch l e \<longleftrightarrow> (case entry_at l (le_idx e) of None \<Rightarrow> False | Some old \<Rightarrow> le_term old \<noteq> le_term e)"

lemma append_all_simps [simp]:
  "append_all l [] = l"
  "append_all l (e # es) = append_all (emplace_back l e) es"
  by (simp_all add: append_all_def)

lemma next_idx_emplace_back: "log_wf l \<Longrightarrow> next_idx (emplace_back l e) = Suc (next_idx l)"
  by (simp add: next_idx_def log_wf_def)

lemma append_all_wf:
  assumes "log_wf l" "consecutive (next_idx l) es"
  shows "log_wf (append_all l es)" "last_idx (append_all l es) = last_idx l + length es"
    and "log_first_idx (append_all l es) = log_first_idx l" "log_snapshot (append_all l es) = log_snapshot l"
    and "log_stable_idx (append_all l es) = log_stable_idx l"
  using assms
proof (induction es arbitrary: l)
  case (Cons e es)
  {
    case 1 then show ?case using Cons.IH(1)[of "emplace_back l e"]
      by (simp add: log_wf_emplace_back next_idx_emplace_back)
  next
    case 2 then show ?case using Cons.IH(2)[of "emplace_back l e"]
      by (simp add: log_wf_emplace_back next_idx_emplace_back) (simp add: log_wf_def)
  next
    case 3 then show ?case using Cons.IH(3)[of "emplace_back l e"]
      by (simp add: log_wf_emplace_back next_idx_emplace_back)
  next
    case 4 then show ?case using Cons.IH(4)[of "emplace_back l e"]
      by (simp add: log_wf_emplace_back next_idx_emplace_back)
  next
    case 5 then show ?case using Cons.IH(5)[of "emplace_back l e"]
      by (simp add: log_wf_emplace_back next_idx_emplace_back)
  }
qed simp_all

lemma append_all_tracked:
  assumes "log_wf l" "consecutive (next_idx l) es" "conf_tracked l"
  shows "conf_tracked (append_all l es)"
  using assms
  by (induction es arbitrary: l)
     (simp_all add: log_wf_emplace_back next_idx_emplace_back conf_tracked_emplace_back)

lemma entry_at_append_all:
  assumes "log_wf l" "consecutive (next_idx l) es"
  shows "entry_at (append_all l es) i =
    (if next_idx l \<le> i \<and> i < next_idx l + length es then Some (es ! (i - next_idx l)) else entry_at l i)"
  using assms
proof (induction es arbitrary: l)
  case (Cons e es)
  have "entry_at (append_all (emplace_back l e) es) i =
    (if Suc (next_idx l) \<le> i \<and> i < Suc (next_idx l) + length es then Some (es ! (i - Suc (next_idx l)))
     else entry_at (emplace_back l e) i)"
    using Cons.IH[of "emplace_back l e"] Cons.prems
    by (simp add: log_wf_emplace_back next_idx_emplace_back)
  then show ?case
    by (cases "i = next_idx l")
       (auto simp: entry_at_emplace_back[OF Cons.prems(1)] nth_Cons' not_less_eq_eq Suc_diff_Suc)
qed auto

lemma maybe_append_loop_fresh:
  assumes "log_wf l" "consecutive (next_idx l) es"
  shows "maybe_append_loop l es = Inr (append_all l es)"
  using assms
proof (induction es arbitrary: l)
  case (Cons e es)
  then have "le_idx e > last_idx l" "le_idx e = next_idx l" by (auto simp: next_idx_def)
  then show ?case using Cons.IH[of "emplace_back l e"] Cons.prems
    by (simp add: Let_def log_wf_emplace_back next_idx_emplace_back)
qed simp

lemma maybe_append_loop_match:
  assumes "log_wf l" "consecutive n es" "n \<le> next_idx l" "\<forall>e \<in> set es. \<not> mismatch l e"
  shows "maybe_append_loop l es = Inr (append_all l (drop (next_idx l - n) es))"
  using assms
proof (induction es arbitrary: n)
  case (Cons e es)
  show ?case
  proof (cases "n = next_idx l")
    case True
    then show ?thesis using maybe_append_loop_fresh[OF Cons.prems(1), of "e # es"] Cons.prems(2) by simp
  next
    case False
    then have n: "le_idx e \<le> last_idx l" "Suc n \<le> next_idx l" "next_idx l - n = Suc (next_idx l - Suc n)"
      using Cons.prems by (auto simp: next_idx_def)
    have "maybe_append_loop l es = Inr (append_all l (drop (next_idx l - Suc n) es))"
      using Cons.IH[of "Suc n"] Cons.prems n by simp
    moreover have "\<exists>old. entry_at l (le_idx e) = Some old \<and> le_term old = le_term e" if "\<not> le_idx e < log_first_idx l"
      using entry_at_range[OF Cons.prems(1), of "le_idx e"] that n(1) Cons.prems(4)
      by (auto simp: mismatch_def split: option.splits)
    ultimately show ?thesis using n by (auto simp: Let_def get_entry_eq)
  qed
qed simp

lemma maybe_append_loop_conflict:
  assumes "log_wf l" "consecutive n (xs @ e # ys)" "\<forall>x \<in> set xs. \<not> mismatch l x" "mismatch l e"
    "log_snp_idx l < le_idx e" "truncate_uncommitted l (le_idx e) = Inr l1"
  shows "maybe_append_loop l (xs @ e # ys) = Inr (append_all l1 (e # ys))"
  using assms
proof (induction xs arbitrary: n)
  case Nil
  then obtain old where old: "entry_at l (le_idx e) = Some old" "le_term old \<noteq> le_term e"
    by (auto simp: mismatch_def split: option.splits)
  then have r: "log_first_idx l \<le> le_idx e" "le_idx e \<le> last_idx l"
    using entry_at_range[OF Nil.prems(1), of "le_idx e"] by auto
  have wf1: "log_wf l1" using log_wf_truncate_uncommitted Nil.prems by blast
  have n1: "next_idx l1 = le_idx e"
    using truncate_uncommitted_fields(4)[OF Nil.prems(1,6)] Nil.prems(5) by (simp add: next_idx_def)
  have "maybe_append_loop (emplace_back l1 e) ys = Inr (append_all (emplace_back l1 e) ys)"
    using Nil.prems(2) wf1 n1
    by (intro maybe_append_loop_fresh) (auto simp: log_wf_emplace_back next_idx_emplace_back)
  then show ?case using r old Nil.prems(5,6) n1
    by (simp add: Let_def get_entry_eq)
next
  case (Cons x xs)
  obtain old where "entry_at l (le_idx e) = Some old"
    using Cons.prems(4) by (auto simp: mismatch_def split: option.splits)
  then have "le_idx e \<le> last_idx l" using entry_at_range[OF Cons.prems(1), of "le_idx e"] by auto
  moreover have "le_idx x < le_idx e" using Cons.prems(2) by simp
  ultimately have x: "le_idx x \<le> last_idx l" by simp
  have "\<exists>old. entry_at l (le_idx x) = Some old \<and> le_term old = le_term x" if "\<not> le_idx x < log_first_idx l"
    using entry_at_range[OF Cons.prems(1), of "le_idx x"] that x Cons.prems(3)
    by (auto simp: mismatch_def split: option.splits)
  moreover have "maybe_append_loop l (xs @ e # ys) = Inr (append_all l1 (e # ys))"
    using Cons.IH[of "Suc n"] Cons.prems by simp
  ultimately show ?case using x by (auto simp: Let_def get_entry_eq)
qed

lemma first_mismatch:
  assumes "\<exists>e \<in> set es. mismatch l e"
  obtains xs e ys where "es = xs @ e # ys" "\<forall>x \<in> set xs. \<not> mismatch l x" "mismatch l e"
  using split_list_first_prop[OF assms] by blast

lemma consecutive_mid:
  "consecutive n (xs @ e # ys) \<Longrightarrow> le_idx e = n + length xs"
  by simp

text \<open>
  The outcome of \<open>maybe_append\<close> as a function of the index. Without a conflict the log only grows;
  with one, everything from the first conflicting index on is the received suffix.
\<close>

lemma maybe_append_match:
  assumes "log_wf l" "es \<noteq> []" "consecutive n es" "n \<le> next_idx l" "\<forall>e \<in> set es. \<not> mismatch l e"
  obtains l' where "maybe_append l es = Inr (n + length es - 1, l')" "log_wf l'"
    "log_snapshot l' = log_snapshot l" "log_first_idx l' = log_first_idx l"
    "log_stable_idx l' = log_stable_idx l"
    "last_idx l' = max (last_idx l) (n + length es - 1)"
    "\<And>i. entry_at l' i = (if next_idx l \<le> i \<and> i < n + length es then Some (es ! (i - n)) else entry_at l i)"
    "conf_tracked l \<Longrightarrow> conf_tracked l'"
proof -
  let ?d = "drop (next_idx l - n) es"
  let ?l = "append_all l ?d"
  have c: "consecutive (next_idx l) ?d"
    using consecutive_drop[OF assms(3), of "next_idx l - n"] assms(4) by (cases "?d = []") auto
  have last: "le_idx (last es) = n + length es - 1"
    using assms(2,3) by (simp add: consecutive_def last_conv_nth) (cases es; simp)
  have len: "length ?d = n + length es - next_idx l" using assms(4) by auto
  show ?thesis
  proof (rule that)
    show "maybe_append l es = Inr (n + length es - 1, ?l)"
      using maybe_append_loop_match[OF assms(1,3,4,5)] assms(2) last by (simp add: maybe_append_def)
    show "last_idx ?l = max (last_idx l) (n + length es - 1)"
      using append_all_wf(2)[OF assms(1) c] len assms(2) by (cases es) (auto simp: next_idx_def)
    show "entry_at ?l i = (if next_idx l \<le> i \<and> i < n + length es then Some (es ! (i - n)) else entry_at l i)" for i
      using entry_at_append_all[OF assms(1) c, of i] assms(4) by (auto simp: add.commute nth_drop)
  qed (use append_all_wf[OF assms(1) c] append_all_tracked[OF assms(1) c] in auto)
qed

lemma maybe_append_conflict:
  assumes "log_wf l" "conf_tracked l" "consecutive n (xs @ e # ys)" "\<forall>x \<in> set xs. \<not> mismatch l x" "mismatch l e"
    "log_snp_idx l < le_idx e"
  obtains l' where "maybe_append l (xs @ e # ys) = Inr (n + length xs + length ys, l')" "log_wf l'"
    "log_snapshot l' = log_snapshot l" "log_first_idx l' = log_first_idx l"
    "log_stable_idx l' = min (log_stable_idx l) (le_idx e - 1)"
    "last_idx l' = n + length xs + length ys"
    "\<And>i. entry_at l' i = (if i < le_idx e then entry_at l i
        else if i \<le> n + length xs + length ys then Some ((e # ys) ! (i - le_idx e)) else None)"
    "truncation_safe l (le_idx e) \<Longrightarrow> conf_tracked l'"
proof -
  have ie: "le_idx e = n + length xs" by (rule consecutive_mid[OF assms(3)])
  have "entry_at l (le_idx e) \<noteq> None" using assms(5) by (auto simp: mismatch_def split: option.splits)
  then have r: "log_first_idx l \<le> le_idx e" "le_idx e \<le> last_idx l"
    using entry_at_range[OF assms(1), of "le_idx e"] by auto
  obtain l1 where l1: "truncate_uncommitted l (le_idx e) = Inr l1"
    using truncate_uncommitted_total[OF assms(1,2,6)] r(2) by (auto simp: next_idx_def)
  note f = truncate_uncommitted_fields[OF assms(1) l1]
  have wf1: "log_wf l1" by (rule log_wf_truncate_uncommitted[OF assms(1) l1 assms(6)])
  have n1: "next_idx l1 = le_idx e" using f(4) assms(6) by (simp add: next_idx_def)
  have c: "consecutive (next_idx l1) (e # ys)" using assms(3) ie n1 by simp
  have last: "le_idx (last (xs @ e # ys)) = n + length xs + length ys"
    using c ie n1 by (cases ys rule: rev_cases) auto
  let ?l = "append_all l1 (e # ys)"
  have ml: "maybe_append_loop l (xs @ e # ys) = Inr ?l"
    by (rule maybe_append_loop_conflict[OF assms(1,3-6) l1])
  show ?thesis
  proof (rule that)
    show "maybe_append l (xs @ e # ys) = Inr (n + length xs + length ys, ?l)"
      using last by (simp add: maybe_append_def ml del: append_all_simps)
    show "last_idx ?l = n + length xs + length ys"
      using append_all_wf(2)[OF wf1 c] f(4) ie assms(6) by auto
    show "entry_at ?l i = (if i < le_idx e then entry_at l i
        else if i \<le> n + length xs + length ys then Some ((e # ys) ! (i - le_idx e)) else None)" for i
      using entry_at_append_all[OF wf1 c, of i] entry_at_truncate_uncommitted[OF assms(1) l1, of i] n1 ie
      by (auto simp del: append_all_simps)
    show "log_wf ?l" "log_snapshot ?l = log_snapshot l" "log_first_idx ?l = log_first_idx l"
      "log_stable_idx ?l = min (log_stable_idx l) (le_idx e - 1)"
      using append_all_wf[OF wf1 c] f by (simp_all del: append_all_simps)
    show "conf_tracked ?l" if "truncation_safe l (le_idx e)"
      by (rule append_all_tracked[OF wf1 c conf_tracked_truncate_uncommitted[OF assms(1) l1 assms(2) that assms(6)]])
  qed
qed

end
