(* ===== verification/Raft_Log_Spec.thy ===== *)
theory Raft_Log_Spec
  imports Raft_Log
begin

text \<open>
  What the log promises to its users. The specification of the configuration queries is
  \<open>conf_in_force\<close>: replay the entries after the snapshot and keep the last configuration seen. The
  theory relates \<open>get_configuration\<close>, \<open>last_conf_for\<close>, the constructor and \<open>apply_snapshot\<close> of
  \<open>src/raft/log.cc\<close> to it, and gives the set of logs the program can build as an inductive predicate.
\<close>

section \<open>The configuration in force at an index\<close>

definition replay_conf :: "index_t \<Rightarrow> index_t \<Rightarrow> configuration \<Rightarrow> log_entry \<Rightarrow> configuration" where
  "replay_conf snp idx c e =
     (case le_data e of Configuration c' \<Rightarrow> if snp < le_idx e \<and> le_idx e \<le> idx then c' else c | _ \<Rightarrow> c)"

definition conf_in_force :: "raft_log \<Rightarrow> index_t \<Rightarrow> configuration" where
  "conf_in_force l idx = foldl (replay_conf (log_snp_idx l) idx) (snp_config (log_snapshot l)) (log_entries l)"

lemma replay_conf_outside:
  "\<forall>e \<in> set es. le_idx e \<le> s \<or> idx < le_idx e \<Longrightarrow> foldl (replay_conf s idx) c es = c"
  by (induction es arbitrary: c) (auto simp: replay_conf_def split: entry_data.splits)

lemma replay_conf_cong:
  "\<forall>e \<in> set es. le_idx e < idx \<Longrightarrow> foldl (replay_conf s idx) c es = foldl (replay_conf s (idx - 1)) c es"
  by (induction es arbitrary: c) (auto simp: replay_conf_def split: entry_data.splits)

lemma conf_in_force_snapshot:
  assumes "idx \<le> log_snp_idx l"
  shows "conf_in_force l idx = snp_config (log_snapshot l)"
  using assms by (auto simp: conf_in_force_def intro!: replay_conf_outside)

lemma conf_in_force_step:
  assumes "log_wf l" "entry_at l idx = Some e" "log_snp_idx l < idx"
  shows "conf_in_force l idx = (case le_data e of Configuration c \<Rightarrow> c | _ \<Rightarrow> conf_in_force l (idx - 1))"
proof -
  define k where "k = idx - log_first_idx l"
  let ?es = "log_entries l"
  have k: "k < length ?es" "?es ! k = e" "idx = log_first_idx l + k" "le_idx e = idx"
    using assms(2) entry_at_idx[OF assms(1,2)]
    by (auto simp: entry_at_def deque_at_def k_def split: if_splits)
  have c: "consecutive (log_first_idx l) (take k ?es)" "consecutive (Suc idx) (drop (Suc k) ?es)"
    using assms(1) consecutive_take[of "log_first_idx l" ?es k] consecutive_drop[of "log_first_idx l" ?es "Suc k"] k(3)
    by (auto simp: log_wf_def)
  have es: "?es = take k ?es @ e # drop (Suc k) ?es" using id_take_nth_drop[OF k(1)] k(2) by simp
  have low: "le_idx x < idx" if "x \<in> set (take k ?es)" for x
    using consecutive_ge[OF c(1) that] k by simp
  have high: "idx < le_idx x" if "x \<in> set (drop (Suc k) ?es)" for x
    using consecutive_ge[OF c(2) that] by simp
  have split: "foldl (replay_conf s i) x ?es =
    foldl (replay_conf s i) (replay_conf s i (foldl (replay_conf s i) x (take k ?es)) e) (drop (Suc k) ?es)" for s i x
    by (subst es) simp
  have "foldl (replay_conf s i) x (drop (Suc k) ?es) = x" if "i \<le> idx" for s i x
    using high that by (intro replay_conf_outside) fastforce
  then show ?thesis
    unfolding conf_in_force_def split
    using replay_conf_cong[of "take k ?es" idx] low k(4) assms(3)
    by (auto simp: replay_conf_def split: entry_data.splits)
qed

lemma last_conf_loop_replay:
  assumes "log_wf l" "idx \<le> last_idx l"
  shows "last_conf_loop l idx = Inr (conf_in_force l idx)"
  using assms
proof (induction l idx rule: last_conf_loop.induct)
  case (1 l idx)
  show ?case
  proof (cases "log_snp_idx l < idx")
    case True
    then obtain e where e: "entry_at l idx = Some e"
      using entry_at_range[OF "1.prems"(1), of idx] "1.prems" by (auto simp: log_wf_def)
    then show ?thesis using True "1.IH"[of e] "1.prems" conf_in_force_step[OF "1.prems"(1) e True]
      by (auto simp: last_conf_loop.simps[of l idx] get_entry_eq split: entry_data.splits)
  qed (simp add: last_conf_loop.simps[of l idx] conf_in_force_snapshot)
qed

section \<open>The logs the program builds\<close>

definition loadable :: "snapshot_descriptor \<Rightarrow> log_entry list \<Rightarrow> bool" where
  "loadable snp es \<longleftrightarrow>
     (case es of [] \<Rightarrow> True | e # _ \<Rightarrow> 0 < le_idx e \<and> le_idx e \<le> snp_idx snp + 1 \<and>
        consecutive (le_idx e) es \<and> snp_idx snp < le_idx e + length es)"

text \<open>
  The logs of a server, together with an index \<open>c\<close> up to which the entries of its log are committed in the cluster.
  The protocol gives the log two things, neither of which \<open>log.cc\<close> checks: entries that are received never conflict with
  committed ones, and of the configuration entries of a log all but the last one are committed, since a leader does not
  change the configuration again before the previous change is committed.
\<close>

definition one_uncommitted :: "index_t \<Rightarrow> raft_log \<Rightarrow> bool" where
  "one_uncommitted c l \<longleftrightarrow> (\<forall>i \<in> conf_set l. \<forall>j \<in> conf_set l. i < j \<longrightarrow> i \<le> c)"

definition receivable :: "index_t \<Rightarrow> raft_log \<Rightarrow> log_entry list \<Rightarrow> bool" where
  "receivable c l es \<longleftrightarrow> es \<noteq> [] \<and> consecutive (le_idx (hd es)) es \<and> le_idx (hd es) \<le> next_idx l \<and>
     (\<forall>e \<in> set es. mismatch l e \<longrightarrow> c < le_idx e)"

inductive log_reachable :: "index_t \<Rightarrow> raft_log \<Rightarrow> bool" where
  load: "loadable snp es \<Longrightarrow> make_log sz snp es mcs = Inr l \<Longrightarrow> snp_idx snp \<le> c \<Longrightarrow> one_uncommitted c l \<Longrightarrow> log_reachable c l"
| commit: "log_reachable c l \<Longrightarrow> c \<le> c' \<Longrightarrow> log_reachable c' l"
| append: "log_reachable c l \<Longrightarrow> le_idx e = next_idx l \<Longrightarrow> one_uncommitted c (emplace_back l e) \<Longrightarrow> log_reachable c (emplace_back l e)"
| receive: "log_reachable c l \<Longrightarrow> receivable c l es \<Longrightarrow> maybe_append l es = Inr (n, l') \<Longrightarrow> one_uncommitted c l' \<Longrightarrow> log_reachable c l'"
| stable: "log_reachable c l \<Longrightarrow> stable_to l i = Inr l' \<Longrightarrow> log_reachable c l'"
| snapshot: "log_reachable c l \<Longrightarrow> log_apply_snapshot l snp me mb = Inr (rel, fi, l') \<Longrightarrow> log_reachable (max c (snp_idx snp)) l'"

text \<open>The invariant: the cached index of the last configuration is right, and while that one is not committed, so is the
  index of the one before it, to which a truncation may have to fall back.\<close>

definition open_exact :: "index_t \<Rightarrow> raft_log \<Rightarrow> bool" where
  "open_exact c l \<longleftrightarrow> conf_tracked l \<and> (c < log_last_conf_idx l \<longrightarrow> conf_exact l)"

lemma open_exact_emplace_back:
  assumes "log_wf l" "le_idx e = next_idx l" "open_exact c l"
  shows "open_exact c (emplace_back l e)"
  using assms conf_exact_emplace_back_conf[OF assms(1,2)] conf_emplace_back_other[OF assms(1,2)]
    conf_tracked_emplace_back[OF assms(1,2)] conf_indexes_emplace_back[of l e]
  by (cases "is_conf e") (auto simp: open_exact_def)

lemma open_exact_append_all:
  "log_wf l \<Longrightarrow> consecutive (next_idx l) es \<Longrightarrow> open_exact c l \<Longrightarrow> open_exact c (append_all l es)"
proof (induction es arbitrary: l)
  case (Cons e es)
  then have e: "le_idx e = next_idx l" "consecutive (next_idx (emplace_back l e)) es"
    by (auto simp: next_idx_def log_wf_def)
  show ?case using Cons.IH[OF log_wf_emplace_back[OF Cons.prems(1) e(1)] e(2)] open_exact_emplace_back[OF Cons.prems(1) e(1) Cons.prems(3)]
    by simp
qed simp

lemma uncommitted_truncation_safe:
  assumes "open_exact c l" "one_uncommitted c l" "c < i"
  shows "truncation_safe l i"
proof (cases "i \<le> log_last_conf_idx l")
  case True
  then have "conf_exact l" "log_last_conf_idx l \<in> conf_set l" "\<forall>j \<in> conf_set l. j \<le> log_last_conf_idx l"
    using assms(1,3) greatest_mem greatest_ge by (fastforce simp: open_exact_def conf_tracked_def)+
  then have "j \<le> c" if "j \<in> conf_set l - {log_last_conf_idx l}" for j
    using assms(2) that by (force simp: one_uncommitted_def)
  then show ?thesis using \<open>conf_exact l\<close> assms(3) by (fastforce simp: truncation_safe_def)
next
  case False
  then show ?thesis using assms(1) greatest_ge by (fastforce simp: truncation_safe_def open_exact_def conf_tracked_def)
qed

lemma open_exact_truncate:
  assumes "log_wf l" "open_exact c l" "one_uncommitted c l" "log_snp_idx l \<le> c" "c < i" "truncate_uncommitted l i = Inr l'"
  shows "open_exact c l'"
proof -
  have t: "conf_tracked l'"
    using conf_tracked_truncate_uncommitted[OF assms(1,6) _ uncommitted_truncation_safe[OF assms(2,3,5)]] assms(2,4,5)
    by (simp add: open_exact_def)
  have cs: "conf_set l' = {j \<in> conf_set l. j < i}" by (rule conf_set_truncate_uncommitted[OF assms(1,6)])
  show ?thesis
  proof (cases "\<exists>j \<in> conf_set l. i \<le> j")
    case True
    then obtain j where j: "j \<in> conf_set l" "i \<le> j" by blast
    then have "k \<le> c" if "k \<in> conf_set l'" for k using that assms(3) by (force simp: cs one_uncommitted_def)
    then have "log_last_conf_idx l' \<le> c" using t greatest_mem[of "conf_set l'"] by (cases "log_last_conf_idx l' = 0") (auto simp: conf_tracked_def)
    then show ?thesis using t by (simp add: open_exact_def)
  next
    case False
    then have same: "conf_set l' = conf_set l" by (auto simp: cs)
    have g: "log_last_conf_idx l < i" using False assms(2,5) greatest_mem[of "conf_set l"] by (cases "log_last_conf_idx l = 0") (auto simp: open_exact_def conf_tracked_def not_le)
    have "last_idx (l\<lparr>log_entries := take (i - log_first_idx l) (log_entries l)\<rparr>) = i - 1"
      using truncate_uncommitted_fields(4)[OF assms(1,6)] truncate_uncommitted_Inr(3)[OF assms(6)] by simp
    then have "log_last_conf_idx l' = log_last_conf_idx l" "log_prev_conf_idx l' = log_prev_conf_idx l"
      using g by (auto simp: truncate_uncommitted_Inr(3)[OF assms(6)])
    then show ?thesis using assms(2) t same by (simp add: open_exact_def conf_exact_def)
  qed
qed

lemma receive_total:
  assumes "log_wf l" "open_exact c l" "one_uncommitted c l" "log_snp_idx l \<le> c" "receivable c l es"
  shows "\<exists>n l'. maybe_append l es = Inr (n, l') \<and> log_wf l' \<and> log_snapshot l' = log_snapshot l \<and> open_exact c l'"
proof (cases "\<exists>e\<in>set es. mismatch l e")
  case False
  have r: "es \<noteq> []" "consecutive (le_idx (hd es)) es" "le_idx (hd es) \<le> next_idx l" using assms(5) by (auto simp: receivable_def)
  let ?d = "drop (next_idx l - le_idx (hd es)) es"
  have "maybe_append_loop l es = Inr (append_all l ?d)" by (rule maybe_append_loop_match[OF assms(1) r(2,3)]) (use False in blast)
  moreover have "consecutive (next_idx l) ?d"
    using consecutive_drop[OF r(2), of "next_idx l - le_idx (hd es)"] r(3) by (cases "?d = []") auto
  ultimately show ?thesis
    using append_all_wf[OF assms(1)] open_exact_append_all[OF assms(1) _ assms(2)] r(1) by (auto simp: maybe_append_def)
next
  case True
  then obtain xs e ys where es: "es = xs @ e # ys" "\<forall>x \<in> set xs. \<not> mismatch l x" "mismatch l e"
    by (rule first_mismatch)
  have r: "consecutive (le_idx (hd es)) (xs @ e # ys)" "c < le_idx e" "log_snp_idx l < le_idx e"
    using assms(4,5) es by (auto simp: receivable_def)
  have "entry_at l (le_idx e) \<noteq> None" using es(3) by (auto simp: mismatch_def split: option.splits)
  then have "le_idx e \<le> next_idx l" using entry_at_range[OF assms(1), of "le_idx e"] by (auto simp: next_idx_def)
  then obtain l1 where l1: "truncate_uncommitted l (le_idx e) = Inr l1"
    using truncate_uncommitted_total[OF assms(1) _ r(3)] assms(2) by (auto simp: open_exact_def)
  note f = truncate_uncommitted_fields[OF assms(1) l1]
  have wf1: "log_wf l1" by (rule log_wf_truncate_uncommitted[OF assms(1) l1 r(3)])
  have n1: "next_idx l1 = le_idx e" using f(4) r(3) by (simp add: next_idx_def)
  then have c: "consecutive (next_idx l1) (e # ys)" using r(1) consecutive_mid[OF r(1)] by simp
  have "maybe_append_loop l es = Inr (append_all l1 (e # ys))"
    unfolding es(1) by (rule maybe_append_loop_conflict[OF assms(1) r(1) es(2,3) r(3) l1])
  then show ?thesis
    using append_all_wf[OF wf1 c] open_exact_append_all[OF wf1 c open_exact_truncate[OF assms(1-4) r(2) l1]] f es(1)
    by (auto simp: maybe_append_def)
qed

lemma conf_stable_to:
  assumes "stable_to l i = Inr l'"
  shows "conf_set l' = conf_set l" "log_last_conf_idx l' = log_last_conf_idx l" "log_prev_conf_idx l' = log_prev_conf_idx l"
  using assms by (auto simp: stable_to_Inr conf_set_def conf_at_def entry_at_def)

lemma log_reachable_inv: "log_reachable c l \<Longrightarrow> log_wf l \<and> log_snp_idx l \<le> c \<and> open_exact c l \<and> one_uncommitted c l"
proof (induction rule: log_reachable.induct)
  case (load snp es sz mcs l c)
  then show ?case using make_log_ok[where es = es and snp = snp and sz = sz and mcs = mcs] conf_exact_tracked
    by (auto simp: loadable_def open_exact_def)
next
  case (commit c l c')
  then show ?case by (fastforce simp: open_exact_def one_uncommitted_def)
next
  case (append c l e)
  then show ?case using log_wf_emplace_back open_exact_emplace_back by auto
next
  case (receive c l es n l')
  then show ?case using receive_total[of l c es] by auto
next
  case (stable c l i l')
  then show ?case using log_wf_stable_to[of l i l'] conf_stable_to[of l i l']
    by (auto simp: stable_to_Inr open_exact_def conf_tracked_def conf_exact_def one_uncommitted_def)
next
  case (snapshot c l snp me mb rel fi l')
  then have s: "log_snp_idx l < snp_idx snp" by (auto simp: log_apply_snapshot_def assertE_def split: if_splits)
  have ih: "log_wf l" "open_exact c l" "one_uncommitted c l" using snapshot.IH by auto
  note f = log_wf_apply_snapshot[OF ih(1) s snapshot.hyps(2)] and cs = conf_set_apply_snapshot[OF ih(1) s snapshot.hyps(2)]
    and ce = conf_apply_snapshot[OF ih(1) s snapshot.hyps(2)]
  have t: "conf_tracked l'" using ce(1) ih(2) by (simp add: open_exact_def)
  have "conf_exact l'" if c: "c < log_last_conf_idx l'"
  proof -
    have "log_last_conf_idx l' \<in> conf_set l" using t c greatest_mem[of "conf_set l'" "log_last_conf_idx l'"] by (simp add: conf_tracked_def cs)
    moreover have "greatest (conf_set l) (log_last_conf_idx l)" using ih(2) by (simp add: open_exact_def conf_tracked_def)
    ultimately have "c < log_last_conf_idx l" using greatest_ge c by (meson less_le_trans)
    then show ?thesis using ih(2) ce(2) by (simp add: open_exact_def)
  qed
  then have "open_exact (max c (snp_idx snp)) l'" using t by (simp add: open_exact_def)
  moreover have "one_uncommitted (max c (snp_idx snp)) l'" using ih(3) by (auto simp: one_uncommitted_def cs)
  ultimately show ?case using f by simp
qed

section \<open>Examples\<close>

definition ex_entry :: "term_t \<Rightarrow> index_t \<Rightarrow> log_entry" where
  "ex_entry t i = \<lparr>le_term = t, le_idx = i, le_data = Command [0]\<rparr>"

definition ex_snapshot :: "index_t \<Rightarrow> snapshot_descriptor" where
  "ex_snapshot i = \<lparr>snp_idx = i, snp_term = 1, snp_config = ex_conf, snp_id = 1\<rparr>"

definition ex_log :: "log_entry list \<Rightarrow> raft_log" where
  "ex_log es = \<lparr>log_snapshot = (ex_snapshot 0)\<lparr>snp_term := 0\<rparr>,
     log_entries = es, log_max_command_size = 100, log_first_idx = 1, log_stable_idx = 0,
     log_last_conf_idx = 0, log_prev_conf_idx = 0, log_memory_usage = 25 * length es,
     log_sizeof_entry = 24\<rparr>"

lemma ex_log_simps:
  "consecutive 1 es \<Longrightarrow> \<forall>e\<in>set es. le_data e = Command [0] \<Longrightarrow> log_wf (ex_log es)"
  "\<forall>e\<in>set es. le_data e = Command [0] \<Longrightarrow> conf_exact (ex_log es)"
  "le_term (ex_entry t i) = t" "le_idx (ex_entry t i) = i" "le_data (ex_entry t i) = Command [0]"
  "log_snp_idx (ex_log es) = 0" "log_entries (ex_log es) = es" "log_first_idx (ex_log es) = 1"
  "last_idx (ex_log es) = length es" "snp_term (log_snapshot (ex_log es)) = 0"
  "entry_at (ex_log es) i = (if 1 \<le> i \<and> i \<le> length es then Some (es ! (i - 1)) else None)"
proof -
  assume "\<forall>e\<in>set es. le_data e = Command [0]"
  then show "conf_exact (ex_log es)"
    by (intro conf_exact_no_conf) (auto simp: ex_log_def is_conf_def)
next
  assume "consecutive 1 es" and d: "\<forall>e\<in>set es. le_data e = Command [0]"
  have "usage_sum (ex_log es) es = 25 * length es"
    using d by (induction es) (auto simp: usage_sum_def entry_usage_def memory_usage_of_def ex_log_def)
  then show "log_wf (ex_log es)" using \<open>consecutive 1 es\<close>
    by (simp add: log_wf_def ex_log_def ex_snapshot_def last_idx_def)
qed (auto simp: ex_log_def ex_snapshot_def ex_entry_def entry_at_def deque_at_def last_idx_def)

definition ex_other_conf :: configuration where
  "ex_other_conf = \<lparr>conf_current = [ex_member 7 True], conf_previous = []\<rparr>"

definition ex_conf_entry :: "index_t \<Rightarrow> log_entry" where
  "ex_conf_entry i = \<lparr>le_term = 1, le_idx = i, le_data = Configuration ex_other_conf\<rparr>"

text \<open>A log with configuration entries at 3, 5 and 7, as \<open>log\<close>'s constructor loads it.\<close>

definition ex_conf_log :: raft_log where
  "ex_conf_log = (ex_log [])\<lparr>log_entries := [ex_entry 1 1, ex_entry 1 2, ex_conf_entry 3, ex_entry 1 4,
     ex_conf_entry 5, ex_entry 1 6, ex_conf_entry 7],
     log_last_conf_idx := 7, log_prev_conf_idx := 5, log_memory_usage := 100\<rparr>"

section \<open>Properties\<close>

text \<open>C7: Every log a server builds (loaded from the store, appended to, given a leader's entries, marked stable, or cut by a
  snapshot) has its indexes contiguous, its memory counter equal to the sum of its entries' sizes, and a configuration
  index that finds the configuration in force at its last index: \<open>get_configuration\<close> never fails and equals the replay of
  the whole log. While a configuration entry is uncommitted, \<open>last_conf_for\<close> is right at every index, too, and taking a
  leader's entries never fails. The protocol has to provide that received entries do not conflict with committed ones
  and that all configuration entries of a log but the last are committed.\<close>

theorem reachable_log_configuration:
  assumes "log_reachable c l"
  shows "log_wf l \<and> get_configuration l = Inr (conf_in_force l (last_idx l)) \<and>
    (\<forall>i. c < log_last_conf_idx l \<and> log_snp_idx l \<le> i \<and> i \<le> last_idx l \<longrightarrow> last_conf_for l i = Inr (conf_in_force l i)) \<and>
    (\<forall>es. receivable c l es \<longrightarrow> (\<exists>n l'. maybe_append l es = Inr (n, l')))"
proof -
  note inv = log_reachable_inv[OF assms]
  have "get_configuration l = Inr (conf_in_force l (last_idx l))"
    using inv get_configuration_scan last_conf_loop_replay by (simp add: open_exact_def)
  moreover have "last_conf_for l i = Inr (conf_in_force l i)" if "c < log_last_conf_idx l" "log_snp_idx l \<le> i" "i \<le> last_idx l" for i
    using inv that last_conf_for_scan[of l i] last_conf_loop_replay[of l i] by (simp add: open_exact_def)
  moreover have "\<exists>n l'. maybe_append l es = Inr (n, l')" if "receivable c l es" for es
    using inv receive_total[of l c es] that by blast
  ultimately show ?thesis using inv by blast
qed

text \<open>A follower loses an uncommitted configuration entry to a new leader and gets another one.\<close>

lemma reachable_log_configuration_witness:
  "\<exists>l n l'. make_log 24 (ex_snapshot 0) [ex_entry 1 1, ex_conf_entry 2] 100 = Inr l \<and> log_reachable 1 l \<and>
     get_configuration l = Inr ex_other_conf \<and> maybe_append l [ex_entry 2 2] = Inr (n, l') \<and> log_reachable 1 l' \<and>
     get_configuration l' = Inr ex_conf"
proof -
  let ?es = "[ex_entry 1 1, ex_conf_entry 2]"
  have ld: "loadable (ex_snapshot 0) ?es" by (simp add: loadable_def ex_conf_entry_def ex_snapshot_def ex_entry_def)
  then obtain l where l: "make_log 24 (ex_snapshot 0) ?es 100 = Inr l" "log_entries l = ?es" "log_snapshot l = ex_snapshot 0" "log_wf l"
    using make_log_ok[where es = ?es and snp = "ex_snapshot 0" and sz = 24 and mcs = 100] unfolding loadable_def by blast
  have fi: "log_first_idx l = 1" "last_idx l = 2" using l by (simp_all add: log_wf_def ex_entry_def last_idx_def)
  have "conf_set l = {2}"
    unfolding conf_set_eq_image[OF l(4)] by (auto simp: fi l(2,3) ex_snapshot_def ex_entry_def ex_conf_entry_def is_conf_def)
  then have r: "log_reachable 1 l"
    by (intro load[OF ld l(1)]) (simp_all add: ex_snapshot_def one_uncommitted_def)
  have mm: "mismatch l (ex_entry 2 2)"
    by (simp add: mismatch_def entry_at_def deque_at_def fi l(2) ex_entry_def ex_conf_entry_def)
  then have rc: "receivable 1 l [ex_entry 2 2]" by (simp add: receivable_def ex_entry_def next_idx_def fi)
  have ct: "conf_tracked l" "log_snp_idx l < le_idx (ex_entry 2 2)"
    using log_reachable_inv[OF r] l(3) by (simp_all add: open_exact_def ex_snapshot_def ex_entry_def)
  have e2: "consecutive 2 ([] @ ex_entry 2 2 # [])" "le_idx (ex_entry 2 2) = 2" by (simp_all add: ex_entry_def)
  obtain l' where m: "maybe_append l ([] @ ex_entry 2 2 # []) = Inr (2 + length [] + length [], l')" "log_wf l'"
    "log_snapshot l' = log_snapshot l" "log_first_idx l' = log_first_idx l" "last_idx l' = 2 + length [] + length []"
    "\<And>i. entry_at l' i = (if i < le_idx (ex_entry 2 2) then entry_at l i
      else if i \<le> 2 + length [] + length [] then Some ((ex_entry 2 2 # []) ! (i - le_idx (ex_entry 2 2))) else None)"
    by (rule maybe_append_conflict[OF l(4) ct(1) e2(1) _ mm ct(2)]) simp_all
  have l': "maybe_append l [ex_entry 2 2] = Inr (2, l')" "log_wf l'" "log_snapshot l' = ex_snapshot 0" "log_first_idx l' = 1" "last_idx l' = 2"
    using m(1-5) l(3) fi by simp_all
  have l6: "entry_at l' i = (if i < 2 then entry_at l i else if i \<le> 2 then Some (ex_entry 2 2) else None)" for i
    using m(6)[of i] by (auto simp: e2(2))
  have e: "log_entries l' = [ex_entry 1 1, ex_entry 2 2]"
  proof (rule nth_equalityI)
    show len: "length (log_entries l') = length [ex_entry 1 1, ex_entry 2 2]" using l'(4,5) by (simp add: last_idx_def)
    have "entry_at l' 1 = Some (ex_entry 1 1)" "entry_at l' 2 = Some (ex_entry 2 2)"
      by (simp_all add: l6) (simp add: entry_at_def deque_at_def fi l(2))
    then show "log_entries l' ! k = [ex_entry 1 1, ex_entry 2 2] ! k" if "k < length (log_entries l')" for k
      using that len l'(4) by (cases k) (auto simp: entry_at_def deque_at_def less_Suc_eq split: if_splits)
  qed
  have "conf_set l' = {}" unfolding conf_set_eq_image[OF l'(2)] by (auto simp: l'(3,4) e ex_snapshot_def ex_entry_def is_conf_def)
  then have r': "log_reachable 1 l'" by (intro receive[OF r rc l'(1)]) (simp add: one_uncommitted_def)
  have "conf_in_force l 2 = ex_other_conf" "conf_in_force l' 2 = ex_conf"
    using l(2,3) e l'(3) by (simp_all add: conf_in_force_def replay_conf_def ex_snapshot_def ex_entry_def ex_conf_entry_def)
  then show ?thesis
    using l(1) l'(1) r r' reachable_log_configuration[OF r] reachable_log_configuration[OF r'] fi l'(5) by auto
qed

text \<open>C8: While both configuration indexes are exact, \<open>last_conf_for idx\<close> answers every index from the
  snapshot to the end of the log with the configuration in force there, whichever of its five branches
  answers.\<close>

theorem last_conf_for_correct:
  assumes "log_wf l" "conf_exact l" "log_snp_idx l \<le> idx" "idx \<le> last_idx l"
  shows "last_conf_for l idx = Inr (conf_in_force l idx)"
  using last_conf_for_scan[OF assms] last_conf_loop_replay[OF assms(1,4)] by simp

lemmas ex_conf_log_simps = ex_conf_log_def ex_log_def ex_snapshot_def ex_entry_def ex_conf_entry_def is_conf_def

lemma ex_conf_log_exact: "log_wf ex_conf_log" "conf_exact ex_conf_log" "last_idx ex_conf_log = 7"
proof -
  show wf: "log_wf ex_conf_log"
    by (simp add: log_wf_def ex_conf_log_simps last_idx_def usage_sum_def entry_usage_def memory_usage_of_def)
  have "conf_set ex_conf_log = {3, 5, 7}"
    using conf_set_eq_image[of ex_conf_log] wf by (auto simp: ex_conf_log_simps)
  then show "conf_exact ex_conf_log"
    by (simp add: conf_exact_def greatest_def) (auto simp: ex_conf_log_def)
  show "last_idx ex_conf_log = 7" by (simp add: last_idx_def ex_conf_log_simps)
qed

lemma last_conf_for_correct_witness: "last_conf_for ex_conf_log 4 = Inr (conf_in_force ex_conf_log 4)"
  by (rule last_conf_for_correct) (simp_all add: ex_conf_log_exact, simp add: ex_conf_log_simps)


lemma apply_snapshot_limits:
  assumes "log_wf l" "log_snp_idx l < snp_idx snp" "log_apply_snapshot l snp me mb = Inr (r, fi, l')"
  defines "kept \<equiv> take (Suc (snp_idx snp) - log_first_idx l') (log_entries l')"
  shows "usage_sum l kept \<le> mb"
    and "\<forall>e. snp_idx snp \<le> last_idx l \<and> entry_at l (log_first_idx l' - 1) = Some e \<longrightarrow>
       Suc (snp_idx snp) - log_first_idx l' = me \<or> mb < entry_usage l e + usage_sum l kept"
proof (atomize (full), cases "snp_idx snp \<le> last_idx l")
  case True
  define n where "n = snapshot_cut l (snp_idx snp) me mb"
  let ?m = "Suc (snp_idx snp) - log_first_idx l"
  have l': "log_entries l' = drop n (log_entries l)" "log_first_idx l' = log_first_idx l + n"
    using assms(3) True by (simp_all add: log_apply_snapshot_eq[OF assms(2)] n_def) auto
  note bounds = snapshot_cut_bounds[OF assms(1,2) True]
  note b = bounds(1)[of me mb, folded n_def] bounds(2) bounds(4)[of me mb, folded n_def]
    bounds(5)[of me mb, folded n_def]
  have kept: "kept = drop n (take ?m (log_entries l))"
    by (simp add: kept_def l' drop_take)
  have "Suc (snp_idx snp) - log_first_idx l' = me \<or> mb < entry_usage l e + usage_sum l kept"
    if "entry_at l (log_first_idx l' - 1) = Some e" for e
  proof -
    have n: "0 < n" "n - 1 < length (log_entries l)" "log_entries l ! (n - 1) = e"
      using that assms(1) by (auto simp: l' entry_at_def deque_at_def log_wf_def split: if_splits)
    then have "n - 1 < length (take ?m (log_entries l))" using b(1,2) by simp
    then have "drop (n - 1) (take ?m (log_entries l)) = e # kept"
      using Cons_nth_drop_Suc[of "n - 1" "take ?m (log_entries l)"] n kept by simp
    then show ?thesis using b(4) n(1) by (simp add: l' usage_sum_def)
  qed
  then show "usage_sum l kept \<le> mb \<and> (\<forall>e. snp_idx snp \<le> last_idx l \<and> entry_at l (log_first_idx l' - 1) = Some e \<longrightarrow>
       Suc (snp_idx snp) - log_first_idx l' = me \<or> mb < entry_usage l e + usage_sum l kept)"
    using b(3) kept by simp
next
  case False
  then have "log_entries l' = []" using assms(3) by (simp add: log_apply_snapshot_eq[OF assms(2)]) auto
  then show "usage_sum l kept \<le> mb \<and> (\<forall>e. snp_idx snp \<le> last_idx l \<and> entry_at l (log_first_idx l' - 1) = Some e \<longrightarrow>
       Suc (snp_idx snp) - log_first_idx l' = me \<or> mb < entry_usage l e + usage_sum l kept)"
    using False by (simp add: kept_def usage_sum_def)
qed

text \<open>C10: Taking a snapshot. If the new snapshot is newer than the old one, \<open>apply_snapshot\<close> succeeds and
  keeps the log well formed; every entry after the snapshot stays; at most \<open>max_trailing_entries\<close> entries
  of at most \<open>max_trailing_bytes\<close> stay before it, and dropping one more entry was needed only because a
  limit would have been passed; the memory counter falls by exactly the returned amount; nothing that
  was stable becomes unstable.\<close>

theorem apply_snapshot_correct:
  assumes "log_wf l" "log_snp_idx l < snp_idx snp" "conf_tracked l"
  shows "\<exists>released l'. log_apply_snapshot l snp me mb = Inr (released, log_first_idx l', l') \<and> log_wf l' \<and>
    conf_tracked l' \<and> log_snapshot l' = snp \<and> last_idx l' = max (snp_idx snp) (last_idx l) \<and>
    (\<forall>i > snp_idx snp. entry_at l' i = entry_at l i) \<and>
    Suc (snp_idx snp) - log_first_idx l' \<le> me \<and>
    usage_sum l (take (Suc (snp_idx snp) - log_first_idx l') (log_entries l')) \<le> mb \<and>
    (\<forall>e. snp_idx snp \<le> last_idx l \<and> entry_at l (log_first_idx l' - 1) = Some e \<longrightarrow>
       Suc (snp_idx snp) - log_first_idx l' = me \<or>
       mb < entry_usage l e + usage_sum l (take (Suc (snp_idx snp) - log_first_idx l') (log_entries l'))) \<and>
    log_memory_usage l' + released = log_memory_usage l \<and>
    log_stable_idx l' = max (snp_idx snp) (log_stable_idx l)"
proof -
  obtain r fi l' where l': "log_apply_snapshot l snp me mb = Inr (r, fi, l')"
    using log_apply_snapshot_eq[OF assms(2)] by blast
  note p = log_wf_apply_snapshot[OF assms(1,2) l']
  show ?thesis
    using l' p conf_apply_snapshot(1)[OF assms(1,2) l' assms(3)] entry_at_apply_snapshot[OF assms(1,2) l']
      apply_snapshot_limits[OF assms(1,2) l'] by blast
qed

lemma apply_snapshot_correct_witness:
  "\<exists>released l'. log_apply_snapshot (ex_log [ex_entry 1 1, ex_entry 1 2]) (ex_snapshot 2) 1 60 =
      Inr (released, log_first_idx l', l') \<and> log_wf l' \<and>
    conf_tracked l' \<and> log_snapshot l' = ex_snapshot 2 \<and>
    last_idx l' = max (snp_idx (ex_snapshot 2)) (last_idx (ex_log [ex_entry 1 1, ex_entry 1 2]))"
  using apply_snapshot_correct[of "ex_log [ex_entry 1 1, ex_entry 1 2]" "ex_snapshot 2" 1 60]
  by (auto simp: ex_log_simps conf_exact_tracked ex_snapshot_def)

text \<open>C11: Loading. The constructor accepts every persisted suffix that starts no later than right after
  the snapshot and reaches it, takes it as is and as stable, and finds both configuration indexes:
  afterwards \<open>last_conf_for\<close> answers every index as the replay does.\<close>

theorem load_log_correct:
  assumes "loadable snp es"
  shows "\<exists>l. make_log sz snp es mcs = Inr l \<and> log_wf l \<and> conf_exact l \<and> log_entries l = es \<and>
     log_snapshot l = snp \<and> log_stable_idx l = last_idx l \<and>
     (\<forall>i. snp_idx snp \<le> i \<and> i \<le> last_idx l \<longrightarrow> last_conf_for l i = Inr (conf_in_force l i))"
  using make_log_ok[where es = es and snp = snp and sz = sz and mcs = mcs] assms
    last_conf_for_scan last_conf_loop_replay
  unfolding loadable_def by metis

lemma load_log_correct_witness:
  "\<exists>l. make_log 24 (ex_snapshot 2) [ex_entry 1 1, ex_conf_entry 2, ex_entry 1 3] 100 = Inr l \<and> log_wf l \<and>
     log_entries l = [ex_entry 1 1, ex_conf_entry 2, ex_entry 1 3] \<and> log_stable_idx l = last_idx l"
  using load_log_correct[of "ex_snapshot 2" "[ex_entry 1 1, ex_conf_entry 2, ex_entry 1 3]" 24 100]
  by (auto simp: loadable_def ex_entry_def ex_conf_entry_def ex_snapshot_def)

end
