(* ===== verification/Raft_Log_Matching.thy ===== *)
theory Raft_Log_Matching
  imports Raft_Log_Spec
begin

text \<open>
  Two logs: the leader that sends a slice of its log and the follower that checks the entry before
  the slice with \<open>match_term\<close> and stores the slice with \<open>maybe_append\<close> (\<open>src/raft/log.cc\<close>). The theory
  shows that the pair of operations keeps the log matching property of section 5.3 of the Raft paper,
  which the comments of \<open>match_term\<close> and \<open>maybe_append\<close> rely on, and that \<open>is_up_to_date\<close> compares logs
  the way the election restriction needs.
\<close>

section \<open>Log matching\<close>

definition log_matching :: "raft_log \<Rightarrow> raft_log \<Rightarrow> bool" where
  "log_matching A F \<longleftrightarrow> (\<forall>i a f. entry_at A i = Some a \<and> entry_at F i = Some f \<and> le_term a = le_term f \<longrightarrow>
     (\<forall>j a' f'. j \<le> i \<and> entry_at A j = Some a' \<and> entry_at F j = Some f' \<longrightarrow> a' = f'))"

definition snapshot_consistent :: "raft_log \<Rightarrow> bool" where
  "snapshot_consistent l \<longleftrightarrow>
     (case entry_at l (log_snp_idx l) of None \<Rightarrow> True | Some e \<Rightarrow> le_term e = snp_term (log_snapshot l))"

definition slice_of :: "raft_log \<Rightarrow> index_t \<Rightarrow> log_entry list \<Rightarrow> bool" where
  "slice_of l n es \<longleftrightarrow> (\<forall>k < length es. entry_at l (n + k) = Some (es ! k))"

text \<open>Every leader has the entries that a snapshot of another server covers, since they are committed.\<close>

definition shares_snapshot :: "raft_log \<Rightarrow> raft_log \<Rightarrow> bool" where
  "shares_snapshot L F \<longleftrightarrow> (\<forall>j a f. j \<le> log_snp_idx F \<and> entry_at L j = Some a \<and> entry_at F j = Some f \<longrightarrow> a = f)"

lemma log_matchingD:
  assumes "log_matching A F" "entry_at A i = Some a" "entry_at F i = Some f" "le_term a = le_term f"
    "j \<le> i" "entry_at A j = Some a'" "entry_at F j = Some f'"
  shows "a' = f'"
  using assms unfolding log_matching_def by blast

lemma slice_of_consecutive: "log_wf l \<Longrightarrow> slice_of l n es \<Longrightarrow> consecutive n es"
  by (auto simp: slice_of_def consecutive_def dest: entry_at_idx)

lemma slice_of_entry:
  assumes "log_wf l" "slice_of l n es" "e \<in> set es"
  shows "entry_at l (le_idx e) = Some e"
  using assms by (auto simp: slice_of_def in_set_conv_nth dest: entry_at_idx)

lemma match_term_entry:
  assumes "log_wf F" "snapshot_consistent F" "match_term F prev pt = (True, t)" "log_snp_idx F \<le> prev"
    "j \<le> prev" "entry_at F j \<noteq> None"
  shows "\<exists>f. entry_at F prev = Some f \<and> le_term f = pt"
proof -
  have r: "log_first_idx F \<le> j" "j \<le> last_idx F" "0 < log_first_idx F" "log_snp_idx F \<le> last_idx F"
    using entry_at_range[OF assms(1), of j] assms(1,6) by (auto simp: log_wf_def)
  show ?thesis
  proof (cases "prev = log_snp_idx F")
    case True
    then obtain f where "entry_at F prev = Some f"
      using entry_at_range[OF assms(1), of prev] r assms(5) by auto
    moreover have "snp_term (log_snapshot F) = pt"
      using True assms(3,5) r by (auto simp: match_term_def split: if_splits)
    ultimately show ?thesis using True assms(2) by (simp add: snapshot_consistent_def)
  next
    case False
    then show ?thesis using assms(3-5) r
      by (auto simp: match_term_def entry_at_def split: if_splits option.splits)
  qed
qed

lemma match_term_no_gap:
  assumes "log_wf F" "match_term F prev pt = (True, t)" "log_snp_idx F \<le> prev"
  shows "Suc prev \<le> next_idx F"
proof -
  have "prev \<le> last_idx F" if "entry_at F prev = Some f" for f
    using that entry_at_range[OF assms(1), of prev] by auto
  then show ?thesis using assms
    by (auto simp: match_term_def next_idx_def log_wf_def entry_at_def split: if_splits option.splits)
qed

lemma term_for_entry:
  assumes "log_wf L" "term_for L prev = Inr (Some pt)" "entry_at L j = Some a" "j \<le> prev"
  shows "\<exists>a'. entry_at L prev = Some a' \<and> le_term a' = pt"
proof -
  have "log_first_idx L \<le> j" "log_entries L \<noteq> []"
    using assms(3) entry_at_range[OF assms(1), of j] by (auto simp: entry_at_def deque_at_def split: if_splits)
  then show ?thesis using assms(2,4) by (auto simp: term_for_def get_entry_eq split: option.splits)
qed

lemma agree_below_prev:
  assumes "log_wf L" "log_wf F" "snapshot_consistent F" "log_matching L F" "log_snp_idx F \<le> prev"
    "term_for L prev = Inr (Some pt)" "match_term F prev pt = (True, t)"
    "j \<le> prev" "entry_at L j = Some a" "entry_at F j = Some f"
  shows "a = f"
proof -
  obtain a' where a': "entry_at L prev = Some a'" "le_term a' = pt"
    using term_for_entry[OF assms(1,6,9,8)] by blast
  obtain f' where "entry_at F prev = Some f'" "le_term f' = pt"
    using match_term_entry[OF assms(2,3,7,5,8)] assms(10) by auto
  then show ?thesis using log_matchingD[OF assms(4) a'(1), of f' j a f] a'(2) assms(8-10) by simp
qed

text \<open>
  The two outcomes of \<open>maybe_append\<close> seen from the leader's log: either the stored suffix is the
  leader's slice up to the end of the follower's log, or nothing was removed.
\<close>

definition append_outcome :: "raft_log \<Rightarrow> index_t \<Rightarrow> log_entry list \<Rightarrow> raft_log \<Rightarrow> bool" where
  "append_outcome F n es F' \<longleftrightarrow>
     (\<forall>i. i < n \<longrightarrow> entry_at F' i = entry_at F i) \<and>
     (\<forall>i. n \<le> i \<and> log_first_idx F \<le> i \<and> i < n + length es \<longrightarrow>
        entry_at F' i = Some (es ! (i - n)) \<or>
        (\<exists>f. entry_at F' i = Some f \<and> entry_at F i = Some f \<and> le_term f = le_term (es ! (i - n)))) \<and>
     (if \<exists>e\<in>set es. mismatch F e then \<forall>i. n + length es \<le> i \<longrightarrow> entry_at F' i = None
      else \<forall>i. entry_at F i \<noteq> None \<or> n + length es \<le> i \<longrightarrow> entry_at F' i = entry_at F i)"

lemma append_outcomeD:
  assumes "append_outcome F n es F'"
  shows "i < n \<Longrightarrow> entry_at F' i = entry_at F i"
    and "n \<le> i \<Longrightarrow> log_first_idx F \<le> i \<Longrightarrow> i < n + length es \<Longrightarrow>
        entry_at F' i = Some (es ! (i - n)) \<or>
        (\<exists>f. entry_at F' i = Some f \<and> entry_at F i = Some f \<and> le_term f = le_term (es ! (i - n)))"
    and "\<exists>e\<in>set es. mismatch F e \<Longrightarrow> n + length es \<le> i \<Longrightarrow> entry_at F' i = None"
    and "\<not> (\<exists>e\<in>set es. mismatch F e) \<Longrightarrow> entry_at F i \<noteq> None \<or> n + length es \<le> i \<Longrightarrow> entry_at F' i = entry_at F i"
  using assms unfolding append_outcome_def by (blast, blast, simp, auto)

lemma maybe_append_outcome:
  assumes "log_wf F" "conf_tracked F" "es \<noteq> []" "consecutive n es" "n \<le> next_idx F"
    "\<forall>e \<in> set es. mismatch F e \<longrightarrow> log_snp_idx F < le_idx e"
  shows "\<exists>F'. maybe_append F es = Inr (n + length es - 1, F') \<and> log_wf F' \<and> append_outcome F n es F' \<and>
    log_snapshot F' = log_snapshot F \<and> log_first_idx F' = log_first_idx F \<and>
    last_idx F' = (if \<exists>e\<in>set es. mismatch F e then n + length es - 1
                   else max (last_idx F) (n + length es - 1))"
proof (cases "\<exists>e\<in>set es. mismatch F e")
  case False
  obtain F' where F': "maybe_append F es = Inr (n + length es - 1, F')" "log_wf F'"
    "log_snapshot F' = log_snapshot F" "log_first_idx F' = log_first_idx F"
    "last_idx F' = max (last_idx F) (n + length es - 1)"
    and e: "\<And>i. entry_at F' i = (if next_idx F \<le> i \<and> i < n + length es then Some (es ! (i - n)) else entry_at F i)"
    using maybe_append_match[OF assms(1,3,4,5)] False by metis
  have out: "entry_at F i = None" if "next_idx F \<le> i" for i
    using that entry_at_range[OF assms(1), of i] by (auto simp: next_idx_def)
  have keep: "\<exists>f. entry_at F i = Some f \<and> le_term f = le_term (es ! (i - n))"
    if "i < next_idx F" "n \<le> i" "log_first_idx F \<le> i" "i < n + length es" for i
  proof -
    have "es ! (i - n) \<in> set es" "le_idx (es ! (i - n)) = i"
      using that consecutive_nth[OF assms(4), of "i - n"] by auto
    then have "\<not> mismatch F (es ! (i - n))" "entry_at F i \<noteq> None"
      using False entry_at_range[OF assms(1), of i] that by (auto simp: next_idx_def)
    then show ?thesis using \<open>le_idx (es ! (i - n)) = i\<close> by (auto simp: mismatch_def)
  qed
  have "append_outcome F n es F'"
    unfolding append_outcome_def
  proof (intro conjI allI impI)
    fix i assume "n \<le> i \<and> log_first_idx F \<le> i \<and> i < n + length es"
    then show "entry_at F' i = Some (es ! (i - n)) \<or>
        (\<exists>f. entry_at F' i = Some f \<and> entry_at F i = Some f \<and> le_term f = le_term (es ! (i - n)))"
      using keep[of i] e[of i] by (cases "next_idx F \<le> i") auto
  qed (use False out assms(5) in \<open>auto simp: e\<close>)
  then show ?thesis using F' False by auto
next
  case True
  then obtain xs e ys where es: "es = xs @ e # ys" "\<forall>x \<in> set xs. \<not> mismatch F x" "mismatch F e"
    by (rule first_mismatch)
  have ie: "le_idx e = n + length xs" using assms(4) es(1) by simp
  have snp: "log_snp_idx F < le_idx e" using assms(6) es by simp
  have len: "n + length es - 1 = n + length xs + length ys" using es(1) by simp
  obtain F' where F': "maybe_append F es = Inr (n + length es - 1, F')" "log_wf F'"
    "log_snapshot F' = log_snapshot F" "log_first_idx F' = log_first_idx F"
    "last_idx F' = n + length es - 1"
    and e: "\<And>i. entry_at F' i = (if i < le_idx e then entry_at F i
        else if i \<le> n + length xs + length ys then Some ((e # ys) ! (i - le_idx e)) else None)"
    unfolding len unfolding es(1)
    by (rule maybe_append_conflict[OF assms(1,2) assms(4)[unfolded es(1)] es(2,3) snp]) blast
  have keep: "\<exists>f. entry_at F i = Some f \<and> le_term f = le_term (es ! (i - n))"
    if "i < le_idx e" "n \<le> i" "log_first_idx F \<le> i" for i
  proof -
    have i: "i - n < length xs" "es ! (i - n) = xs ! (i - n)"
      using that ie es(1) by (auto simp: nth_append)
    then have "\<not> mismatch F (es ! (i - n))" "le_idx (es ! (i - n)) = i"
      using es(2) consecutive_nth[OF assms(4), of "i - n"] es(1) that by auto
    moreover have "entry_at F i \<noteq> None"
    proof -
      have "le_idx e \<le> last_idx F"
        using es(3) entry_at_range[OF assms(1), of "le_idx e"] by (auto simp: mismatch_def split: option.splits)
      then show ?thesis using that entry_at_range[OF assms(1), of i] by auto
    qed
    ultimately show ?thesis by (auto simp: mismatch_def)
  qed
  have "append_outcome F n es F'"
    unfolding append_outcome_def
  proof (intro conjI allI impI)
    fix i assume "n \<le> i \<and> log_first_idx F \<le> i \<and> i < n + length es"
    then show "entry_at F' i = Some (es ! (i - n)) \<or>
        (\<exists>f. entry_at F' i = Some f \<and> entry_at F i = Some f \<and> le_term f = le_term (es ! (i - n)))"
      using keep[of i] ie by (cases "i < le_idx e") (auto simp: e es(1) nth_append add.commute)
  qed (use True ie es(1) in \<open>auto simp: e\<close>)
  then show ?thesis using F' True by auto
qed

lemma append_outcome_slice:
  assumes "log_matching L F" "slice_of L n es" "append_outcome F n es F'" "n \<le> i" "i < n + length es" "log_first_idx F \<le> i"
  shows "entry_at F' i = Some (es ! (i - n))"
proof -
  have L: "entry_at L i = Some (es ! (i - n))" using assms(2,4,5) le_Suc_ex[OF assms(4)] by (auto simp: slice_of_def)
  have "entry_at F' i = Some (es ! (i - n)) \<or>
    (\<exists>f. entry_at F' i = Some f \<and> entry_at F i = Some f \<and> le_term f = le_term (es ! (i - n)))"
    using append_outcomeD(2)[OF assms(3,4,6,5)] .
  then show ?thesis using log_matchingD[OF assms(1) L _ _ order_refl L] by (metis (no_types))
qed

lemma append_outcome_matching:
  assumes lm: "log_matching L F" and sl: "slice_of L n es" and wf: "log_wf F'" "log_first_idx F' = log_first_idx F"
    and out: "append_outcome F n es F'"
    and below: "\<And>j a f. j < n \<Longrightarrow> entry_at L j = Some a \<Longrightarrow> entry_at F j = Some f \<Longrightarrow> a = f"
  shows "log_matching L F'"
  unfolding log_matching_def
proof (intro allI impI, elim conjE)
  fix i a f j a' f'
  assume i: "entry_at L i = Some a" "entry_at F' i = Some f" "le_term a = le_term f"
    and j: "j \<le> i" "entry_at L j = Some a'" "entry_at F' j = Some f'"
  have in_slice: "entry_at F' m = entry_at L m" if "n \<le> m" "m < n + length es" "entry_at F' m \<noteq> None" for m
    using that append_outcome_slice[OF lm sl out that(1,2)] sl le_Suc_ex[OF that(1)] entry_at_range[OF wf(1), of m] wf(2)
    by (auto simp: slice_of_def)
  show "a' = f'"
  proof (cases "j < n + length es")
    case True
    then show ?thesis
      using below[of j a' f'] in_slice[of j] j out by (cases "j < n") (auto simp: append_outcome_def)
  next
    case False
    then have nomis: "\<not> (\<exists>e\<in>set es. mismatch F e)" using j out by (simp add: append_outcome_def split: if_splits)
    have F: "entry_at F m = entry_at F' m" if "n + length es \<le> m" for m
      using that out nomis by (simp add: append_outcome_def)
    have "entry_at F i = Some f" "entry_at F j = Some f'" using F[of i] F[of j] False i j by auto
    then show ?thesis using log_matchingD[OF lm i(1) _ i(3) j(1,2)] by blast
  qed
qed

text \<open>The slice conflicts with the follower only beyond its snapshot and leaves no gap.\<close>

lemma accepted_slice:
  assumes "log_wf L" "log_wf F" "prev < log_snp_idx F \<longrightarrow> shares_snapshot L F" "match_term F prev pt = (True, t)" "slice_of L (Suc prev) es"
  shows "Suc prev \<le> next_idx F" "\<forall>e \<in> set es. mismatch F e \<longrightarrow> log_snp_idx F < le_idx e"
proof -
  show "Suc prev \<le> next_idx F"
    using match_term_no_gap[OF assms(2,4)] assms(2) by (cases "log_snp_idx F \<le> prev") (auto simp: log_wf_def next_idx_def)
  show "\<forall>e \<in> set es. mismatch F e \<longrightarrow> log_snp_idx F < le_idx e"
  proof (intro ballI impI)
    fix e assume e: "e \<in> set es" "mismatch F e"
    have L: "entry_at L (le_idx e) = Some e" by (rule slice_of_entry[OF assms(1,5) e(1)])
    have "Suc prev \<le> le_idx e" using consecutive_ge[OF slice_of_consecutive[OF assms(1,5)] e(1)] by blast
    moreover obtain f where "entry_at F (le_idx e) = Some f" "le_term f \<noteq> le_term e"
      using e(2) by (auto simp: mismatch_def split: option.splits)
    ultimately show "log_snp_idx F < le_idx e" using assms(3) L unfolding shares_snapshot_def by (metis Suc_le_lessD leI less_le_trans)
  qed
qed

text \<open>C2: The log matching property survives AppendEntries. The leader's log \<open>L\<close> and the follower's log
  \<open>F\<close> satisfy log matching, the follower accepts the previous entry (\<open>match_term\<close> on the index and
  the term the leader's \<open>term_for\<close> gives for it), and the request carries a slice of the leader's log.
  Where the previous entry lies inside the follower's snapshot, \<open>match_term\<close> accepts it unseen; there the leader is
  taken to have the entries that the snapshot covers.
  Then \<open>maybe_append\<close> does not fail, returns the index of the last received entry, the follower's new
  log holds the leader's entries at those indexes (from its first index on; all of them unless the previous
  entry is inside the snapshot), keeps what it had before them, and the two logs still satisfy log matching.\<close>

theorem append_keeps_log_matching:
  assumes "log_wf L" "log_wf F" "conf_tracked F" "snapshot_consistent F" "log_matching L F"
    "prev < log_snp_idx F \<longrightarrow> shares_snapshot L F" "term_for L prev = Inr (Some pt)" "match_term F prev pt = (True, t)"
    "es \<noteq> []" "slice_of L (prev + 1) es"
  shows "\<exists>F'. maybe_append F es = Inr (prev + length es, F') \<and> log_wf F' \<and>
    (\<forall>e \<in> set es. log_first_idx F \<le> le_idx e \<longrightarrow> entry_at F' (le_idx e) = Some e) \<and>
    (log_snp_idx F \<le> prev \<longrightarrow> slice_of F' (prev + 1) es) \<and>
    log_matching L F' \<and> (\<forall>i \<le> prev. entry_at F' i = entry_at F i)"
proof -
  have sl: "slice_of L (Suc prev) es" using assms(10) by simp
  have c: "consecutive (Suc prev) es" by (rule slice_of_consecutive[OF assms(1) sl])
  from maybe_append_outcome[OF assms(2,3,9) c accepted_slice[OF assms(1,2,6,8) sl]]
  obtain F' where F': "maybe_append F es = Inr (prev + length es, F')" "log_wf F'" "log_first_idx F' = log_first_idx F"
    and out: "append_outcome F (Suc prev) es F'" by auto
  have "a = f" if "j < Suc prev" "entry_at L j = Some a" "entry_at F j = Some f" for j a f
  proof (cases "log_snp_idx F \<le> prev")
    case True
    show ?thesis by (rule agree_below_prev[OF assms(1,2,4,5) True assms(7,8)]) (use that in auto)
  next
    case False
    moreover have "j \<le> log_snp_idx F" using False that(1) by simp
    ultimately show ?thesis using assms(6) that(2,3) unfolding shares_snapshot_def by auto
  qed
  then have m: "log_matching L F'" by (rule append_outcome_matching[OF assms(5) sl F'(2,3) out])
  have st: "entry_at F' (Suc prev + k) = Some (es ! k)" if "k < length es" "log_first_idx F \<le> Suc prev + k" for k
    using append_outcome_slice[OF assms(5) sl out, of "Suc prev + k"] that by simp
  have "entry_at F' (le_idx e) = Some e" if "e \<in> set es" "log_first_idx F \<le> le_idx e" for e
    using that st consecutive_nth[OF c] by (auto simp: in_set_conv_nth)
  moreover have "slice_of F' (prev + 1) es" if "log_snp_idx F \<le> prev"
    using st that assms(2) by (auto simp: slice_of_def log_wf_def)
  ultimately show ?thesis using F' m out by (auto simp: append_outcome_def less_Suc_eq_le)
qed

definition ex_leader_log :: raft_log where
  "ex_leader_log = ex_log [ex_entry 1 1, ex_entry 3 2, ex_entry 3 3]"

definition ex_follower_log :: raft_log where
  "ex_follower_log = ex_log [ex_entry 1 1, ex_entry 2 2]"

lemma append_keeps_log_matching_witness:
  "\<exists>F'. maybe_append ex_follower_log [ex_entry 3 2, ex_entry 3 3] = Inr (3, F') \<and> log_wf F' \<and>
    slice_of F' 2 [ex_entry 3 2, ex_entry 3 3] \<and> log_matching ex_leader_log F' \<and>
    entry_at F' 1 = entry_at ex_follower_log 1"
proof -
  have w: "log_wf ex_leader_log" "log_wf ex_follower_log" "conf_tracked ex_follower_log"
    "snapshot_consistent ex_follower_log"
    by (simp_all add: ex_leader_log_def ex_follower_log_def ex_log_simps conf_exact_tracked snapshot_consistent_def)
  have m: "log_matching ex_leader_log ex_follower_log"
    by (auto simp: log_matching_def ex_leader_log_def ex_follower_log_def ex_log_simps ex_entry_def
      nth_Cons' split: if_splits)
  have h: "log_snp_idx ex_follower_log \<le> 1" "1 < log_snp_idx ex_follower_log \<longrightarrow> shares_snapshot ex_leader_log ex_follower_log"
    "term_for ex_leader_log 1 = Inr (Some 1)"
    "match_term ex_follower_log 1 1 = (True, 0)" "slice_of ex_leader_log (1 + 1) [ex_entry 3 2, ex_entry 3 3]"
    by (simp_all add: ex_leader_log_def ex_follower_log_def ex_log_simps ex_entry_def term_for_def get_entry_def
      match_term_def slice_of_def deque_at_def nth_Cons' less_Suc_eq_0_disj)
  have "1 + length [ex_entry 3 2, ex_entry 3 3] = 3" "1 + 1 = (2::nat)" by simp_all
  then show ?thesis using append_keeps_log_matching[OF w m h(2-4) _ h(5)] h(1) by (metis list.distinct(1) order_refl)
qed

text \<open>C6: \<open>maybe_append\<close> stores what it is given. On a well formed log, for entries with contiguous
  indexes that leave no gap and conflict only beyond the snapshot, no assertion fails and the result is
  the index of the last received entry; afterwards the log is well formed, holds at every received index
  not before its first one an entry of the received term, and is unchanged below the received range. If
  nothing conflicts no entry is removed or replaced and the log is never shortened; after a conflict the
  log ends with the last received entry.\<close>

theorem maybe_append_correct:
  assumes "log_wf l" "conf_tracked l" "es \<noteq> []" "consecutive n es" "n \<le> next_idx l"
    "\<forall>e \<in> set es. mismatch l e \<longrightarrow> log_snp_idx l < le_idx e"
  shows "\<exists>l'. maybe_append l es = Inr (le_idx (last es), l') \<and> log_wf l' \<and>
    (\<forall>e \<in> set es. log_first_idx l \<le> le_idx e \<longrightarrow>
       (\<exists>f. entry_at l' (le_idx e) = Some f \<and> le_term f = le_term e \<and> (f = e \<or> entry_at l (le_idx e) = Some f))) \<and>
    (\<forall>i < n. entry_at l' i = entry_at l i) \<and>
    (if \<exists>e \<in> set es. mismatch l e then last_idx l' = le_idx (last es)
     else last_idx l' = max (last_idx l) (le_idx (last es)) \<and> (\<forall>i \<le> last_idx l. entry_at l' i = entry_at l i))"
proof -
  obtain l' where l': "maybe_append l es = Inr (n + length es - 1, l')" "log_wf l'" "append_outcome l n es l'"
    "last_idx l' = (if \<exists>e\<in>set es. mismatch l e then n + length es - 1 else max (last_idx l) (n + length es - 1))"
    "log_first_idx l' = log_first_idx l"
    using maybe_append_outcome[OF assms] by blast
  have last: "le_idx (last es) = n + length es - 1"
    using assms(3,4) by (simp add: consecutive_def last_conv_nth) (cases es; simp)
  have stored: "\<exists>f. entry_at l' (le_idx e) = Some f \<and> le_term f = le_term e \<and> (f = e \<or> entry_at l (le_idx e) = Some f)"
    if e: "e \<in> set es" "log_first_idx l \<le> le_idx e" for e
  proof -
    obtain k where k: "k < length es" "es ! k = e" using e(1) by (auto simp: in_set_conv_nth)
    then have "le_idx e = n + k" using consecutive_nth[OF assms(4)] by blast
    then show ?thesis using append_outcomeD(2)[OF l'(3), of "n + k"] k e(2) by auto
  qed
  have same: "entry_at l' i = entry_at l i" if "\<not> (\<exists>e \<in> set es. mismatch l e)" "i \<le> last_idx l" for i
  proof (cases "entry_at l i")
    case None
    then have "i < log_first_idx l'" using entry_at_range[OF assms(1), of i] that(2) l'(5) by auto
    then have "entry_at l' i = None" using entry_at_range[OF l'(2), of i] by auto
    then show ?thesis using None by simp
  qed (use that append_outcomeD(4)[OF l'(3), of i] in simp)
  show ?thesis
    using l'(1,2,4) last stored same append_outcomeD(1)[OF l'(3)]
    by (intro exI[of _ l'] conjI) (simp_all split: if_split)
qed

lemma maybe_append_correct_witness:
  "\<exists>l'. maybe_append ex_follower_log [ex_entry 1 1, ex_entry 3 2, ex_entry 3 3] = Inr (3, l') \<and> log_wf l' \<and> last_idx l' = 3"
  using maybe_append_correct[of ex_follower_log "[ex_entry 1 1, ex_entry 3 2, ex_entry 3 3]" 1]
  by (auto simp: ex_follower_log_def ex_log_simps conf_exact_tracked mismatch_def next_idx_def)

end
