(* ===== verification/Raft_Messages.thy ===== *)
theory Raft_Messages
  imports Raft_Log
begin

text \<open>
  The messages servers exchange (\<open>src/raft/raft.hh\<close>): one record per struct, and \<open>rpc_message\<close> for the
  variant of all of them.
\<close>

record append_request =
  areq_current_term :: term_t
  areq_prev_log_idx :: index_t
  areq_prev_log_term :: term_t
  areq_leader_commit_idx :: index_t
  areq_entries :: "log_entry list"

record rejected =
  rej_non_matching_idx :: index_t
  rej_last_idx :: index_t

datatype append_result = Rejected rejected | Accepted index_t

record append_reply =
  arep_current_term :: term_t
  arep_commit_idx :: index_t
  arep_result :: append_result

record vote_request =
  vreq_current_term :: term_t
  vreq_last_log_idx :: index_t
  vreq_last_log_term :: term_t
  vreq_is_prevote :: bool
  vreq_force :: bool

record vote_reply =
  vrep_current_term :: term_t
  vrep_vote_granted :: bool
  vrep_is_prevote :: bool

record install_snapshot =
  inst_current_term :: term_t
  inst_snp :: snapshot_descriptor

record snapshot_reply =
  srep_current_term :: term_t
  srep_success :: bool

record timeout_now =
  tnow_current_term :: term_t

record read_quorum =
  rq_current_term :: term_t
  rq_leader_commit_idx :: index_t
  rq_id :: read_id

record read_quorum_reply =
  rqr_current_term :: term_t
  rqr_commit_idx :: index_t
  rqr_id :: read_id

datatype rpc_message =
    AppendRequest append_request
  | AppendReply append_reply
  | VoteRequest vote_request
  | VoteReply vote_reply
  | InstallSnapshot install_snapshot
  | SnapshotReply snapshot_reply
  | TimeoutNow timeout_now
  | ReadQuorum read_quorum
  | ReadQuorumReply read_quorum_reply

text \<open>The member \<open>current_term\<close>, which every alternative has and \<open>fsm::step\<close> reads first.\<close>

fun message_term :: "rpc_message \<Rightarrow> term_t" where
  "message_term (AppendRequest m) = areq_current_term m"
| "message_term (AppendReply m) = arep_current_term m"
| "message_term (VoteRequest m) = vreq_current_term m"
| "message_term (VoteReply m) = vrep_current_term m"
| "message_term (InstallSnapshot m) = inst_current_term m"
| "message_term (SnapshotReply m) = srep_current_term m"
| "message_term (TimeoutNow m) = tnow_current_term m"
| "message_term (ReadQuorum m) = rq_current_term m"
| "message_term (ReadQuorumReply m) = rqr_current_term m"

end
