(* ===== verification/Raft_Tracker.thy ===== *)
theory Raft_Tracker
  imports Raft_Messages
begin

text \<open>
  The leader's view of its followers (\<open>src/raft/tracker.hh\<close> and \<open>tracker.cc\<close>): the progress of one
  follower, the tracker that holds the progress of every member of the configuration, the commit index
  it computes, and the activity tracker that tells whether a quorum is alive.
\<close>

section \<open>The progress of one follower\<close>

datatype progress_state = PROBE | PIPELINE | SNAPSHOT

record follower_progress =
  fp_id :: server_id
  fp_next_idx :: index_t
  fp_match_idx :: index_t
  fp_commit_idx :: index_t
  fp_max_acked_read :: read_id
  fp_can_vote :: bool
  fp_state :: progress_state
  fp_probe_sent :: bool
  fp_in_flight :: nat

definition make_progress :: "server_id \<Rightarrow> index_t \<Rightarrow> follower_progress" where
  "make_progress id_arg next_idx_arg =
     \<lparr>fp_id = id_arg, fp_next_idx = next_idx_arg, fp_match_idx = 0, fp_commit_idx = 0,
      fp_max_acked_read = 0, fp_can_vote = True, fp_state = PROBE, fp_probe_sent = False,
      fp_in_flight = 0\<rparr>"

definition max_in_flight :: nat where
  "max_in_flight = 10"

definition is_stray_reject :: "follower_progress \<Rightarrow> rejected \<Rightarrow> bool" where
  "is_stray_reject p r =
     (if rej_non_matching_idx r \<le> fp_match_idx p then True
      else if rej_last_idx r < fp_match_idx p then True
      else case fp_state p of
        PIPELINE \<Rightarrow> False
      | PROBE \<Rightarrow> if rej_non_matching_idx r \<noteq> pred64 (fp_next_idx p) then True else False
      | SNAPSHOT \<Rightarrow> True)"

definition become_probe :: "follower_progress \<Rightarrow> follower_progress" where
  "become_probe p = p\<lparr>fp_state := PROBE, fp_probe_sent := False\<rparr>"

definition become_pipeline :: "follower_progress \<Rightarrow> follower_progress" where
  "become_pipeline p =
     (if fp_state p \<noteq> PIPELINE then p\<lparr>fp_state := PIPELINE, fp_in_flight := 0\<rparr> else p)"

definition become_snapshot :: "follower_progress \<Rightarrow> index_t \<Rightarrow> follower_progress" where
  "become_snapshot p idx = p\<lparr>fp_state := SNAPSHOT, fp_next_idx := idx + 1\<rparr>"

definition progress_accepted :: "follower_progress \<Rightarrow> index_t \<Rightarrow> follower_progress" where
  "progress_accepted p idx =
     (let p1 = p\<lparr>fp_match_idx := max idx (fp_match_idx p)\<rparr>
      in p1\<lparr>fp_next_idx := max (idx + 1) (fp_next_idx p1)\<rparr>)"

definition can_send_to :: "follower_progress \<Rightarrow> bool" where
  "can_send_to p =
     (case fp_state p of
        PROBE \<Rightarrow> \<not> fp_probe_sent p
      | PIPELINE \<Rightarrow> fp_in_flight p < max_in_flight
      | SNAPSHOT \<Rightarrow> False)"

section \<open>The tracker\<close>

text \<open>
  \<open>progress\<close> is an \<open>unordered_map\<close>: the association list of its elements in iteration order. The sets
  of voters are lists without repetition.
\<close>

type_synonym progress = "(server_id \<times> follower_progress) list"

record tracker =
  tr_progress :: progress
  tr_current_voters :: "server_id list"
  tr_previous_voters :: "server_id list"

definition empty_tracker :: tracker where
  "empty_tracker = \<lparr>tr_progress = [], tr_current_voters = [], tr_previous_voters = []\<rparr>"

definition tracker_find :: "tracker \<Rightarrow> server_id \<Rightarrow> follower_progress option" where
  "tracker_find t dst = map_of (tr_progress t) dst"

text \<open>Assignment through the pointer that \<open>find\<close> returns.\<close>

definition tracker_set :: "tracker \<Rightarrow> server_id \<Rightarrow> follower_progress \<Rightarrow> tracker" where
  "tracker_set t dst p = t\<lparr>tr_progress := alist_set dst p (tr_progress t)\<rparr>"

definition emplace_member ::
  "progress \<Rightarrow> index_t \<Rightarrow> config_member \<Rightarrow> progress \<times> server_id list \<Rightarrow> progress \<times> server_id list" where
  "emplace_member old_progress next_index s acc =
     (let (progress, voter_ids) = acc;
          voter_ids' = (if cm_can_vote s then List.insert (member_id s) voter_ids else voter_ids)
      in case map_of progress (member_id s) of
           Some _ \<Rightarrow> (progress, voter_ids')
         | None \<Rightarrow>
             let newp = (case map_of old_progress (member_id s) of
                           Some oldp \<Rightarrow> oldp
                         | None \<Rightarrow> make_progress (member_id s) next_index)
             in (progress @ [(member_id s, newp\<lparr>fp_can_vote := cm_can_vote s\<rparr>)], voter_ids'))"

definition emplace_simple_config ::
  "progress \<Rightarrow> index_t \<Rightarrow> config_member_set \<Rightarrow> progress \<Rightarrow> progress \<times> server_id list" where
  "emplace_simple_config old_progress next_index config progress =
     fold (emplace_member old_progress next_index) config (progress, [])"

definition set_configuration :: "tracker \<Rightarrow> configuration \<Rightarrow> index_t \<Rightarrow> tracker" where
  "set_configuration t configuration next_index =
     (let old_progress = tr_progress t;
          (progress, current_voters) =
            emplace_simple_config old_progress next_index (conf_current configuration) [];
          (progress', previous_voters) =
            (if is_joint configuration
             then emplace_simple_config old_progress next_index (conf_previous configuration) progress
             else (progress, []))
      in \<lparr>tr_progress = progress', tr_current_voters = current_voters,
          tr_previous_voters = previous_voters\<rparr>)"

subsection \<open>The commit index\<close>

record match_vector =
  mv_match :: "nat list"
  mv_count :: nat
  mv_prev_commit_idx :: nat

definition make_match_vector :: "nat \<Rightarrow> match_vector" where
  "make_match_vector prev_commit_idx =
     \<lparr>mv_match = [], mv_count = 0, mv_prev_commit_idx = prev_commit_idx\<rparr>"

definition mv_push_back :: "match_vector \<Rightarrow> nat \<Rightarrow> match_vector" where
  "mv_push_back v match_idx =
     (let v1 = (if match_idx > mv_prev_commit_idx v then v\<lparr>mv_count := mv_count v + 1\<rparr> else v)
      in v1\<lparr>mv_match := mv_match v1 @ [match_idx]\<rparr>)"

definition mv_committed :: "match_vector \<Rightarrow> bool" where
  "mv_committed v \<longleftrightarrow> mv_count v \<ge> length (mv_match v) div 2 + 1"

text \<open>
  \<open>std::nth_element\<close> puts at the pivot position the element that a full sort would put there. The
  function is only called when \<open>mv_committed\<close> holds, so the vector is not empty.
\<close>

definition mv_commit_idx :: "match_vector \<Rightarrow> nat" where
  "mv_commit_idx v = (let pivot = (length (mv_match v) - 1) div 2 in sort (mv_match v) ! pivot)"

text \<open>
  The template is instantiated at \<open>index_t\<close>, where the pushed value is \<open>match_idx\<close>, and at \<open>read_id\<close>,
  where it is \<open>max_acked_read\<close>: \<open>val\<close> is that choice.
\<close>

definition push_voter ::
  "(follower_progress \<Rightarrow> nat) \<Rightarrow> server_id list \<Rightarrow> server_id \<times> follower_progress \<Rightarrow> match_vector \<Rightarrow> match_vector" where
  "push_voter val voter_ids ip v =
     (if List.member voter_ids (fp_id (snd ip)) then mv_push_back v (val (snd ip)) else v)"

definition committed :: "(follower_progress \<Rightarrow> nat) \<Rightarrow> tracker \<Rightarrow> nat \<Rightarrow> nat" where
  "committed val t prev_commit_idx =
     (if tr_previous_voters t \<noteq> [] then
        let (current, previous) =
              fold (\<lambda>ip (c, p). (push_voter val (tr_current_voters t) ip c,
                                  push_voter val (tr_previous_voters t) ip p))
                (tr_progress t) (make_match_vector prev_commit_idx, make_match_vector prev_commit_idx)
        in if \<not> mv_committed current \<or> \<not> mv_committed previous then prev_commit_idx
           else min (mv_commit_idx current) (mv_commit_idx previous)
      else
        let current = fold (push_voter val (tr_current_voters t)) (tr_progress t)
                        (make_match_vector prev_commit_idx)
        in if \<not> mv_committed current then prev_commit_idx else mv_commit_idx current)"

definition committed_idx :: "tracker \<Rightarrow> index_t \<Rightarrow> index_t" where
  "committed_idx = committed fp_match_idx"

definition committed_read :: "tracker \<Rightarrow> read_id \<Rightarrow> read_id" where
  "committed_read = committed fp_max_acked_read"

subsection \<open>The activity tracker\<close>

record activity_tracker =
  at_cur :: nat
  at_prev :: nat

definition get_activity_tracker :: activity_tracker where
  "get_activity_tracker = \<lparr>at_cur = 0, at_prev = 0\<rparr>"

definition activity_add :: "tracker \<Rightarrow> activity_tracker \<Rightarrow> server_id \<Rightarrow> activity_tracker" where
  "activity_add t a srv =
     a\<lparr>at_cur := at_cur a + of_bool (List.member (tr_current_voters t) srv),
       at_prev := at_prev a + of_bool (List.member (tr_previous_voters t) srv)\<rparr>"

definition activity_bool :: "tracker \<Rightarrow> activity_tracker \<Rightarrow> bool" where
  "activity_bool t a =
     (let active = (at_cur a \<ge> length (tr_current_voters t) div 2 + 1)
      in if tr_previous_voters t \<noteq> []
         then active \<and> at_prev a \<ge> length (tr_previous_voters t) div 2 + 1
         else active)"

section \<open>Well-formed trackers\<close>

definition progress_ok :: "follower_progress \<Rightarrow> bool" where
  "progress_ok p \<longleftrightarrow> fp_match_idx p < fp_next_idx p"

definition tracker_ok :: "tracker \<Rightarrow> bool" where
  "tracker_ok t \<longleftrightarrow> distinct (map fst (tr_progress t)) \<and> (\<forall>(i, p) \<in> set (tr_progress t). fp_id p = i) \<and>
     distinct (tr_current_voters t) \<and> distinct (tr_previous_voters t) \<and>
     set (tr_current_voters t) \<union> set (tr_previous_voters t) \<subseteq> fst ` set (tr_progress t)"

lemma stray_reject_post:
  assumes "\<not> is_stray_reject p r"
  shows "fp_match_idx p < rej_non_matching_idx r" "fp_match_idx p < rej_last_idx r + 1"
    and "fp_state p = PROBE \<Longrightarrow> rej_non_matching_idx r = pred64 (fp_next_idx p)"
    and "fp_state p \<noteq> SNAPSHOT"
  using assms by (auto simp: is_stray_reject_def split: if_splits progress_state.splits)

lemma progress_ok_ops:
  "0 < n \<Longrightarrow> progress_ok (make_progress i n)"
  "progress_ok p \<Longrightarrow> progress_ok (become_probe p)"
  "progress_ok p \<Longrightarrow> progress_ok (become_pipeline p)"
  "progress_ok p \<Longrightarrow> progress_ok (progress_accepted p idx)"
  "fp_match_idx p \<le> idx \<Longrightarrow> progress_ok (become_snapshot p idx)"
  by (auto simp: progress_ok_def make_progress_def become_probe_def become_pipeline_def
    progress_accepted_def become_snapshot_def Let_def)

text \<open>What \<open>emplace_simple_config\<close> adds: an entry for every member not there yet.\<close>

lemma emplace_member_map_of:
  "map_of (fst (emplace_member old n s (p, vs))) i =
     (if map_of p i = None \<and> i = member_id s
      then Some ((case map_of old i of Some q \<Rightarrow> q | None \<Rightarrow> make_progress i n)\<lparr>fp_can_vote := cm_can_vote s\<rparr>)
      else map_of p i)"
  by (auto simp: emplace_member_def Let_def map_add_def split: option.splits)

lemma emplace_member_keys:
  "distinct (map fst p) \<Longrightarrow> distinct (map fst (fst (emplace_member old n s (p, vs))))"
  "fst ` set (fst (emplace_member old n s (p, vs))) = insert (member_id s) (fst ` set p)"
  "set (snd (emplace_member old n s (p, vs))) = (if cm_can_vote s then insert (member_id s) (set vs) else set vs)"
  "distinct vs \<Longrightarrow> distinct (snd (emplace_member old n s (p, vs)))"
  by (auto simp: emplace_member_def Let_def map_of_eq_None_iff dest: map_of_SomeD split: option.splits)
     (force dest: map_of_SomeD)+

lemma fold_emplace_member:
  fixes old :: progress and n :: index_t and c :: config_member_set
  shows "distinct (map fst (fst a)) \<Longrightarrow> distinct (map fst (fst (fold (emplace_member old n) c a)))"
    and "fst ` set (fst (fold (emplace_member old n) c a)) = set (cset_ids c) \<union> fst ` set (fst a)"
    and "set (snd (fold (emplace_member old n) c a)) = voters c \<union> set (snd a)"
    and "distinct (snd a) \<Longrightarrow> distinct (snd (fold (emplace_member old n) c a))"
proof -
  note keys = emplace_member_keys[where p = "fst a'" and vs = "snd a'" for a', simplified]
  show "distinct (map fst (fst a)) \<Longrightarrow> distinct (map fst (fst (fold (emplace_member old n) c a)))"
    by (induction c arbitrary: a) (simp_all add: keys)
  show "fst ` set (fst (fold (emplace_member old n) c a)) = set (cset_ids c) \<union> fst ` set (fst a)"
    by (induction c arbitrary: a) (simp_all add: keys cset_ids_def)
  show "set (snd (fold (emplace_member old n) c a)) = voters c \<union> set (snd a)"
    by (induction c arbitrary: a) (simp_all add: keys voters_Cons)
  show "distinct (snd a) \<Longrightarrow> distinct (snd (fold (emplace_member old n) c a))"
    by (induction c arbitrary: a) (simp_all add: keys)
qed

lemma fold_emplace_member_map_of:
  assumes "distinct (cset_ids c)"
  shows "map_of (fst (fold (emplace_member old n) c a)) i =
      (if map_of (fst a) i = None then
         (case cset_find c i of None \<Rightarrow> None
          | Some s \<Rightarrow> Some ((case map_of old i of Some q \<Rightarrow> q | None \<Rightarrow> make_progress i n)\<lparr>fp_can_vote := cm_can_vote s\<rparr>))
       else map_of (fst a) i)"
  using assms
proof (induction c arbitrary: a)
  case (Cons s c)
  have "cset_find c (member_id s) = None" using Cons.prems by (simp add: cset_find_None_iff cset_ids_def)
  then show ?case
    using Cons.IH[of "emplace_member old n s a"] Cons.prems emplace_member_map_of[of old n s "fst a" "snd a" i]
    by (auto simp: cset_find_def cset_ids_def)
qed (simp add: cset_find_def)

lemma set_configuration_fields:
  fixes t :: tracker and n :: index_t and c :: configuration
  assumes "cset_ok (conf_current c)" "cset_ok (conf_previous c)"
  defines "t' \<equiv> set_configuration t c n"
  shows "distinct (map fst (tr_progress t'))"
    and "fst ` set (tr_progress t') = set (cset_ids (conf_current c)) \<union> set (cset_ids (conf_previous c))"
    and "set (tr_current_voters t') = voters (conf_current c)" "distinct (tr_current_voters t')"
    and "set (tr_previous_voters t') = voters (conf_previous c)" "distinct (tr_previous_voters t')"
    and "tracker_find t' i =
      map_option (\<lambda>m. (case tracker_find t i of Some q \<Rightarrow> q | None \<Rightarrow> make_progress i n)\<lparr>fp_can_vote := cm_can_vote m\<rparr>)
        (case cset_find (conf_current c) i of Some m \<Rightarrow> Some m | None \<Rightarrow> cset_find (conf_previous c) i)"
proof -
  obtain p vs where 1: "fold (emplace_member (tr_progress t) n) (conf_current c) ([], []) = (p, vs)" by fastforce
  obtain p' vs' where 2: "fold (emplace_member (tr_progress t) n) (conf_previous c) (p, []) = (p', vs')" by fastforce
  have d: "distinct (cset_ids (conf_current c))" "distinct (cset_ids (conf_previous c))"
    using assms(1,2) by (auto simp: cset_ok_def)
  note f1 = fold_emplace_member[where a = "([], [])" and c = "conf_current c" and old = "tr_progress t" and n = n, unfolded 1]
    fold_emplace_member_map_of[OF d(1), of "tr_progress t" n "([], [])", unfolded 1]
  note f2 = fold_emplace_member[where a = "(p, [])" and c = "conf_previous c" and old = "tr_progress t" and n = n, unfolded 2]
    fold_emplace_member_map_of[OF d(2), of "tr_progress t" n "(p, [])", unfolded 2]
  have t': "t' = \<lparr>tr_progress = p', tr_current_voters = vs, tr_previous_voters = vs'\<rparr>"
    using 1 2 by (cases "conf_previous c") (auto simp: t'_def set_configuration_def emplace_simple_config_def is_joint_def)
  show "distinct (map fst (tr_progress t'))" "distinct (tr_current_voters t')" "distinct (tr_previous_voters t')"
    using f1 f2 by (simp_all add: t')
  show "fst ` set (tr_progress t') = set (cset_ids (conf_current c)) \<union> set (cset_ids (conf_previous c))"
    using f1(2) f2(2) by (auto simp: t')
  show "set (tr_current_voters t') = voters (conf_current c)" "set (tr_previous_voters t') = voters (conf_previous c)"
    using f1(3) f2(3) by (simp_all add: t')
  show "tracker_find t' i =
      map_option (\<lambda>m. (case tracker_find t i of Some q \<Rightarrow> q | None \<Rightarrow> make_progress i n)\<lparr>fp_can_vote := cm_can_vote m\<rparr>)
        (case cset_find (conf_current c) i of Some m \<Rightarrow> Some m | None \<Rightarrow> cset_find (conf_previous c) i)"
    using f1(5)[of i] f2(5)[of i] by (simp add: t' tracker_find_def split: option.splits)
qed

section \<open>The commit index is the greatest one a quorum holds\<close>

text \<open>
  \<open>acked val t i\<close> is the set of members whose value has reached \<open>i\<close>. The specification of \<open>committed\<close>
  is about majorities of the two sets of voters.
\<close>

definition acked :: "(follower_progress \<Rightarrow> nat) \<Rightarrow> tracker \<Rightarrow> nat \<Rightarrow> server_id set" where
  "acked val t i = {s. \<exists>p. tracker_find t s = Some p \<and> i \<le> val p}"

definition quorum_acked :: "(follower_progress \<Rightarrow> nat) \<Rightarrow> tracker \<Rightarrow> nat \<Rightarrow> bool" where
  "quorum_acked val t i \<longleftrightarrow> majority (set (tr_current_voters t)) (acked val t i) \<and>
     (tr_previous_voters t \<noteq> [] \<longrightarrow> majority (set (tr_previous_voters t)) (acked val t i))"

lemma acked_antimono: "j \<le> i \<Longrightarrow> acked val t i \<subseteq> acked val t j"
  unfolding acked_def using order_trans by blast

lemma quorum_acked_antimono: "quorum_acked val t i \<Longrightarrow> j \<le> i \<Longrightarrow> quorum_acked val t j"
  using majority_mono[OF _ _ acked_antimono[of j i val t]] by (simp add: quorum_acked_def)

lemma sorted_nth_ge_iff:
  assumes "sorted xs" "k < length xs"
  shows "i \<le> xs ! k \<longleftrightarrow> length xs - k \<le> length (filter (\<lambda>x. i \<le> x) xs)"
proof
  assume "i \<le> xs ! k"
  then have "\<forall>x \<in> set (drop k xs). i \<le> x"
    using sorted_wrt_drop[OF assms(1), of k] unfolding Cons_nth_drop_Suc[OF assms(2), symmetric] by auto
  then have "filter (\<lambda>x. i \<le> x) (drop k xs) = drop k xs" by simp
  moreover have "length (filter (\<lambda>x. i \<le> x) xs) =
    length (filter (\<lambda>x. i \<le> x) (take k xs)) + length (filter (\<lambda>x. i \<le> x) (drop k xs))"
    by (metis append_take_drop_id filter_append length_append)
  ultimately show "length xs - k \<le> length (filter (\<lambda>x. i \<le> x) xs)" by simp
next
  assume *: "length xs - k \<le> length (filter (\<lambda>x. i \<le> x) xs)"
  show "i \<le> xs ! k"
  proof (rule ccontr)
    assume "\<not> i \<le> xs ! k"
    then have "\<forall>x \<in> set (take (Suc k) xs). \<not> i \<le> x"
      using sorted_wrt_take[OF assms(1), of "Suc k"] unfolding take_Suc_conv_app_nth[OF assms(2)]
      by (auto simp: sorted_append)
    then have "filter (\<lambda>x. i \<le> x) (take (Suc k) xs) = []" by simp
    moreover have "length (filter (\<lambda>x. i \<le> x) xs) =
      length (filter (\<lambda>x. i \<le> x) (take (Suc k) xs)) + length (filter (\<lambda>x. i \<le> x) (drop (Suc k) xs))"
      by (metis append_take_drop_id filter_append length_append)
    moreover have "length (filter (\<lambda>x. i \<le> x) (drop (Suc k) xs)) \<le> length xs - Suc k"
      using length_filter_le[of _ "drop (Suc k) xs"] by simp
    ultimately show False using * assms(2) by simp
  qed
qed

text \<open>The pivot: an index is held by more than half of the elements exactly if it does not exceed it.\<close>

lemma pivot_majority:
  assumes "xs \<noteq> []"
  shows "i \<le> sort xs ! ((length xs - 1) div 2) \<longleftrightarrow> length xs div 2 + 1 \<le> length (filter (\<lambda>x. i \<le> x) xs)"
proof -
  have "length xs - (length xs - 1) div 2 = length xs div 2 + 1" using assms
    by (simp add: length_greater_0_conv[symmetric] del: length_greater_0_conv)
  then show ?thesis
    using sorted_nth_ge_iff[of "sort xs" "(length xs - 1) div 2" i] length_greater_0_conv[of xs] assms
    by (simp add: filter_sort del: length_greater_0_conv)
qed

definition voter_values :: "(follower_progress \<Rightarrow> nat) \<Rightarrow> server_id list \<Rightarrow> progress \<Rightarrow> nat list" where
  "voter_values val vs ps = map (val \<circ> snd) (filter (\<lambda>ip. fp_id (snd ip) \<in> set vs) ps)"

lemma fold_push_voter:
  "fold (push_voter val vs) ps v =
     v\<lparr>mv_match := mv_match v @ voter_values val vs ps,
       mv_count := mv_count v + length (filter (\<lambda>x. mv_prev_commit_idx v < x) (voter_values val vs ps))\<rparr>"
  by (induction ps arbitrary: v)
     (simp_all add: voter_values_def push_voter_def mv_push_back_def Let_def)

lemma fold_pair:
  "fold (\<lambda>x (a, b). (f x a, g x b)) xs (a, b) = (fold f xs a, fold g xs b)"
  by (induction xs arbitrary: a b) simp_all

lemma voter_values_count:
  assumes "distinct (map fst ps)" "\<forall>(i, p) \<in> set ps. fp_id p = i" "distinct vs"
  shows "length (filter (\<lambda>x. n \<le> x) (voter_values val vs ps)) =
    card ({s. \<exists>p. map_of ps s = Some p \<and> n \<le> val p} \<inter> set vs)"
proof -
  let ?F = "filter (\<lambda>ip. fp_id (snd ip) \<in> set vs \<and> n \<le> val (snd ip)) ps"
  have "length (filter (\<lambda>x. n \<le> x) (voter_values val vs ps)) = length ?F"
    by (induction ps) (auto simp: voter_values_def)
  also have "\<dots> = card (fst ` set ?F)"
  proof -
    have "distinct (map fst ?F)" using assms(1) by (rule distinct_map_filter)
    from distinct_card[OF this] show ?thesis unfolding set_map length_map by (rule sym)
  qed
  also have "fst ` set ?F = {s. \<exists>p. map_of ps s = Some p \<and> n \<le> val p} \<inter> set vs"
  proof (intro set_eqI iffI)
    fix s assume "s \<in> fst ` set ?F"
    then obtain p where "(s, p) \<in> set ps" "fp_id p \<in> set vs" "n \<le> val p" by auto
    then show "s \<in> {s. \<exists>p. map_of ps s = Some p \<and> n \<le> val p} \<inter> set vs"
      using assms(1,2) by auto
  next
    fix s assume "s \<in> {s. \<exists>p. map_of ps s = Some p \<and> n \<le> val p} \<inter> set vs"
    then obtain p where p: "(s, p) \<in> set ps" "n \<le> val p" "s \<in> set vs" by (auto dest: map_of_SomeD)
    moreover have "fp_id p = s" using p(1) assms(2) by auto
    ultimately have "(s, p) \<in> set ?F" by simp
    then show "s \<in> fst ` set ?F" by (rule rev_image_eqI) simp
  qed
  finally show ?thesis .
qed

lemma voter_values_length:
  assumes "distinct (map fst ps)" "\<forall>(i, p) \<in> set ps. fp_id p = i" "distinct vs" "set vs \<subseteq> fst ` set ps"
  shows "length (voter_values val vs ps) = card (set vs)"
proof -
  have "{s. \<exists>p. map_of ps s = Some p} \<inter> set vs = set vs"
    using assms(4) map_of_eq_None_iff[of ps] by (auto simp: not_None_eq[symmetric] simp del: not_None_eq)
  then show ?thesis using voter_values_count[OF assms(1-3), of 0 val] by simp
qed

text \<open>One match vector, after all voters of one set were pushed.\<close>

lemma match_vector_majority:
  fixes val :: "follower_progress \<Rightarrow> nat" and prev :: nat and t :: tracker and vs :: "server_id list"
  assumes "tracker_ok t" "vs = tr_current_voters t \<or> vs = tr_previous_voters t"
  defines "v \<equiv> fold (push_voter val vs) (tr_progress t) (make_match_vector prev)"
  shows "mv_committed v \<longleftrightarrow> majority (set vs) (acked val t (Suc prev))"
    and "mv_committed v \<Longrightarrow> i \<le> mv_commit_idx v \<longleftrightarrow> majority (set vs) (acked val t i)"
proof -
  let ?m = "voter_values val vs (tr_progress t)"
  have ok: "distinct (map fst (tr_progress t))" "\<forall>(i, p) \<in> set (tr_progress t). fp_id p = i" "distinct vs"
    "set vs \<subseteq> fst ` set (tr_progress t)"
    using assms(1,2) by (auto simp: tracker_ok_def)
  have v: "mv_match v = ?m" "mv_count v = length (filter (\<lambda>x. Suc prev \<le> x) ?m)"
    by (simp_all add: v_def fold_push_voter make_match_vector_def Suc_le_eq)
  have maj: "majority (set vs) (acked val t n) \<longleftrightarrow> length ?m div 2 + 1 \<le> length (filter (\<lambda>x. n \<le> x) ?m)" for n
    using voter_values_count[OF ok(1-3), of n val] voter_values_length[OF ok, of val]
    by (auto simp: majority_def acked_def tracker_find_def)
  show "mv_committed v \<longleftrightarrow> majority (set vs) (acked val t (Suc prev))"
    by (simp add: mv_committed_def v maj)
  show "i \<le> mv_commit_idx v \<longleftrightarrow> majority (set vs) (acked val t i)" if "mv_committed v"
  proof -
    have "?m \<noteq> []" using that by (auto simp: mv_committed_def v)
    then show ?thesis using pivot_majority[of ?m i] by (simp add: mv_commit_idx_def v maj Let_def)
  qed
qed

lemma committed_spec:
  fixes val :: "follower_progress \<Rightarrow> nat" and prev :: nat
  assumes "tracker_ok t"
  defines "c \<equiv> committed val t prev"
  shows "prev \<le> c" "c = prev \<or> quorum_acked val t c" "c < i \<Longrightarrow> \<not> quorum_acked val t i"
proof -
  let ?cv = "fold (push_voter val (tr_current_voters t)) (tr_progress t) (make_match_vector prev)"
  let ?pv = "fold (push_voter val (tr_previous_voters t)) (tr_progress t) (make_match_vector prev)"
  note cur = match_vector_majority[OF assms(1) disjI1[OF refl], where val = val and prev = prev]
  note prv = match_vector_majority[OF assms(1) disjI2[OF refl], where val = val and prev = prev]
  have anti: "quorum_acked val t i \<Longrightarrow> prev < i \<Longrightarrow> quorum_acked val t (Suc prev)" for i
    using quorum_acked_antimono[of val t i "Suc prev"] by simp
  have c: "c = (if tr_previous_voters t \<noteq> []
      then if mv_committed ?cv \<and> mv_committed ?pv then min (mv_commit_idx ?cv) (mv_commit_idx ?pv) else prev
      else if mv_committed ?cv then mv_commit_idx ?cv else prev)"
    by (simp add: c_def committed_def fold_pair)
  have q: "(mv_committed ?cv \<and> (tr_previous_voters t \<noteq> [] \<longrightarrow> mv_committed ?pv)) = quorum_acked val t (Suc prev)"
    by (auto simp: quorum_acked_def cur(1) prv(1))
  have le: "i \<le> c \<longleftrightarrow> quorum_acked val t i" if "quorum_acked val t (Suc prev)" for i
    using that cur(2)[of i] prv(2)[of i] unfolding q[symmetric] by (auto simp: c quorum_acked_def)
  have prev: "c = prev" if "\<not> quorum_acked val t (Suc prev)"
    using that by (simp add: c q[symmetric] split: if_splits)
  show "prev \<le> c" "c = prev \<or> quorum_acked val t c" "c < i \<Longrightarrow> \<not> quorum_acked val t i"
    using le[of "Suc prev"] le[of c] le[of i] anti[of i] prev
    by (cases "quorum_acked val t (Suc prev)"; force)+
qed

lemma fold_activity_add:
  "fold (\<lambda>i a. activity_add t a i) is a =
     \<lparr>at_cur = at_cur a + length (filter (\<lambda>i. i \<in> set (tr_current_voters t)) is),
      at_prev = at_prev a + length (filter (\<lambda>i. i \<in> set (tr_previous_voters t)) is)\<rparr>"
  by (induction "is" arbitrary: a) (simp_all add: activity_add_def)

lemma activity_quorum:
  assumes "tracker_ok t" "distinct is"
  shows "activity_bool t (fold (\<lambda>i a. activity_add t a i) is get_activity_tracker) \<longleftrightarrow>
    majority (set (tr_current_voters t)) (set is) \<and>
    (tr_previous_voters t \<noteq> [] \<longrightarrow> majority (set (tr_previous_voters t)) (set is))"
proof -
  have "length (filter (\<lambda>i. i \<in> set vs) is) = card (set is \<inter> set vs)" for vs
    using distinct_card[OF distinct_filter[OF assms(2)]] by (simp add: Int_def)
  moreover have "length vs = card (set vs)" if "vs = tr_current_voters t \<or> vs = tr_previous_voters t" for vs
    using assms(1) that by (auto simp: tracker_ok_def distinct_card)
  ultimately show ?thesis
    by (auto simp: activity_bool_def fold_activity_add get_activity_tracker_def majority_def Let_def)
qed

lemma tracker_ok_set_configuration:
  assumes "cset_ok (conf_current c)" "cset_ok (conf_previous c)" "tracker_ok t"
  shows "tracker_ok (set_configuration t c n)"
proof -
  note f = set_configuration_fields[OF assms(1,2), of t n]
  have "fp_id p = i" if "(i, p) \<in> set (tr_progress (set_configuration t c n))" for i p
  proof -
    have "tracker_find (set_configuration t c n) i = Some p"
      using that f(1) by (simp add: tracker_find_def)
    moreover have "fp_id q = i" if "tracker_find t i = Some q" for q
      using that assms(3) by (auto simp: tracker_ok_def tracker_find_def dest: map_of_SomeD)
    ultimately show ?thesis using f(7)[of i]
      by (auto simp: make_progress_def split: option.splits)
  qed
  moreover have "voters (conf_current c) \<union> voters (conf_previous c) \<subseteq>
      set (cset_ids (conf_current c)) \<union> set (cset_ids (conf_previous c))"
    using voters_subset_ids by blast
  ultimately show ?thesis using f(1-6) by (auto simp: tracker_ok_def)
qed

lemma tracker_ok_empty [simp]: "tracker_ok empty_tracker"
  by (simp add: tracker_ok_def empty_tracker_def)

lemma tracker_find_set:
  "tracker_find (tracker_set t d p) i =
     (if i = d \<and> tracker_find t i \<noteq> None then Some p else tracker_find t i)"
  by (auto simp: tracker_find_def tracker_set_def map_of_alist_set map_of_eq_None_iff)

lemma tracker_set_keys [simp]:
  "map fst (tr_progress (tracker_set t d p)) = map fst (tr_progress t)"
  "tr_current_voters (tracker_set t d p) = tr_current_voters t"
  "tr_previous_voters (tracker_set t d p) = tr_previous_voters t"
  by (simp_all add: tracker_set_def)

lemma tracker_ok_set:
  assumes "tracker_ok t" "fp_id p = d"
  shows "tracker_ok (tracker_set t d p)"
proof -
  have "fst ` set (tr_progress (tracker_set t d p)) = fst ` set (tr_progress t)"
    by (metis set_map tracker_set_keys(1))
  moreover have "fp_id q = i" if "(i, q) \<in> set (tr_progress (tracker_set t d p))" for i q
    using that set_alist_set_subset[of d p "tr_progress t"] assms by (auto simp: tracker_ok_def tracker_set_def)
  ultimately show ?thesis using assms(1) by (auto simp: tracker_ok_def)
qed

section \<open>Properties\<close>

text \<open>C4: The commit index the leader computes is the greatest one that a quorum holds: \<open>committed\<close> never
  goes back, its result is the previous index or an index that more than half of the voters of the
  current configuration, and of the previous one when the configuration is joint, have reached, and no
  greater index has that. It holds for match indexes and for read barriers alike.\<close>

theorem committed_greatest:
  assumes "tracker_ok t"
  shows "(\<forall>prev. let c = committed_idx t prev in
      prev \<le> c \<and> (c = prev \<or> quorum_acked fp_match_idx t c) \<and> (\<forall>i > c. \<not> quorum_acked fp_match_idx t i)) \<and>
    (\<forall>prev. let c = committed_read t prev in
      prev \<le> c \<and> (c = prev \<or> quorum_acked fp_max_acked_read t c) \<and> (\<forall>i > c. \<not> quorum_acked fp_max_acked_read t i))"
  using committed_spec[OF assms] unfolding committed_idx_def committed_read_def Let_def by blast

definition ex_tracker :: tracker where
  "ex_tracker = \<lparr>tr_progress = [(1, (make_progress 1 5)\<lparr>fp_match_idx := 4\<rparr>),
     (2, (make_progress 2 5)\<lparr>fp_match_idx := 3\<rparr>), (3, make_progress 3 5)],
     tr_current_voters = [1, 2, 3], tr_previous_voters = []\<rparr>"

lemma committed_greatest_witness:
  "tracker_ok ex_tracker \<and> committed_idx ex_tracker 0 = 3 \<and> quorum_acked fp_match_idx ex_tracker 3"
proof -
  have ok: "tracker_ok ex_tracker" by (simp add: tracker_ok_def ex_tracker_def make_progress_def)
  have "committed_idx ex_tracker 0 = 3"
    by (simp add: committed_idx_def committed_def ex_tracker_def make_progress_def push_voter_def mv_push_back_def
      make_match_vector_def mv_committed_def mv_commit_idx_def)
  with committed_greatest[OF ok] ok show ?thesis by (auto simp: Let_def dest!: spec[of _ 0])
qed

text \<open>C12: Switching configurations. \<open>set_configuration\<close> leaves in the tracker exactly the members of the
  new configuration (both halves of a joint one), the progress of every member that was tracked is kept
  but for its voting flag, every new member starts at the given next index with nothing matched, and
  the two sets of voters are those of the two halves.\<close>

theorem set_configuration_correct:
  assumes "cset_ok (conf_current c)" "cset_ok (conf_previous c)" "tracker_ok t"
  shows "let t' = set_configuration t c n in tracker_ok t' \<and>
    {i. tracker_find t' i \<noteq> None} = set (cset_ids (conf_current c)) \<union> set (cset_ids (conf_previous c)) \<and>
    (\<forall>i p. tracker_find t' i = Some p \<longrightarrow>
       (case tracker_find t i of
          Some q \<Rightarrow> p = q\<lparr>fp_can_vote := fp_can_vote p\<rparr>
        | None \<Rightarrow> p = (make_progress i n)\<lparr>fp_can_vote := fp_can_vote p\<rparr>)) \<and>
    set (tr_current_voters t') = voters (conf_current c) \<and>
    set (tr_previous_voters t') = voters (conf_previous c)"
proof -
  note f = set_configuration_fields[OF assms(1,2), of t n]
  have "{i. tracker_find (set_configuration t c n) i \<noteq> None} = fst ` set (tr_progress (set_configuration t c n))"
    by (auto simp: tracker_find_def map_of_eq_None_iff simp del: not_None_eq)
  moreover have "case tracker_find t i of Some q \<Rightarrow> p = q\<lparr>fp_can_vote := fp_can_vote p\<rparr>
        | None \<Rightarrow> p = (make_progress i n)\<lparr>fp_can_vote := fp_can_vote p\<rparr>"
    if "tracker_find (set_configuration t c n) i = Some p" for i p
    using that f(7)[of i] by (auto split: option.splits)
  ultimately show ?thesis
    using f(2,3,5) tracker_ok_set_configuration[OF assms] by (simp add: Let_def)
qed

lemma set_configuration_correct_witness:
  "tracker_ok (set_configuration ex_tracker ex_conf 9) \<and>
   {i. tracker_find (set_configuration ex_tracker ex_conf 9) i \<noteq> None} = {1, 2}"
  using set_configuration_correct[of ex_conf ex_tracker 9]
  by (auto simp: Let_def ex_conf_def cset_ok_def cset_ids_def ex_member_def tracker_ok_def ex_tracker_def make_progress_def)

end
