(* ===== verification/Raft_Votes.thy ===== *)
theory Raft_Votes
  imports Raft_Config
begin

text \<open>
  The candidate's count of votes (\<open>src/raft/tracker.hh\<close> and \<open>tracker.cc\<close>): one \<open>election_tracker\<close> per
  half of the configuration, and \<open>votes\<close> over both.
\<close>

section \<open>Model\<close>

datatype vote_result = UNKNOWN | WON | LOST

record election_tracker =
  et_suffrage :: "server_id list"
  et_responded :: "server_id list"
  et_granted :: nat

definition make_election_tracker :: "config_member_set \<Rightarrow> election_tracker" where
  "make_election_tracker configuration =
     \<lparr>et_suffrage =
        fold (\<lambda>s acc. if cm_can_vote s then List.insert (member_id s) acc else acc) configuration [],
      et_responded = [], et_granted = 0\<rparr>"

definition et_register_vote :: "election_tracker \<Rightarrow> server_id \<Rightarrow> bool \<Rightarrow> bool \<times> election_tracker" where
  "et_register_vote et src granted =
     (if \<not> List.member (et_suffrage et) src then (False, et)
      else if \<not> List.member (et_responded et) src
      then (True, et\<lparr>et_responded := List.insert src (et_responded et),
                     et_granted := et_granted et + of_bool granted\<rparr>)
      else (True, et))"

definition et_tally_votes :: "election_tracker \<Rightarrow> vote_result result" where
  "et_tally_votes et =
     (let quorum = length (et_suffrage et) div 2 + 1
      in if et_granted et \<ge> quorum then Inr WON
         else bindE (assertE (length (et_responded et) \<le> length (et_suffrage et))) (\<lambda>_.
              let unknown = length (et_suffrage et) - length (et_responded et)
              in Inr (if et_granted et + unknown \<ge> quorum then UNKNOWN else LOST)))"

text \<open>\<open>server_address_set\<close> compares server ids only, as \<open>config_member_set\<close> does.\<close>

definition aset_insert :: "server_address list \<Rightarrow> server_address \<Rightarrow> server_address list" where
  "aset_insert as a = (if addr_id a \<in> addr_id ` set as then as else as @ [a])"

record votes =
  v_voters :: "server_address list"
  v_current :: election_tracker
  v_previous :: "election_tracker option"

definition make_votes :: "configuration \<Rightarrow> votes" where
  "make_votes configuration =
     \<lparr>v_voters = fold (\<lambda>srv acc. if cm_can_vote srv then aset_insert acc (cm_addr srv) else acc)
        (conf_previous configuration @ conf_current configuration) [],
      v_current = make_election_tracker (conf_current configuration),
      v_previous = (if is_joint configuration
                    then Some (make_election_tracker (conf_previous configuration)) else None)\<rparr>"

text \<open>An unregistered vote is only logged.\<close>

definition register_vote :: "votes \<Rightarrow> server_id \<Rightarrow> bool \<Rightarrow> votes" where
  "register_vote v src granted =
     v\<lparr>v_current := snd (et_register_vote (v_current v) src granted),
       v_previous := map_option (\<lambda>p. snd (et_register_vote p src granted)) (v_previous v)\<rparr>"

definition tally_votes :: "votes \<Rightarrow> vote_result result" where
  "tally_votes v =
     (case v_previous v of
        Some p \<Rightarrow> bindE (et_tally_votes p) (\<lambda>previous_result.
                   if previous_result \<noteq> WON then Inr previous_result else et_tally_votes (v_current v))
      | None \<Rightarrow> et_tally_votes (v_current v))"

section \<open>Counting\<close>

text \<open>
  The replies are a list of pairs (sender, granted) in the order of arrival. Only the first reply of a
  sender counts: \<open>map_of replies s\<close> is it.
\<close>

definition granted_by :: "(server_id \<times> bool) list \<Rightarrow> server_id set" where
  "granted_by rs = {s. map_of rs s = Some True}"

definition refused_by :: "(server_id \<times> bool) list \<Rightarrow> server_id set" where
  "refused_by rs = {s. map_of rs s = Some False}"

definition et_run :: "(server_id \<times> bool) list \<Rightarrow> election_tracker \<Rightarrow> election_tracker" where
  "et_run rs et = fold (\<lambda>(s, g) et. snd (et_register_vote et s g)) rs et"

definition votes_run :: "(server_id \<times> bool) list \<Rightarrow> votes \<Rightarrow> votes" where
  "votes_run rs v = fold (\<lambda>(s, g) v. register_vote v s g) rs v"

definition et_ok :: "election_tracker \<Rightarrow> bool" where
  "et_ok et \<longleftrightarrow> distinct (et_suffrage et) \<and> distinct (et_responded et) \<and>
     set (et_responded et) \<subseteq> set (et_suffrage et) \<and> et_granted et \<le> length (et_responded et)"

lemma suffrage_voters:
  "set (et_suffrage (make_election_tracker c)) = voters c"
  "distinct (et_suffrage (make_election_tracker c))"
proof -
  let ?f = "fold (\<lambda>s acc. if cm_can_vote s then List.insert (member_id s) acc else acc)"
  have "set (?f c acc) = voters c \<union> set acc" for acc
    by (induction c arbitrary: acc) (auto simp: voters_Cons)
  moreover have "distinct acc \<Longrightarrow> distinct (?f c acc)" for acc
    by (induction c arbitrary: acc) auto
  ultimately show "set (et_suffrage (make_election_tracker c)) = voters c"
    "distinct (et_suffrage (make_election_tracker c))"
    by (auto simp: make_election_tracker_def)
qed

lemma et_ok_make [simp]: "et_ok (make_election_tracker c)"
  using suffrage_voters(2)[of c] by (simp add: et_ok_def) (simp add: make_election_tracker_def)

lemma et_ok_register:
  "et_ok et \<Longrightarrow> et_ok (snd (et_register_vote et s g))"
  "et_suffrage (snd (et_register_vote et s g)) = et_suffrage et"
  by (auto simp: et_ok_def et_register_vote_def)

lemma et_tally_total:
  assumes "et_ok et"
  shows "\<exists>r. et_tally_votes et = Inr r"
proof -
  have "length (et_responded et) \<le> length (et_suffrage et)"
    using assms by (metis et_ok_def List.finite_set card_mono distinct_card)
  then show ?thesis by (auto simp: et_tally_votes_def Let_def)
qed

text \<open>The state of a tracker in terms of the replies it has seen.\<close>

definition et_counts :: "election_tracker \<Rightarrow> (server_id \<times> bool) list \<Rightarrow> bool" where
  "et_counts et rs \<longleftrightarrow> et_ok et \<and> set (et_responded et) = fst ` set rs \<inter> set (et_suffrage et) \<and>
     et_granted et = card (granted_by rs \<inter> set (et_suffrage et))"

lemma map_of_snoc:
  "map_of (rs @ [(s, g)]) x = (if map_of rs x = None \<and> x = s then Some g else map_of rs x)"
  by (auto simp: map_add_def split: option.splits)

lemma granted_by_snoc:
  "granted_by (rs @ [(s, g)]) = (if s \<notin> fst ` set rs \<and> g then insert s (granted_by rs) else granted_by rs)"
  unfolding granted_by_def map_of_snoc by (auto simp: map_of_eq_None_iff[symmetric])

lemma granted_by_subset: "granted_by rs \<subseteq> fst ` set rs"
  by (auto simp: granted_by_def dest: map_of_SomeD simp: rev_image_eqI)

lemma et_counts_register:
  assumes "et_counts et rs"
  shows "et_counts (snd (et_register_vote et s g)) (rs @ [(s, g)])"
proof -
  let ?S = "set (et_suffrage et)"
  have fin: "finite (granted_by rs \<inter> ?S)" by simp
  have new: "s \<notin> granted_by rs" if "s \<notin> fst ` set rs" using that granted_by_subset by blast
  have resp: "s \<in> set (et_responded et) \<longleftrightarrow> s \<in> fst ` set rs" if "s \<in> ?S"
    using assms that by (auto simp: et_counts_def)
  have ok: "et_ok (snd (et_register_vote et s g))" using assms et_ok_register(1) by (auto simp: et_counts_def)
  show ?thesis
  proof (cases "s \<in> ?S")
    case False
    then show ?thesis using assms ok
      by (auto simp: et_counts_def et_register_vote_def granted_by_snoc)
  next
    case S: True
    show ?thesis
    proof (cases "s \<in> fst ` set rs")
      case True
      then show ?thesis using assms ok resp[OF S] S
        by (auto simp: et_counts_def et_register_vote_def granted_by_snoc)
    next
      case False
      have "card (insert s (granted_by rs) \<inter> ?S) = card (granted_by rs \<inter> ?S) + 1"
        using S new[OF False] by (simp add: Int_insert_left)
      then show ?thesis using assms ok resp[OF S] S False
        by (auto simp: et_counts_def et_register_vote_def granted_by_snoc)
    qed
  qed
qed

lemma et_run_counts: "et_counts (et_run rs (make_election_tracker c)) rs"
proof (induction rs rule: rev_induct)
  case Nil
  have "et_ok (make_election_tracker c)" by simp
  then show ?case by (simp add: et_run_def et_counts_def) (simp add: make_election_tracker_def granted_by_def)
next
  case (snoc r rs)
  then show ?case using et_counts_register[OF snoc, of "fst r" "snd r"] by (simp add: et_run_def split_beta)
qed

lemma et_run_suffrage: "et_suffrage (et_run rs et) = et_suffrage et"
  by (induction rs arbitrary: et) (auto simp: et_run_def et_ok_register(2))

lemma run_Cons:
  "et_run [] et = et" "et_run (r # rs) et = et_run rs (snd (et_register_vote et (fst r) (snd r)))"
  "votes_run [] v = v" "votes_run (r # rs) v = votes_run rs (register_vote v (fst r) (snd r))"
  by (simp_all add: et_run_def votes_run_def split_beta)

lemma votes_run_fields:
  "v_current (votes_run rs v) = et_run rs (v_current v)"
  "v_previous (votes_run rs v) = map_option (et_run rs) (v_previous v)"
proof -
  show "v_current (votes_run rs v) = et_run rs (v_current v)"
    by (induction rs arbitrary: v) (simp_all add: run_Cons register_vote_def)
  show "v_previous (votes_run rs v) = map_option (et_run rs) (v_previous v)"
    by (induction rs arbitrary: v; case_tac "v_previous v") (simp_all add: run_Cons register_vote_def)
qed

text \<open>The outcome of one half of the election.\<close>

definition half_outcome :: "server_id set \<Rightarrow> (server_id \<times> bool) list \<Rightarrow> vote_result" where
  "half_outcome V rs = (if majority V (granted_by rs) then WON
     else if majority V (- refused_by rs) then UNKNOWN else LOST)"

lemma et_tally_outcome:
  assumes "et_counts et rs"
  shows "et_tally_votes et = Inr (half_outcome (set (et_suffrage et)) rs)"
proof -
  let ?V = "set (et_suffrage et)"
  have len: "length (et_suffrage et) = card ?V" "length (et_responded et) = card (fst ` set rs \<inter> ?V)"
    using assms by (metis et_counts_def et_ok_def distinct_card)+
  have le: "card (fst ` set rs \<inter> ?V) \<le> card ?V" by (simp add: card_mono)
  have "fst ` set rs \<inter> ?V = (granted_by rs \<inter> ?V) \<union> (refused_by rs \<inter> ?V)"
  proof -
    have "s \<in> fst ` set rs \<longleftrightarrow> map_of rs s = Some True \<or> map_of rs s = Some False" for s
      by (metis (full_types) map_of_eq_None_iff not_None_eq option.distinct(1))
    then show ?thesis by (auto simp: granted_by_def refused_by_def)
  qed
  moreover have "(granted_by rs \<inter> ?V) \<inter> (refused_by rs \<inter> ?V) = {}" by (auto simp: granted_by_def refused_by_def)
  ultimately have split: "card (fst ` set rs \<inter> ?V) = card (granted_by rs \<inter> ?V) + card (refused_by rs \<inter> ?V)"
    by (simp add: card_Un_disjoint)
  have "card (- refused_by rs \<inter> ?V) = card ?V - card (refused_by rs \<inter> ?V)"
  proof -
    have "- refused_by rs \<inter> ?V = ?V - (refused_by rs \<inter> ?V)" by auto
    then show ?thesis by (simp add: card_Diff_subset)
  qed
  then have "et_granted et + (length (et_suffrage et) - length (et_responded et)) = card (- refused_by rs \<inter> ?V)"
    using assms split le by (simp add: et_counts_def len)
  then show ?thesis using assms le
    by (auto simp: et_tally_votes_def half_outcome_def majority_def et_counts_def len Let_def)
qed

lemma tally_votes_outcome:
  "tally_votes (votes_run rs (make_votes c)) =
     Inr (let p = half_outcome (voters (conf_previous c)) rs
          in if is_joint c \<and> p \<noteq> WON then p else half_outcome (voters (conf_current c)) rs)"
  using et_tally_outcome[OF et_run_counts[of rs "conf_current c"]]
    et_tally_outcome[OF et_run_counts[of rs "conf_previous c"]]
  by (simp add: tally_votes_def votes_run_fields make_votes_def et_run_suffrage suffrage_voters Let_def)

lemma granted_by_extend:
  "granted_by (rs @ rs') \<subseteq> - refused_by rs"
  by (auto simp: granted_by_def refused_by_def map_add_def split: option.splits)

lemma granted_by_winnable:
  assumes "finite V"
  shows "\<exists>rs'. - refused_by rs \<inter> V \<subseteq> granted_by (rs @ rs')"
proof -
  obtain vs where "set vs = V" using finite_list[OF assms] by blast
  then have "map_of (map (\<lambda>s. (s, True)) vs) s = Some True" if "s \<in> V" for s
    using that by (induction vs) (auto simp: map_of_map_restrict)
  then show ?thesis
    by (intro exI[of _ "map (\<lambda>s. (s, True)) vs"])
       (auto simp: granted_by_def refused_by_def map_add_def split: option.splits)
qed

section \<open>Properties\<close>

text \<open>C13: The outcome of an election, for replies in any order, repeated or from servers without a vote:
  the tally never fails; it is \<open>WON\<close> exactly if the servers whose first reply grants the vote are a quorum
  of the configuration, a majority of each half when it is joint; once it is \<open>LOST\<close> no further replies can
  make a quorum. In a simple configuration it is \<open>UNKNOWN\<close> only while some further replies can. In a joint one the old
  half is counted first, so \<open>UNKNOWN\<close> means that the old half can still be won, and, once it is, that
  further replies can make a quorum of both; while the old half is open the new one may be lost already.\<close>

theorem tally_votes_correct:
  "\<exists>r. tally_votes (votes_run rs (make_votes c)) = Inr r \<and>
     (r = WON \<longleftrightarrow> conf_quorum c (granted_by rs)) \<and>
     (r = LOST \<longrightarrow> (\<forall>rs'. \<not> conf_quorum c (granted_by (rs @ rs')))) \<and>
     (r = UNKNOWN \<and> \<not> is_joint c \<longrightarrow> (\<exists>rs'. conf_quorum c (granted_by (rs @ rs')))) \<and>
     (r = UNKNOWN \<and> is_joint c \<longrightarrow> (\<exists>rs'. majority (voters (conf_previous c)) (granted_by (rs @ rs'))) \<and>
        (majority (voters (conf_previous c)) (granted_by rs) \<longrightarrow> (\<exists>rs'. conf_quorum c (granted_by (rs @ rs')))))"
proof -
  have lost: "\<not> majority V (granted_by (rs @ rs'))" if "half_outcome V rs = LOST" "finite V" for V rs'
    using that majority_mono[OF that(2) _ granted_by_extend] by (auto simp: half_outcome_def split: if_splits)
  have unknown: "\<exists>rs'. majority V (granted_by (rs @ rs'))" if u: "half_outcome V rs = UNKNOWN" and f: "finite V" for V
  proof -
    obtain rs' where "- refused_by rs \<inter> V \<subseteq> granted_by (rs @ rs')" using granted_by_winnable[OF f] by blast
    moreover have "majority V (- refused_by rs \<inter> V)"
      using u by (auto simp: half_outcome_def majority_def split: if_splits)
    ultimately show ?thesis using majority_mono[OF f] by blast
  qed
  have won: "half_outcome V rs = WON \<longleftrightarrow> majority V (granted_by rs)" for V
    by (simp add: half_outcome_def)
  have keep: "majority (voters ms) (granted_by rs) \<Longrightarrow> majority (voters ms) (granted_by (rs @ rs'))" for ms rs'
    by (rule majority_mono[OF finite_voters]) (auto simp: granted_by_def map_add_def split: option.splits)
  show ?thesis
    using won lost[OF _ finite_voters] unknown[OF _ finite_voters, of "conf_current c"] unknown[OF _ finite_voters, of "conf_previous c"]
      keep[of "conf_previous c"]
    by (auto simp: tally_votes_outcome conf_quorum_def Let_def)
qed

lemma tally_votes_correct_witness:
  "\<exists>r. tally_votes (votes_run [(1, True), (1, False)] (make_votes ex_conf)) = Inr r \<and>
     (r = WON \<longleftrightarrow> conf_quorum ex_conf (granted_by [(1, True), (1, False)]))"
  using tally_votes_correct[of "[(1, True), (1, False)]" ex_conf] by blast

text \<open>C3: Election safety at the level of the count: let every server cast at most one ballot
  (\<open>ballot s\<close> is the candidate it voted for), and let two candidates each see a tally of \<open>WON\<close> over replies
  that only report ballots cast for them. If they counted in the same configuration, or one of them in a
  simple configuration and the other in the joint configuration that \<open>enter_joint\<close> makes of it, or one in a joint
  configuration and the other in the one that \<open>leave_joint\<close> makes of it, they are the same candidate.\<close>

theorem winners_agree:
  assumes "tally_votes (votes_run rs1 (make_votes c1)) = Inr WON"
    "tally_votes (votes_run rs2 (make_votes c2)) = Inr WON"
    "granted_by rs1 \<subseteq> {s. ballot s = Some a}" "granted_by rs2 \<subseteq> {s. ballot s = Some b}"
    "c2 = c1 \<or> (\<not> is_joint c1 \<and> conf_current c1 \<noteq> [] \<and> (\<exists>new. enter_joint c1 new = Inr c2)) \<or> leave_joint c1 = Inr c2"
  shows "a = b"
proof -
  have won: "conf_quorum c (granted_by rs)" if "tally_votes (votes_run rs (make_votes c)) = Inr WON" for rs c
    using that by (auto simp: tally_votes_outcome conf_quorum_def half_outcome_def Let_def split: if_splits)
  have q: "conf_quorum c1 {s. ballot s = Some a}" "conf_quorum c2 {s. ballot s = Some b}"
    using won[OF assms(1)] won[OF assms(2)] assms(3,4) conf_quorum_mono by blast+
  consider "c2 = c1" | new where "c2 = \<lparr>conf_current = new, conf_previous = conf_current c1\<rparr>" "\<not> is_joint c1" "conf_current c1 \<noteq> []"
    | "conf_current c2 = conf_current c1"
    using assms(5) by (auto simp: enter_joint_def leave_joint_def split: if_splits)
  then show ?thesis
  proof cases
    case 1 then show ?thesis using same_conf.decisions_agree[OF q(1)] q(2) by simp
  next
    case 2
    then have "conf_current c1 \<noteq> [] \<and> majority (voters (conf_current c1)) {s. ballot s = Some a}"
      using q(1) by (simp add: conf_quorum_def)
    then show ?thesis using joint_half.decisions_agree[OF q(2)[unfolded 2(1)]] by blast
  next
    case 3
    then show ?thesis
      using majorities_overlap[of "voters (conf_current c1)" "{s. ballot s = Some a}" "{s. ballot s = Some b}"] q
      by (auto simp: conf_quorum_def)
  qed
qed

definition ex_ballot :: "server_id \<Rightarrow> nat option" where
  "ex_ballot s = Some 7"

lemma winners_agree_witness:
  "{b. granted_by [(2, True), (1, True)] \<subseteq> {s. ex_ballot s = Some b}} = {7} \<and>
   tally_votes (votes_run [(1, True), (2, True)] (make_votes ex_conf)) = Inr WON"
proof -
  have won: "tally_votes (votes_run [(1, True), (2, True)] (make_votes ex_conf)) = Inr WON"
    "tally_votes (votes_run [(2, True), (1, True)] (make_votes ex_conf)) = Inr WON"
    by (simp_all add: run_Cons make_votes_def ex_conf_def is_joint_def make_election_tracker_def ex_member_def
      register_vote_def et_register_vote_def tally_votes_def et_tally_votes_def)
  have "b = 7" if "granted_by [(2, True), (1, True)] \<subseteq> {s. ex_ballot s = Some b}" for b
    by (rule winners_agree[OF won _ that, symmetric]) (auto simp: ex_ballot_def)
  moreover have "granted_by [(2, True), (1, True)] \<subseteq> {s. ex_ballot s = Some 7}" by (simp add: ex_ballot_def)
  ultimately show ?thesis using won(1) by blast
qed

end
