(* ===== verification/Raft_Fsm.thy ===== *)
theory Raft_Fsm
  imports Raft_Log_Matching Raft_Tracker Raft_Votes
begin

text \<open>
  The protocol state machine (\<open>src/raft/fsm.hh\<close> and \<open>fsm.cc\<close>). Every method of \<open>class fsm\<close> that reads or
  changes the state is one definition from a state to a result: the new state, or the assertion or
  exception that ended it.

  What is outside the source tree enters as follows. The Seastar semaphore that limits the log is the
  list of the calls made on it. The condition variable \<open>_sm_events\<close> is the number of signals. The
  failure detector is the argument \<open>alive\<close> of \<open>tick\<close>. The random engine is the stream \<open>f_random\<close>, of which
  \<open>uniform_int_distribution\<close> takes the next value and maps it into its range. Log messages have no
  counterpart, and the error injection point in \<open>add_entry\<close>, which only test builds enable, is left out.
\<close>

section \<open>State\<close>

record fsm_config =
  cfg_append_request_threshold :: nat
  cfg_max_log_size :: nat
  cfg_enable_prevoting :: bool

record applied_snapshot =
  as_snp :: snapshot_descriptor
  as_is_local :: bool
  as_preserved_log_entries :: nat

record fsm_output =
  out_term_and_vote :: "(term_t \<times> server_id) option"
  out_log_entries :: "log_entry list"
  out_messages :: "(server_id \<times> rpc_message) list"
  out_committed :: "log_entry list"
  out_snp :: "applied_snapshot option"
  out_snps_to_drop :: "snapshot_id list"
  out_configuration :: "config_member_set option"
  out_max_read_id_with_quorum :: "read_id option"
  out_state_changed :: bool
  out_abort_leadership_transfer :: bool

definition empty_output :: fsm_output where
  "empty_output = \<lparr>out_term_and_vote = None, out_log_entries = [], out_messages = [], out_committed = [],
     out_snp = None, out_snps_to_drop = [], out_configuration = None, out_max_read_id_with_quorum = None,
     out_state_changed = False, out_abort_leadership_transfer = False\<rparr>"

datatype semaphore_call = Consume nat | Signal nat

type_synonym time_point = int

record leader_state =
  ls_tracker :: tracker
  ls_log_limiter :: "semaphore_call list"
  ls_stepdown :: "time_point option"
  ls_timeout_now_sent :: "server_id option"
  ls_last_read_id :: read_id
  ls_last_read_id_changed :: bool
  ls_max_read_id_with_quorum :: read_id

definition make_leader :: leader_state where
  "make_leader = \<lparr>ls_tracker = empty_tracker, ls_log_limiter = [], ls_stepdown = None,
     ls_timeout_now_sent = None, ls_last_read_id = 0, ls_last_read_id_changed = False,
     ls_max_read_id_with_quorum = 0\<rparr>"

datatype fsm_state = Follower server_id | Candidate votes bool | Leader leader_state

record last_observed_state =
  ob_current_term :: term_t
  ob_voted_for :: server_id
  ob_commit_idx :: index_t
  ob_last_conf_idx :: index_t
  ob_last_term :: term_t
  ob_abort_leadership_transfer :: bool

record fsm =
  f_my_id :: server_id
  f_state :: fsm_state
  f_current_term :: term_t
  f_voted_for :: server_id
  f_commit_idx :: index_t
  f_log :: raft_log
  f_config :: fsm_config
  f_abort_leadership_transfer :: bool
  f_ping_leader :: bool
  f_observed :: last_observed_state
  f_output :: fsm_output
  f_clock :: time_point
  f_last_election_time :: time_point
  f_randomized_election_timeout :: int
  f_messages :: "(server_id \<times> rpc_message) list"
  f_sm_events :: nat
  f_random :: "nat \<Rightarrow> nat"

definition ELECTION_TIMEOUT :: int where
  "ELECTION_TIMEOUT = 10"

definition clock_advance :: "time_point \<Rightarrow> time_point" where
  "clock_advance now = now + 1"

section \<open>Helpers\<close>

definition is_leader :: "fsm \<Rightarrow> bool" where
  "is_leader f = (case f_state f of Leader _ \<Rightarrow> True | _ \<Rightarrow> False)"

definition is_follower :: "fsm \<Rightarrow> bool" where
  "is_follower f = (case f_state f of Follower _ \<Rightarrow> True | _ \<Rightarrow> False)"

definition is_candidate :: "fsm \<Rightarrow> bool" where
  "is_candidate f = (case f_state f of Candidate _ _ \<Rightarrow> True | _ \<Rightarrow> False)"

definition is_prevote_candidate :: "fsm \<Rightarrow> bool" where
  "is_prevote_candidate f = (case f_state f of Candidate _ p \<Rightarrow> p | _ \<Rightarrow> False)"

text \<open>\<open>std::get<leader>(_state)\<close> and assignment through the reference it returns.\<close>

definition get_leader_state :: "fsm \<Rightarrow> leader_state result" where
  "get_leader_state f = (case f_state f of Leader ls \<Rightarrow> Inr ls | _ \<Rightarrow> Inl Bad_variant)"

definition set_leader_state :: "fsm \<Rightarrow> leader_state \<Rightarrow> fsm" where
  "set_leader_state f ls = f\<lparr>f_state := Leader ls\<rparr>"

definition current_leader :: "fsm \<Rightarrow> server_id" where
  "current_leader f = (case f_state f of Leader _ \<Rightarrow> f_my_id f | Candidate _ _ \<Rightarrow> 0 | Follower l \<Rightarrow> l)"

definition ping_leader :: "fsm \<Rightarrow> fsm result" where
  "ping_leader f = bindE (assertE (current_leader f = 0)) (\<lambda>_. Inr (f\<lparr>f_ping_leader := True\<rparr>))"

definition check_is_leader :: "fsm \<Rightarrow> unit result" where
  "check_is_leader f = (if \<not> is_leader f then Inl (Not_a_leader (current_leader f)) else Inr ())"

definition election_elapsed :: "fsm \<Rightarrow> int" where
  "election_elapsed f = f_clock f - f_last_election_time f"

definition is_past_election_timeout :: "fsm \<Rightarrow> bool" where
  "is_past_election_timeout f \<longleftrightarrow> election_elapsed f \<ge> f_randomized_election_timeout f"

definition signal_events :: "fsm \<Rightarrow> fsm" where
  "signal_events f = f\<lparr>f_sm_events := Suc (f_sm_events f)\<rparr>"

definition send_to :: "fsm \<Rightarrow> server_id \<Rightarrow> rpc_message \<Rightarrow> fsm" where
  "send_to f dst m = signal_events (f\<lparr>f_messages := f_messages f @ [(dst, m)]\<rparr>)"

definition observed_is_equal :: "last_observed_state \<Rightarrow> fsm \<Rightarrow> bool" where
  "observed_is_equal ob f \<longleftrightarrow>
     ob_current_term ob = f_current_term f \<and> ob_voted_for ob = f_voted_for f \<and>
     ob_commit_idx ob = f_commit_idx f \<and>
     ob_last_conf_idx ob = last_conf_idx (f_log f) \<and>
     ob_last_term ob = last_term (f_log f) \<and>
     ob_abort_leadership_transfer ob = f_abort_leadership_transfer f"

definition observed_advance :: "fsm \<Rightarrow> last_observed_state" where
  "observed_advance f =
     \<lparr>ob_current_term = f_current_term f, ob_voted_for = f_voted_for f, ob_commit_idx = f_commit_idx f,
      ob_last_conf_idx = last_conf_idx (f_log f), ob_last_term = last_term (f_log f),
      ob_abort_leadership_transfer = f_abort_leadership_transfer f\<rparr>"

definition fsm_get_configuration :: "fsm \<Rightarrow> configuration result" where
  "fsm_get_configuration f = get_configuration (f_log f)"

section \<open>Entries\<close>

text \<open>\<open>leader_state().tracker.set_configuration(_log.get_configuration(), _log.last_idx())\<close>\<close>

definition track_configuration :: "fsm \<Rightarrow> fsm result" where
  "track_configuration f =
     bindE (get_leader_state f) (\<lambda>ls.
     bindE (fsm_get_configuration f) (\<lambda>conf.
     Inr (set_leader_state f
       (ls\<lparr>ls_tracker := set_configuration (ls_tracker ls) conf (last_idx (f_log f))\<rparr>))))"

definition check_conf_change :: "fsm \<Rightarrow> entry_data \<Rightarrow> entry_data result" where
  "check_conf_change f cmd =
     (case cmd of
        Configuration c \<Rightarrow>
          bindE (check_configuration (conf_current c)) (\<lambda>_.
          bindE (fsm_get_configuration f) (\<lambda>conf.
          if last_conf_idx (f_log f) > f_commit_idx f \<or> is_joint conf then Inl Conf_change_in_progress
          else bindE (enter_joint conf (conf_current c)) (\<lambda>tmp. Inr (Configuration tmp))))
      | _ \<Rightarrow> Inr cmd)"

definition add_entry :: "fsm \<Rightarrow> entry_data \<Rightarrow> (log_entry \<times> fsm) result" where
  "add_entry f cmd =
     bindE (check_is_leader f) (\<lambda>_.
     bindE (get_leader_state f) (\<lambda>ls.
     if ls_stepdown ls \<noteq> None then Inl (Not_a_leader 0)
     else
       bindE (check_conf_change f cmd) (\<lambda>cmd'.
       let e = \<lparr>le_term = f_current_term f, le_idx = next_idx (f_log f), le_data = cmd'\<rparr>;
           f1 = signal_events (f\<lparr>f_log := emplace_back (f_log f) e\<rparr>)
       in bindE (case cmd of Configuration _ \<Rightarrow> track_configuration f1 | _ \<Rightarrow> Inr f1) (\<lambda>f2.
          bindE (log_index (f_log f2) (last_idx (f_log f2))) (\<lambda>r. Inr (r, f2))))))"

definition advance_commit_idx :: "fsm \<Rightarrow> index_t \<Rightarrow> fsm" where
  "advance_commit_idx f leader_commit_idx =
     (let new_commit_idx = min leader_commit_idx (last_idx (f_log f))
      in if new_commit_idx > f_commit_idx f
         then signal_events (f\<lparr>f_commit_idx := new_commit_idx\<rparr>)
         else f)"

section \<open>Roles and elections\<close>

definition update_current_term :: "fsm \<Rightarrow> term_t \<Rightarrow> fsm result" where
  "update_current_term f current_term =
     bindE (assertE (f_current_term f < current_term)) (\<lambda>_.
     Inr (f\<lparr>f_current_term := current_term, f_voted_for := 0\<rparr>))"

definition reset_election_timeout :: "fsm \<Rightarrow> fsm result" where
  "reset_election_timeout f =
     bindE (fsm_get_configuration f) (\<lambda>conf.
     let hi = max (nat ELECTION_TIMEOUT) (length (conf_current conf));
         draw = 1 + f_random f 0 mod hi
     in Inr (f\<lparr>f_randomized_election_timeout := ELECTION_TIMEOUT + int draw,
               f_random := (\<lambda>n. f_random f (Suc n))\<rparr>))"

definition become_leader :: "fsm \<Rightarrow> fsm result" where
  "become_leader f =
     bindE (assertE (\<not> is_leader f)) (\<lambda>_.
     let f1 = f\<lparr>f_output := (f_output f)\<lparr>out_state_changed := True\<rparr>,
                f_state := Leader (make_leader\<lparr>ls_log_limiter := [Consume (log_memory_usage (f_log f))]\<rparr>),
                f_last_election_time := f_clock f, f_ping_leader := False\<rparr>
     in bindE (add_entry f1 Dummy) (\<lambda>(_, f2). track_configuration f2))"

definition become_follower :: "fsm \<Rightarrow> server_id \<Rightarrow> fsm result" where
  "become_follower f leader =
     (if leader = f_my_id f then Inl Internal_error
      else
        let f1 = (if \<not> is_follower f then f\<lparr>f_output := (f_output f)\<lparr>out_state_changed := True\<rparr>\<rparr> else f);
            f2 = f1\<lparr>f_state := Follower leader\<rparr>
        in Inr (if leader \<noteq> 0
                then f2\<lparr>f_ping_leader := False, f_last_election_time := f_clock f2\<rparr>
                else f2))"

text \<open>The body of the loop over the voters, on the state and on the votes of the candidate.\<close>

definition solicit_vote :: "term_t \<Rightarrow> bool \<Rightarrow> bool \<Rightarrow> server_address \<Rightarrow> fsm \<times> votes \<Rightarrow> fsm \<times> votes" where
  "solicit_vote trm is_prevote is_leadership_transfer server fv =
     (let (f, v) = fv
      in if addr_id server = f_my_id f
         then (if \<not> is_prevote then f\<lparr>f_voted_for := f_my_id f\<rparr> else f,
               register_vote v (addr_id server) True)
         else (send_to f (addr_id server)
                 (VoteRequest \<lparr>vreq_current_term = trm, vreq_last_log_idx = last_idx (f_log f),
                    vreq_last_log_term = last_term (f_log f), vreq_is_prevote = is_prevote,
                    vreq_force = is_leadership_transfer\<rparr>), v))"

text \<open>Whether a server that has no vote in the current configuration may still be a candidate.\<close>

definition may_campaign :: "fsm \<Rightarrow> votes \<Rightarrow> bool result" where
  "may_campaign f v =
     (if f_my_id f \<in> addr_id ` set (v_voters v) then Inr True
      else if last_conf_idx (f_log f) \<le> f_commit_idx f then Inr False
      else bindE (get_prev_configuration (f_log f)) (\<lambda>prev_cfg.
           case prev_cfg of
             None \<Rightarrow> Inl Assertion_failed
           | Some c \<Rightarrow> Inr (conf_can_vote c (f_my_id f))))"

text \<open>
  \<open>become_candidate\<close> in three parts: entering the candidate state, asking for the votes, and the choice
  between the two. It calls itself once, from the prevote round of a server that needs no other vote, so
  what happens on a won round is an argument of \<open>campaign\<close>.
\<close>

definition enter_candidate :: "bool \<Rightarrow> fsm \<Rightarrow> (votes \<times> fsm) result" where
  "enter_candidate is_prevote f =
     (let f1 = (if \<not> is_candidate f then f\<lparr>f_output := (f_output f)\<lparr>out_state_changed := True\<rparr>\<rparr> else f)
      in bindE (fsm_get_configuration f1) (\<lambda>conf.
         bindE (reset_election_timeout (f1\<lparr>f_state := Candidate (make_votes conf) is_prevote\<rparr>)) (\<lambda>f2.
         Inr (make_votes conf, f2\<lparr>f_last_election_time := f_clock f2\<rparr>))))"

definition solicit_votes :: "(fsm \<Rightarrow> fsm result) \<Rightarrow> bool \<Rightarrow> bool \<Rightarrow> votes \<Rightarrow> fsm \<Rightarrow> fsm result" where
  "solicit_votes on_won is_prevote is_leadership_transfer v f =
     (let trm = f_current_term f + 1
      in bindE (if \<not> is_prevote then update_current_term f trm else Inr f) (\<lambda>f1.
         let (f2, v') = fold (solicit_vote trm is_prevote is_leadership_transfer) (v_voters v) (f1, v);
             f3 = f2\<lparr>f_state := Candidate v' is_prevote\<rparr>
         in bindE (tally_votes v') (\<lambda>r. if r = WON then on_won f3 else Inr f3)))"

definition campaign :: "(fsm \<Rightarrow> fsm result) \<Rightarrow> bool \<Rightarrow> bool \<Rightarrow> fsm \<Rightarrow> fsm result" where
  "campaign on_won is_prevote is_leadership_transfer f =
     bindE (enter_candidate is_prevote f) (\<lambda>(v, f1).
     bindE (may_campaign f1 v) (\<lambda>go.
     if \<not> go then become_follower f1 0
     else solicit_votes on_won is_prevote is_leadership_transfer v f1))"

definition become_candidate :: "fsm \<Rightarrow> bool \<Rightarrow> bool \<Rightarrow> fsm result" where
  "become_candidate f is_prevote is_leadership_transfer =
     (if is_prevote
      then campaign (campaign become_leader False False) True is_leadership_transfer f
      else campaign become_leader False is_leadership_transfer f)"

definition make_fsm ::
  "server_id \<Rightarrow> term_t \<Rightarrow> server_id \<Rightarrow> raft_log \<Rightarrow> index_t \<Rightarrow> fsm_config \<Rightarrow> (nat \<Rightarrow> nat) \<Rightarrow> fsm result" where
  "make_fsm my_id current_term voted_for l commit_idx config random =
     (if my_id = 0 then Inl Invalid_argument
      else
        let f0 = \<lparr>f_my_id = my_id, f_state = Follower 0, f_current_term = current_term,
              f_voted_for = voted_for, f_commit_idx = snp_idx (log_snapshot l), f_log = l,
              f_config = config, f_abort_leadership_transfer = False, f_ping_leader = False,
              f_observed = \<lparr>ob_current_term = 0, ob_voted_for = 0, ob_commit_idx = 0, ob_last_conf_idx = 0,
                ob_last_term = 0, ob_abort_leadership_transfer = False\<rparr>,
              f_output = empty_output, f_clock = 0, f_last_election_time = 0,
              f_randomized_election_timeout = ELECTION_TIMEOUT + 1, f_messages = [], f_sm_events = 0,
              f_random = random\<rparr>;
            f1 = f0\<lparr>f_observed := observed_advance f0\<rparr>;
            f2 = f1\<lparr>f_commit_idx := max (f_commit_idx f1) commit_idx\<rparr>
        in bindE (fsm_get_configuration f2) (\<lambda>conf.
           if length (conf_current conf) = 1 \<and> conf_can_vote conf my_id
           then become_candidate f2 (cfg_enable_prevoting config) False
           else reset_election_timeout f2))"

section \<open>Read barriers\<close>

definition handle_read_quorum_reply :: "fsm \<Rightarrow> server_id \<Rightarrow> read_quorum_reply \<Rightarrow> fsm result" where
  "handle_read_quorum_reply f src reply =
     bindE (assertE (is_leader f)) (\<lambda>_.
     bindE (get_leader_state f) (\<lambda>ls.
     case tracker_find (ls_tracker ls) src of
       None \<Rightarrow> Inr f
     | Some p \<Rightarrow>
         let p' = p\<lparr>fp_commit_idx := max (fp_commit_idx p) (rqr_commit_idx reply),
                    fp_max_acked_read := max (fp_max_acked_read p) (rqr_id reply)\<rparr>;
             ls1 = ls\<lparr>ls_tracker := tracker_set (ls_tracker ls) src p'\<rparr>;
             f1 = set_leader_state f ls1
         in if rqr_id reply \<le> ls_max_read_id_with_quorum ls1 then Inr f1
            else
              let new_committed_read = committed_read (ls_tracker ls1) (ls_max_read_id_with_quorum ls1)
              in if new_committed_read \<le> ls_max_read_id_with_quorum ls1 then Inr f1
                 else
                   let f2 = set_leader_state f1 (ls1\<lparr>ls_max_read_id_with_quorum := new_committed_read\<rparr>);
                       f3 = f2\<lparr>f_output := (f_output f2)\<lparr>out_max_read_id_with_quorum := Some new_committed_read\<rparr>\<rparr>
                   in Inr (signal_events f3)))"

definition read_quorum_to :: "read_id \<Rightarrow> server_id \<times> follower_progress \<Rightarrow> fsm \<Rightarrow> fsm result" where
  "read_quorum_to rid ip f =
     (let p = snd ip
      in if fp_can_vote p then
           if fp_id p = f_my_id f
           then handle_read_quorum_reply f (f_my_id f)
                  \<lparr>rqr_current_term = f_current_term f, rqr_commit_idx = f_commit_idx f, rqr_id = rid\<rparr>
           else Inr (send_to f (fp_id p)
                  (ReadQuorum \<lparr>rq_current_term = f_current_term f,
                     rq_leader_commit_idx = min (fp_match_idx p) (f_commit_idx f), rq_id = rid\<rparr>))
         else Inr f)"

text \<open>
  The loop reads \<open>can_vote\<close>, \<open>id\<close> and \<open>match_idx\<close> of the followers, which handling the leader's own reply
  does not change.
\<close>

definition broadcast_read_quorum :: "fsm \<Rightarrow> read_id \<Rightarrow> fsm result" where
  "broadcast_read_quorum f rid =
     bindE (get_leader_state f) (\<lambda>ls. foldE (read_quorum_to rid) (tr_progress (ls_tracker ls)) f)"

definition next_read_id :: "fsm \<Rightarrow> (read_id \<times> fsm) result" where
  "next_read_id f =
     bindE (assertE (is_leader f)) (\<lambda>_.
     bindE (get_leader_state f) (\<lambda>ls.
     let ls1 = ls\<lparr>ls_last_read_id := ls_last_read_id ls + 1, ls_last_read_id_changed := True\<rparr>
     in Inr (ls_last_read_id ls1, signal_events (set_leader_state f ls1))))"

definition start_read_barrier :: "fsm \<Rightarrow> server_id \<Rightarrow> ((read_id \<times> index_t) option \<times> fsm) result" where
  "start_read_barrier f requester =
     bindE (check_is_leader f) (\<lambda>_.
     bindE (get_leader_state f) (\<lambda>ls.
     if requester \<noteq> f_my_id f \<and> tracker_find (ls_tracker ls) requester = None then Inl Runtime_error
     else
       bindE (term_for (f_log f) (f_commit_idx f)) (\<lambda>t.
       case t of
         None \<Rightarrow> Inl Assertion_failed
       | Some term_for_commit_idx \<Rightarrow>
           if term_for_commit_idx \<noteq> f_current_term f then Inr (None, f)
           else bindE (next_read_id f) (\<lambda>(rid, f1). Inr (Some (rid, f_commit_idx f1), f1)))))"

section \<open>Leadership transfer\<close>

definition send_timeout_now :: "fsm \<Rightarrow> server_id \<Rightarrow> fsm result" where
  "send_timeout_now f srv =
     (let f1 = send_to f srv (TimeoutNow \<lparr>tnow_current_term = f_current_term f\<rparr>)
      in bindE (get_leader_state f1) (\<lambda>ls.
         let ls1 = ls\<lparr>ls_timeout_now_sent := Some srv\<rparr>;
             f2 = set_leader_state f1 ls1
         in case tracker_find (ls_tracker ls1) (f_my_id f2) of
              None \<Rightarrow> become_follower f2 0
            | Some me \<Rightarrow> if \<not> fp_can_vote me then become_follower f2 0 else Inr f2))"

definition transfer_leadership :: "fsm \<Rightarrow> int \<Rightarrow> fsm result" where
  "transfer_leadership f timeout =
     bindE (check_is_leader f) (\<lambda>_.
     bindE (get_leader_state f) (\<lambda>ls.
     bindE (fsm_get_configuration f) (\<lambda>conf.
     if voter_count (conf_current conf) = 1 \<and>
        (case tracker_find (ls_tracker ls) (f_my_id f) of None \<Rightarrow> False | Some p \<Rightarrow> fp_can_vote p)
     then Inl No_other_voting_member
     else
       let ls1 = ls\<lparr>ls_stepdown := Some (f_clock f + timeout),
                    ls_log_limiter := ls_log_limiter ls @ [Consume (cfg_max_log_size (f_config f))]\<rparr>;
           f1 = set_leader_state f ls1
       in case find (\<lambda>(_, p). fp_id p \<noteq> f_my_id f1 \<and> fp_can_vote p \<and> fp_match_idx p = last_idx (f_log f1))
                 (tr_progress (ls_tracker ls1)) of
            None \<Rightarrow> Inr f1
          | Some (_, p) \<Rightarrow> send_timeout_now f1 (fp_id p))))"

section \<open>Committing\<close>

text \<open>What \<open>maybe_commit\<close> does at its end when it has committed a configuration change.\<close>

definition rebroadcast_reads :: "fsm \<Rightarrow> fsm result" where
  "rebroadcast_reads f =
     (case f_state f of
        Leader ls \<Rightarrow> if ls_last_read_id ls \<noteq> ls_max_read_id_with_quorum ls
                     then broadcast_read_quorum f (ls_last_read_id ls) else Inr f
      | _ \<Rightarrow> Inr f)"

definition stepdown_if_removed :: "fsm \<Rightarrow> leader_state \<Rightarrow> fsm result" where
  "stepdown_if_removed f ls =
     (case tracker_find (ls_tracker ls) (f_my_id f) of
        None \<Rightarrow> transfer_leadership f 0
      | Some lp \<Rightarrow> if \<not> fp_can_vote lp then transfer_leadership f 0 else Inr f)"

definition leave_joint_entry :: "fsm \<Rightarrow> configuration \<Rightarrow> fsm result" where
  "leave_joint_entry f conf =
     bindE (leave_joint conf) (\<lambda>cfg.
     track_configuration (f\<lparr>f_log := emplace_back (f_log f)
       \<lparr>le_term = f_current_term f, le_idx = next_idx (f_log f), le_data = Configuration cfg\<rparr>\<rparr>))"

text \<open>The index to commit up to, if there is one: held by a quorum and of the current term.\<close>

definition commit_candidate :: "fsm \<Rightarrow> leader_state \<Rightarrow> index_t option result" where
  "commit_candidate f ls =
     (let new_commit_idx = committed_idx (ls_tracker ls) (f_commit_idx f)
      in if new_commit_idx \<le> f_commit_idx f then Inr None
         else bindE (log_index (f_log f) new_commit_idx) (\<lambda>e.
              if le_term e \<noteq> f_current_term f then Inr None else Inr (Some new_commit_idx)))"

function maybe_commit :: "fsm \<Rightarrow> fsm result" where
  "maybe_commit f =
     bindE (get_leader_state f) (\<lambda>ls.
     bindE (commit_candidate f ls) (\<lambda>c.
     case c of
       None \<Rightarrow> Inr f
     | Some new_commit_idx \<Rightarrow>
         let committed_conf_change =
               (f_commit_idx f < last_conf_idx (f_log f) \<and> new_commit_idx \<ge> last_conf_idx (f_log f));
             f1 = signal_events (f\<lparr>f_commit_idx := new_commit_idx\<rparr>)
         in if committed_conf_change
            then bindE (bindE (fsm_get_configuration f1) (\<lambda>conf.
                    if is_joint conf
                    then bindE (leave_joint_entry f1 conf) (\<lambda>f2. maybe_commit f2)
                    else stepdown_if_removed f1 ls)) rebroadcast_reads
            else Inr f1))"
  by pat_completeness auto

lemma leave_joint_entry_not_joint:
  assumes "leave_joint_entry f conf = Inr f2" "log_entries (f_log f) \<noteq> []"
  shows "\<exists>c. get_configuration (f_log f2) = Inr c \<and> \<not> is_joint c"
  using assms get_configuration_emplace_conf[of "f_log f"]
  by (auto simp: leave_joint_entry_def leave_joint_def track_configuration_def fsm_get_configuration_def
    set_leader_state_def is_joint_def split: if_splits)

termination maybe_commit
proof (relation "measure (\<lambda>f. case get_configuration (f_log f) of Inr c \<Rightarrow> of_bool (is_joint c) | Inl _ \<Rightarrow> 0)")
  fix f ls c new_commit_idx cc f1 conf f2
  assume c: "commit_candidate f ls = Inr c" "c = Some new_commit_idx"
    and f1: "f1 = signal_events (f\<lparr>f_commit_idx := new_commit_idx\<rparr>)"
    and conf: "fsm_get_configuration f1 = Inr conf" "is_joint conf" and f2: "leave_joint_entry f1 conf = Inr f2"
  have "log_entries (f_log f) \<noteq> []"
    using c by (auto simp: commit_candidate_def Let_def log_index_def split: if_splits)
  then have "\<exists>c. get_configuration (f_log f2) = Inr c \<and> \<not> is_joint c"
    using f2 by (intro leave_joint_entry_not_joint[OF f2]) (simp add: f1 signal_events_def)
  moreover have "get_configuration (f_log f) = Inr conf"
    using conf(1) by (simp add: fsm_get_configuration_def f1 signal_events_def)
  ultimately show "(f2, f) \<in> measure (\<lambda>f. case get_configuration (f_log f) of Inr c \<Rightarrow> of_bool (is_joint c) | Inl _ \<Rightarrow> 0)"
    using conf(2) by auto
qed simp

declare maybe_commit.simps [simp del]

definition advance_stable_idx :: "fsm \<Rightarrow> index_t \<Rightarrow> fsm result" where
  "advance_stable_idx f idx =
     bindE (stable_to (f_log f) idx) (\<lambda>l.
     let f1 = f\<lparr>f_log := l\<rparr>
     in case f_state f1 of
          Leader ls \<Rightarrow>
            (case tracker_find (ls_tracker ls) (f_my_id f1) of
               None \<Rightarrow> Inr f1
             | Some leader_progress \<Rightarrow>
                 maybe_commit (set_leader_state f1
                   (ls\<lparr>ls_tracker := tracker_set (ls_tracker ls) (f_my_id f1) (progress_accepted leader_progress idx)\<rparr>)))
        | _ \<Rightarrow> Inr f1)"

section \<open>Replication\<close>

text \<open>\<open>sizeof(server_id)\<close> is 16 and \<open>sizeof(bool)\<close> is 1; \<open>sizeof(log_entry)\<close> is the log's constant.\<close>

definition entry_size :: "nat \<Rightarrow> log_entry \<Rightarrow> nat" where
  "entry_size sizeof_entry e =
     (case le_data e of
        Command c \<Rightarrow> length c
      | Configuration c \<Rightarrow> sum_list (map (\<lambda>s. 16 + length (addr_info (cm_addr s)) + 1) (conf_current c))
      | Dummy \<Rightarrow> 0) + sizeof_entry"

text \<open>The inner loop of \<open>replicate_to\<close>: the entries of one request and the index after the last of them.\<close>

function collect_entries ::
  "raft_log \<Rightarrow> nat \<Rightarrow> bool \<Rightarrow> index_t \<Rightarrow> nat \<Rightarrow> (log_entry list \<times> index_t) result" where
  "collect_entries l threshold probe next_index sz =
     (if next_index \<le> last_idx l \<and> sz < threshold
      then bindE (log_index l next_index) (\<lambda>entry.
           if probe then Inr ([entry], next_index + 1)
           else bindE (collect_entries l threshold probe (next_index + 1) (sz + entry_size (log_sizeof_entry l) entry))
                  (\<lambda>(es, n). Inr (entry # es, n)))
      else Inr ([], next_index))"
  by pat_completeness auto
termination
  by (relation "measure (\<lambda>(l, _, _, n, _). Suc (last_idx l) - n)") auto

declare collect_entries.simps [simp del]

text \<open>
  \<open>replicate_to\<close> works on the reference to one follower's progress; nothing else of the state but the
  messages changes. \<open>replicate_to_member\<close> is the call with the reference that the tracker gives. The
  branch for a next index of 0 is only reached if the log holds an entry with index \<open>2 ^ 64 - 1\<close>, the
  wrapped predecessor, which no log in memory does.
\<close>

definition replicate_budget :: "follower_progress \<Rightarrow> bool \<Rightarrow> nat" where
  "replicate_budget p allow_empty =
     (case fp_state p of
        PROBE \<Rightarrow> of_bool (\<not> fp_probe_sent p)
      | PIPELINE \<Rightarrow> max_in_flight - fp_in_flight p
      | SNAPSHOT \<Rightarrow> 0) + of_bool allow_empty"

text \<open>One request: the entries it carries and the progress after it was queued.\<close>

definition append_request_for ::
  "fsm \<Rightarrow> follower_progress \<Rightarrow> index_t \<Rightarrow> (log_entry list \<times> follower_progress) result" where
  "append_request_for f p next_index =
     (if next_index \<noteq> 0
      then bindE (collect_entries (f_log f) (cfg_append_request_threshold (f_config f)) (fp_state p = PROBE) next_index 0)
             (\<lambda>(es, n). Inr (es, if fp_state p = PIPELINE
                                 then p\<lparr>fp_in_flight := fp_in_flight p + 1, fp_next_idx := n\<rparr> else p))
      else Inr ([], p))"

function replicate_to :: "fsm \<Rightarrow> follower_progress \<Rightarrow> bool \<Rightarrow> (fsm \<times> follower_progress) result" where
  "replicate_to f p allow_empty =
     (if \<not> can_send_to p then Inr (f, p)
      else if fp_next_idx p > last_idx (f_log f) \<and> \<not> allow_empty then Inr (f, p)
      else
        let next_index = (if fp_next_idx p > last_idx (f_log f) then 0 else fp_next_idx p);
            prev_idx = pred64 (fp_next_idx p)
        in bindE (term_for (f_log f) prev_idx) (\<lambda>prev_term.
           case prev_term of
             None \<Rightarrow>
               let snapshot = log_snapshot (f_log f)
               in Inr (send_to f (fp_id p)
                         (InstallSnapshot \<lparr>inst_current_term = f_current_term f, inst_snp = snapshot\<rparr>),
                       become_snapshot p (snp_idx snapshot))
           | Some pt \<Rightarrow>
               if fp_next_idx p = 0 then Inl Out_of_range else
               bindE (append_request_for f p next_index) (\<lambda>ep.
               let p1 = snd ep;
                   f1 = send_to f (fp_id p)
                     (AppendRequest \<lparr>areq_current_term = f_current_term f, areq_prev_log_idx = prev_idx,
                        areq_prev_log_term = pt, areq_leader_commit_idx = f_commit_idx f,
                        areq_entries = fst ep\<rparr>);
                   p2 = (if fp_state p1 = PROBE then p1\<lparr>fp_probe_sent := True\<rparr> else p1)
               in replicate_to f1 p2 False)))"
  by pat_completeness auto
termination
proof (relation "measure (\<lambda>(f, p, allow_empty). replicate_budget p allow_empty)")
  fix f p allow_empty next_index prev_idx prev_term pt ep p1 f1 p2
  assume a: "\<not> \<not> can_send_to p" "\<not> (last_idx (f_log f) < fp_next_idx p \<and> \<not> allow_empty)"
    "next_index = (if last_idx (f_log f) < fp_next_idx p then 0 else fp_next_idx p)"
    "append_request_for f p next_index = Inr ep" "p1 = snd ep"
    "p2 = (if fp_state p1 = PROBE then p1\<lparr>fp_probe_sent := True\<rparr> else p1)"
    "fp_next_idx p \<noteq> 0"
  show "((f1, p2, False), f, p, allow_empty) \<in> measure (\<lambda>(f, p, allow_empty). replicate_budget p allow_empty)"
    using a
    by (cases "fp_state p")
       (auto simp: append_request_for_def replicate_budget_def can_send_to_def max_in_flight_def split: if_splits)
qed simp

declare replicate_to.simps [simp del]

definition replicate_to_member :: "fsm \<Rightarrow> server_id \<Rightarrow> bool \<Rightarrow> fsm result" where
  "replicate_to_member f dst allow_empty =
     bindE (get_leader_state f) (\<lambda>ls.
     case tracker_find (ls_tracker ls) dst of
       None \<Rightarrow> Inr f
     | Some p \<Rightarrow> bindE (replicate_to f p allow_empty) (\<lambda>(f1, p1).
         Inr (set_leader_state f1 (ls\<lparr>ls_tracker := tracker_set (ls_tracker ls) dst p1\<rparr>))))"

definition replicate_other :: "server_id \<times> follower_progress \<Rightarrow> fsm \<Rightarrow> fsm result" where
  "replicate_other ip f = (if fp_id (snd ip) \<noteq> f_my_id f then replicate_to_member f (fst ip) False else Inr f)"

definition fsm_replicate :: "fsm \<Rightarrow> fsm result" where
  "fsm_replicate f =
     bindE (assertE (is_leader f)) (\<lambda>_.
     bindE (get_leader_state f) (\<lambda>ls. foldE replicate_other (tr_progress (ls_tracker ls)) f))"

definition update_progress :: "fsm \<Rightarrow> server_id \<Rightarrow> follower_progress \<Rightarrow> fsm result" where
  "update_progress f dst p =
     bindE (get_leader_state f) (\<lambda>ls.
     Inr (set_leader_state f (ls\<lparr>ls_tracker := tracker_set (ls_tracker ls) dst p\<rparr>)))"

section \<open>Replies to the leader\<close>

text \<open>The part of \<open>append_entries_reply\<close> for an accepted reply, up to the common end.\<close>

definition reply_accepted :: "fsm \<Rightarrow> server_id \<Rightarrow> follower_progress \<Rightarrow> index_t \<Rightarrow> fsm result" where
  "reply_accepted f src p last_new_idx =
     (let p1 = become_pipeline (progress_accepted p last_new_idx)
      in bindE (update_progress f src p1) (\<lambda>f1.
         bindE (get_leader_state f1) (\<lambda>ls.
         bindE (if ls_stepdown ls \<noteq> None \<and> ls_timeout_now_sent ls = None \<and> fp_can_vote p1 \<and>
                   fp_match_idx p1 = last_idx (f_log f1)
                then send_timeout_now f1 (fp_id p1) else Inr f1) (\<lambda>f2.
         if \<not> is_leader f2 then Inr f2 else maybe_commit f2))))"

text \<open>
  The common end: the follower may have been removed by a configuration that was just committed, and
  this server may no longer be the leader.
\<close>

definition reply_replicate :: "fsm \<Rightarrow> server_id \<Rightarrow> fsm result" where
  "reply_replicate f src = (if \<not> is_leader f then Inr f else replicate_to_member f src False)"

definition append_entries_reply :: "fsm \<Rightarrow> server_id \<Rightarrow> append_reply \<Rightarrow> fsm result" where
  "append_entries_reply f src reply =
     bindE (assertE (is_leader f)) (\<lambda>_.
     bindE (get_leader_state f) (\<lambda>ls.
     case tracker_find (ls_tracker ls) src of
       None \<Rightarrow> Inr f
     | Some p0 \<Rightarrow>
         let p1 = (if fp_state p0 = PIPELINE \<and> fp_in_flight p0 \<noteq> 0
                   then p0\<lparr>fp_in_flight := fp_in_flight p0 - 1\<rparr> else p0)
         in if fp_state p1 = SNAPSHOT then update_progress f src p1
            else
              let p2 = p1\<lparr>fp_commit_idx := max (fp_commit_idx p1) (arep_commit_idx reply)\<rparr>
              in case arep_result reply of
                   Accepted last_new_idx \<Rightarrow>
                     bindE (reply_accepted f src p2 last_new_idx) (\<lambda>f1. reply_replicate f1 src)
                 | Rejected r \<Rightarrow>
                     if rej_non_matching_idx r = 0 \<and> rej_last_idx r = 0
                     then bindE (update_progress f src p2) (\<lambda>f1. replicate_to_member f1 src True)
                     else if is_stray_reject p2 r then update_progress f src p2
                     else
                       let p3 = become_probe (p2\<lparr>fp_next_idx := min (rej_non_matching_idx r) (rej_last_idx r + 1)\<rparr>)
                       in bindE (assertE (fp_next_idx p3 > fp_match_idx p3)) (\<lambda>_.
                          bindE (update_progress f src p3) (\<lambda>f1. reply_replicate f1 src))))"

definition install_snapshot_reply :: "fsm \<Rightarrow> server_id \<Rightarrow> snapshot_reply \<Rightarrow> fsm result" where
  "install_snapshot_reply f src reply =
     bindE (get_leader_state f) (\<lambda>ls.
     case tracker_find (ls_tracker ls) src of
       None \<Rightarrow> Inr f
     | Some p \<Rightarrow>
         if fp_state p \<noteq> SNAPSHOT then Inr f
         else bindE (update_progress f src (become_probe p)) (\<lambda>f1.
              if srep_success reply then replicate_to_member f1 src False else Inr f1))"

section \<open>Requests to a follower\<close>

definition append_entries :: "fsm \<Rightarrow> server_id \<Rightarrow> append_request \<Rightarrow> fsm result" where
  "append_entries f src request =
     bindE (assertE (is_follower f)) (\<lambda>_.
     let (matched, _) = match_term (f_log f) (areq_prev_log_idx request) (areq_prev_log_term request)
     in if \<not> matched
        then Inr (send_to f src (AppendReply \<lparr>arep_current_term = f_current_term f,
               arep_commit_idx = f_commit_idx f,
               arep_result = Rejected \<lparr>rej_non_matching_idx = areq_prev_log_idx request,
                                       rej_last_idx = last_idx (f_log f)\<rparr>\<rparr>))
        else
          bindE (if areq_entries request \<noteq> []
                 then bindE (maybe_append (f_log f) (areq_entries request)) (\<lambda>(n, l). Inr (n, f\<lparr>f_log := l\<rparr>))
                 else Inr (areq_prev_log_idx request, f)) (\<lambda>(last_new_idx, f1).
          let f2 = advance_commit_idx f1 (min (areq_leader_commit_idx request) last_new_idx)
          in Inr (send_to f2 src (AppendReply \<lparr>arep_current_term = f_current_term f2,
                    arep_commit_idx = f_commit_idx f2, arep_result = Accepted last_new_idx\<rparr>))))"

definition request_vote :: "fsm \<Rightarrow> server_id \<Rightarrow> vote_request \<Rightarrow> fsm result" where
  "request_vote f src request =
     bindE (assertE (vreq_is_prevote request \<or> f_current_term f = vreq_current_term request)) (\<lambda>_.
     let can_vote = (f_voted_for f = src \<or>
                     (f_voted_for f = 0 \<and> current_leader f = 0) \<or>
                     (vreq_is_prevote request \<and> vreq_current_term request > f_current_term f))
     in if can_vote \<and> is_up_to_date (f_log f) (vreq_last_log_idx request) (vreq_last_log_term request)
        then
          let f1 = (if \<not> vreq_is_prevote request
                    then f\<lparr>f_last_election_time := f_clock f, f_voted_for := src\<rparr> else f)
          in Inr (send_to f1 src (VoteReply \<lparr>vrep_current_term = vreq_current_term request,
                    vrep_vote_granted = True, vrep_is_prevote = vreq_is_prevote request\<rparr>))
        else Inr (send_to f src (VoteReply \<lparr>vrep_current_term = f_current_term f,
                    vrep_vote_granted = False, vrep_is_prevote = vreq_is_prevote request\<rparr>)))"

definition request_vote_reply :: "fsm \<Rightarrow> server_id \<Rightarrow> vote_reply \<Rightarrow> fsm result" where
  "request_vote_reply f src reply =
     bindE (assertE (is_candidate f)) (\<lambda>_.
     case f_state f of
       Candidate v is_prevote \<Rightarrow>
         if is_prevote \<noteq> vrep_is_prevote reply then Inr f
         else
           let v' = register_vote v src (vrep_vote_granted reply);
               f1 = f\<lparr>f_state := Candidate v' is_prevote\<rparr>
           in bindE (tally_votes v') (\<lambda>r.
              case r of
                UNKNOWN \<Rightarrow> Inr f1
              | WON \<Rightarrow> if is_prevote then become_candidate f1 False False else become_leader f1
              | LOST \<Rightarrow> become_follower f1 0)
     | _ \<Rightarrow> Inl Bad_variant)"

definition apply_snapshot ::
  "fsm \<Rightarrow> snapshot_descriptor \<Rightarrow> nat \<Rightarrow> nat \<Rightarrow> bool \<Rightarrow> (bool \<times> fsm) result" where
  "apply_snapshot f snp max_trailing_entries max_trailing_bytes local =
     bindE (assertE ((local \<and> snp_idx snp \<le> ob_commit_idx (f_observed f)) \<or> (\<not> local \<and> is_follower f))) (\<lambda>_.
     let current_snp = log_snapshot (f_log f)
     in if snp_idx snp \<le> snp_idx current_snp \<or> (\<not> local \<and> snp_idx snp \<le> f_commit_idx f)
        then Inr (False, f\<lparr>f_output := (f_output f)\<lparr>out_snps_to_drop := out_snps_to_drop (f_output f) @ [snp_id snp]\<rparr>\<rparr>)
        else
          let f1 = f\<lparr>f_output := (f_output f)\<lparr>out_snps_to_drop := out_snps_to_drop (f_output f) @ [snp_id current_snp]\<rparr>,
                     f_commit_idx := max (f_commit_idx f) (snp_idx snp)\<rparr>
          in bindE (log_apply_snapshot (f_log f1) snp max_trailing_entries max_trailing_bytes)
               (\<lambda>(units, new_first_index, l).
             let f2 = f1\<lparr>f_log := l,
                   f_output := (f_output f1)\<lparr>out_snp := Some \<lparr>as_snp = log_snapshot l, as_is_local = local,
                     as_preserved_log_entries = snp_idx (log_snapshot l) + 1 - new_first_index\<rparr>\<rparr>\<rparr>;
                 f3 = (case f_state f2 of
                         Leader ls \<Rightarrow> set_leader_state f2 (ls\<lparr>ls_log_limiter := ls_log_limiter ls @ [Signal units]\<rparr>)
                       | _ \<Rightarrow> f2)
             in Inr (True, signal_events f3)))"

section \<open>Messages\<close>

definition step_leader :: "fsm \<Rightarrow> server_id \<Rightarrow> rpc_message \<Rightarrow> fsm result" where
  "step_leader f src msg =
     (case msg of
        AppendReply m \<Rightarrow> append_entries_reply f src m
      | VoteRequest m \<Rightarrow> request_vote f src m
      | InstallSnapshot m \<Rightarrow>
          Inr (send_to f src (SnapshotReply \<lparr>srep_current_term = f_current_term f, srep_success = False\<rparr>))
      | SnapshotReply m \<Rightarrow> install_snapshot_reply f src m
      | ReadQuorumReply m \<Rightarrow> handle_read_quorum_reply f src m
      | _ \<Rightarrow> Inr f)"

definition step_candidate :: "fsm \<Rightarrow> server_id \<Rightarrow> rpc_message \<Rightarrow> fsm result" where
  "step_candidate f src msg =
     (case msg of
        VoteRequest m \<Rightarrow> request_vote f src m
      | VoteReply m \<Rightarrow> request_vote_reply f src m
      | InstallSnapshot m \<Rightarrow>
          Inr (send_to f src (SnapshotReply \<lparr>srep_current_term = f_current_term f, srep_success = False\<rparr>))
      | _ \<Rightarrow> Inr f)"

definition step_follower :: "fsm \<Rightarrow> server_id \<Rightarrow> rpc_message \<Rightarrow> fsm result" where
  "step_follower f src msg =
     (case msg of
        AppendRequest m \<Rightarrow> append_entries f src m
      | VoteRequest m \<Rightarrow> request_vote f src m
      | InstallSnapshot m \<Rightarrow>
          bindE (apply_snapshot f (inst_snp m) 0 0 False) (\<lambda>(success, f1).
          Inr (send_to f1 src (SnapshotReply \<lparr>srep_current_term = f_current_term f1, srep_success = success\<rparr>)))
      | TimeoutNow m \<Rightarrow> become_candidate f False True
      | ReadQuorum m \<Rightarrow>
          let f1 = advance_commit_idx f (rq_leader_commit_idx m)
          in Inr (send_to f1 src (ReadQuorumReply \<lparr>rqr_current_term = f_current_term f1,
                    rqr_commit_idx = f_commit_idx f1, rqr_id = rq_id m\<rparr>))
      | _ \<Rightarrow> Inr f)"

definition dispatch :: "fsm \<Rightarrow> server_id \<Rightarrow> rpc_message \<Rightarrow> fsm result" where
  "dispatch f src msg =
     (case f_state f of
        Leader _ \<Rightarrow> step_leader f src msg
      | Candidate _ _ \<Rightarrow> step_candidate f src msg
      | Follower _ \<Rightarrow> step_follower f src msg)"

text \<open>The three messages that only a leader sends.\<close>

definition from_leader :: "rpc_message \<Rightarrow> bool" where
  "from_leader msg = (case msg of AppendRequest _ \<Rightarrow> True | InstallSnapshot _ \<Rightarrow> True | ReadQuorum _ \<Rightarrow> True | _ \<Rightarrow> False)"

definition ignores_term :: "rpc_message \<Rightarrow> bool" where
  "ignores_term msg =
     (case msg of
        VoteRequest m \<Rightarrow> vreq_is_prevote m
      | VoteReply m \<Rightarrow> vrep_is_prevote m \<and> vrep_vote_granted m
      | _ \<Rightarrow> False)"

definition reply_stale :: "fsm \<Rightarrow> server_id \<Rightarrow> rpc_message \<Rightarrow> fsm" where
  "reply_stale f src msg =
     (let reject = AppendReply \<lparr>arep_current_term = f_current_term f, arep_commit_idx = f_commit_idx f,
            arep_result = Rejected \<lparr>rej_non_matching_idx = 0, rej_last_idx = last_idx (f_log f)\<rparr>\<rparr>
      in case msg of
           AppendRequest _ \<Rightarrow> send_to f src reject
         | ReadQuorum _ \<Rightarrow> send_to f src reject
         | InstallSnapshot _ \<Rightarrow>
             send_to f src (SnapshotReply \<lparr>srep_current_term = f_current_term f, srep_success = False\<rparr>)
         | VoteRequest m \<Rightarrow>
             if vreq_is_prevote m
             then send_to f src (VoteReply \<lparr>vrep_current_term = f_current_term f, vrep_vote_granted = False,
                    vrep_is_prevote = True\<rparr>)
             else f
         | _ \<Rightarrow> f)"

text \<open>\<open>on_internal_error_noexcept\<close> only logs, so an unexpected leader changes nothing more.\<close>

definition heard_from_leader :: "fsm \<Rightarrow> server_id \<Rightarrow> fsm result" where
  "heard_from_leader f src =
     bindE (if is_candidate f then become_follower f src
            else if current_leader f = 0
            then (case f_state f of
                    Follower _ \<Rightarrow> Inr (f\<lparr>f_state := Follower src, f_ping_leader := False\<rparr>)
                  | _ \<Rightarrow> Inl Bad_variant)
            else Inr f) (\<lambda>f1. Inr (f1\<lparr>f_last_election_time := f_clock f1\<rparr>))"

definition fsm_step :: "fsm \<Rightarrow> server_id \<Rightarrow> rpc_message \<Rightarrow> fsm result" where
  "fsm_step f src msg =
     (if src = f_my_id f then Inl Internal_error
      else if message_term msg > f_current_term f then
        (case msg of
           ReadQuorumReply _ \<Rightarrow> Inr f
         | _ \<Rightarrow>
             if \<not> ignores_term msg
             then bindE (become_follower f (if from_leader msg then src else 0)) (\<lambda>f1.
                  bindE (update_current_term f1 (message_term msg)) (\<lambda>f2. dispatch f2 src msg))
             else dispatch f src msg)
      else if message_term msg < f_current_term f then Inr (reply_stale f src msg)
      else if from_leader msg then bindE (heard_from_leader f src) (\<lambda>f1. dispatch f1 src msg)
      else dispatch f src msg)"

section \<open>Time\<close>

definition tick_progress :: "follower_progress \<Rightarrow> follower_progress" where
  "tick_progress p =
     (case fp_state p of
        PROBE \<Rightarrow> p\<lparr>fp_probe_sent := False\<rparr>
      | PIPELINE \<Rightarrow> if fp_in_flight p = max_in_flight then p\<lparr>fp_in_flight := fp_in_flight p - 1\<rparr> else p
      | SNAPSHOT \<Rightarrow> p)"

text \<open>The body of the loop over the followers in \<open>tick_leader\<close>.\<close>

definition tick_follower ::
  "(server_id \<Rightarrow> bool) \<Rightarrow> server_id \<Rightarrow> fsm \<times> activity_tracker \<Rightarrow> (fsm \<times> activity_tracker) result" where
  "tick_follower alive dst fa =
     (let (f, active) = fa
      in bindE (get_leader_state f) (\<lambda>ls.
         case tracker_find (ls_tracker ls) dst of
           None \<Rightarrow> Inr fa
         | Some p \<Rightarrow>
             if fp_id p = f_my_id f then Inr fa
             else
               let active' = (if alive (fp_id p) then activity_add (ls_tracker ls) active (fp_id p) else active);
                   p1 = tick_progress p
               in if fp_state p = SNAPSHOT then Inr (f, active')
                  else bindE (update_progress f dst p1) (\<lambda>f1.
                       if fp_match_idx p1 < last_idx (f_log f1) \<or> fp_commit_idx p1 < f_commit_idx f1
                       then bindE (replicate_to_member f1 dst True) (\<lambda>f2. Inr (f2, active'))
                       else Inr (f1, active'))))"

text \<open>The stepdown timeout, at the end of \<open>tick_leader\<close>.\<close>

definition tick_stepdown :: "fsm \<Rightarrow> fsm result" where
  "tick_stepdown f =
     bindE (get_leader_state f) (\<lambda>ls.
     case ls_stepdown ls of
       None \<Rightarrow> Inr f
     | Some deadline \<Rightarrow>
         (case tracker_find (ls_tracker ls) (f_my_id f) of
            None \<Rightarrow> Inr f
          | Some me \<Rightarrow>
              if \<not> fp_can_vote me then Inr f
              else if deadline \<le> f_clock f then
                Inr (signal_events ((set_leader_state f
                  (ls\<lparr>ls_log_limiter := ls_log_limiter ls @ [Signal (cfg_max_log_size (f_config f))],
                      ls_stepdown := None, ls_timeout_now_sent := None\<rparr>))\<lparr>f_abort_leadership_transfer := True\<rparr>))
              else (case ls_timeout_now_sent ls of
                      Some dst \<Rightarrow> Inr (send_to f dst (TimeoutNow \<lparr>tnow_current_term = f_current_term f\<rparr>))
                    | None \<Rightarrow> Inr f)))"

definition tick_leader :: "(server_id \<Rightarrow> bool) \<Rightarrow> fsm \<Rightarrow> fsm result" where
  "tick_leader alive f =
     (if election_elapsed f \<ge> ELECTION_TIMEOUT then become_follower f 0
      else
        bindE (get_leader_state f) (\<lambda>ls.
        let active = activity_add (ls_tracker ls) get_activity_tracker (f_my_id f)
        in bindE (foldE (tick_follower alive) (map fst (tr_progress (ls_tracker ls))) (f, active)) (\<lambda>(f1, active').
           bindE (rebroadcast_reads f1) (\<lambda>f2.
           bindE (get_leader_state f2) (\<lambda>ls2.
           let f3 = (if activity_bool (ls_tracker ls2) active'
                     then f2\<lparr>f_last_election_time := f_clock f2\<rparr> else f2)
           in tick_stepdown f3)))))"

definition has_stable_leader :: "(server_id \<Rightarrow> bool) \<Rightarrow> fsm \<Rightarrow> bool result" where
  "has_stable_leader alive f =
     bindE (fsm_get_configuration f) (\<lambda>conf.
     Inr (current_leader f \<noteq> 0 \<and> conf_can_vote conf (current_leader f) \<and> alive (current_leader f)))"

definition ping_voter :: "(server_id \<Rightarrow> bool) \<Rightarrow> config_member \<Rightarrow> fsm \<Rightarrow> fsm" where
  "ping_voter alive s f =
     (if cm_can_vote s \<and> member_id s \<noteq> f_my_id f \<and> alive (member_id s)
      then send_to f (member_id s) (AppendReply \<lparr>arep_current_term = f_current_term f,
             arep_commit_idx = f_commit_idx f,
             arep_result = Rejected \<lparr>rej_non_matching_idx = 0, rej_last_idx = 0\<rparr>\<rparr>)
      else f)"

definition search_for_leader :: "(server_id \<Rightarrow> bool) \<Rightarrow> fsm \<Rightarrow> fsm result" where
  "search_for_leader alive f =
     (if is_follower f \<and> current_leader f = 0 \<and> f_ping_leader f
      then bindE (fsm_get_configuration f) (\<lambda>cfg.
           if \<not> is_joint cfg \<and> cset_contains (conf_current cfg) (f_my_id f)
           then Inr (fold (ping_voter alive) (conf_current cfg) f)
           else Inr f)
      else Inr f)"

definition fsm_tick :: "(server_id \<Rightarrow> bool) \<Rightarrow> fsm \<Rightarrow> fsm result" where
  "fsm_tick alive f =
     (let f1 = f\<lparr>f_clock := clock_advance (f_clock f)\<rparr>
      in bindE (if is_leader f1 then tick_leader alive f1
                else bindE (has_stable_leader alive f1) (\<lambda>stable.
                     if stable then Inr (f1\<lparr>f_last_election_time := f_clock f1\<rparr>)
                     else if is_past_election_timeout f1
                     then become_candidate f1 (cfg_enable_prevoting (f_config f1)) False
                     else Inr f1)) (search_for_leader alive))"

definition fsm_stop :: "fsm \<Rightarrow> fsm result" where
  "fsm_stop f = (if is_leader f then become_follower f 0 else Inr f)"

section \<open>Output\<close>

definition has_output :: "fsm \<Rightarrow> bool" where
  "has_output f \<longleftrightarrow>
     last_idx (f_log f) - log_stable_idx (f_log f) > 0 \<or> f_messages f \<noteq> [] \<or>
     \<not> observed_is_equal (f_observed f) f \<or> out_max_read_id_with_quorum (f_output f) \<noteq> None \<or>
     (case f_state f of Leader ls \<Rightarrow> ls_last_read_id_changed ls | _ \<Rightarrow> False) \<or>
     out_snp (f_output f) \<noteq> None \<or> out_snps_to_drop (f_output f) \<noteq> [] \<or> out_state_changed (f_output f)"

text \<open>The entries with indexes from \<open>i\<close> to \<open>j\<close>.\<close>

definition log_range :: "raft_log \<Rightarrow> index_t \<Rightarrow> index_t \<Rightarrow> log_entry list result" where
  "log_range l i j = mapE (log_index l) [i..<Suc j]"

text \<open>\<open>unordered_set::merge\<close>: the elements of the second set whose ids are not in the first move there.\<close>

definition cset_merge :: "config_member_set \<Rightarrow> config_member_set \<Rightarrow> config_member_set" where
  "cset_merge c d = fold (\<lambda>m acc. cset_insert acc m) d c"

definition flush_leader :: "fsm \<Rightarrow> bool \<Rightarrow> fsm result" where
  "flush_leader f pending =
     (case f_state f of
        Leader ls \<Rightarrow>
          bindE (if ls_last_read_id_changed ls
                 then bindE (broadcast_read_quorum f (ls_last_read_id ls)) (\<lambda>f1.
                      bindE (get_leader_state f1) (\<lambda>ls1.
                      Inr (set_leader_state f1 (ls1\<lparr>ls_last_read_id_changed := False\<rparr>))))
                 else Inr f) (\<lambda>f2.
          if pending then fsm_replicate f2 else Inr f2)
      | _ \<Rightarrow> Inr f)"

definition rpc_configuration :: "fsm \<Rightarrow> config_member_set option result" where
  "rpc_configuration f =
     (let ob = f_observed f; l = f_log f
      in if ob_last_conf_idx ob \<noteq> last_conf_idx l \<or>
            (ob_current_term ob \<noteq> last_term l \<and> ob_last_term ob \<noteq> last_term l)
         then bindE (get_configuration l) (\<lambda>c. Inr (Some (cset_merge (conf_current c) (conf_previous c))))
         else Inr None)"

definition get_output :: "fsm \<Rightarrow> (fsm_output \<times> fsm) result" where
  "get_output f =
     (let diff = last_idx (f_log f) - log_stable_idx (f_log f)
      in bindE (flush_leader f (diff \<noteq> 0)) (\<lambda>f1.
         let out0 = f_output f1;
             f2 = f1\<lparr>f_output := empty_output\<rparr>;
             l = f_log f2
         in bindE (if diff > 0 then log_range l (log_stable_idx l + 1) (last_idx l)
                   else Inr (out_log_entries out0)) (\<lambda>entries.
            let term_and_vote =
                  (if ob_current_term (f_observed f2) \<noteq> f_current_term f2 \<or> ob_voted_for (f_observed f2) \<noteq> f_voted_for f2
                   then Some (f_current_term f2, f_voted_for f2) else out_term_and_vote out0);
                observed_ci = max (ob_commit_idx (f_observed f2)) (snp_idx (log_snapshot l))
            in bindE (if observed_ci < f_commit_idx f2 then log_range l (observed_ci + 1) (f_commit_idx f2)
                      else Inr (out_committed out0)) (\<lambda>comm.
               bindE (rpc_configuration f2) (\<lambda>conf.
               let out = out0\<lparr>out_log_entries := entries, out_term_and_vote := term_and_vote,
                     out_committed := comm, out_messages := f_messages f2,
                     out_abort_leadership_transfer := f_abort_leadership_transfer f2,
                     out_configuration := (case conf of None \<Rightarrow> out_configuration out0 | Some c \<Rightarrow> Some c)\<rparr>;
                   f3 = f2\<lparr>f_messages := out_messages out0, f_abort_leadership_transfer := False\<rparr>;
                   f4 = f3\<lparr>f_observed := observed_advance f3\<rparr>
               in bindE (if out_log_entries out \<noteq> []
                         then advance_stable_idx f4 (le_idx (last (out_log_entries out)))
                         else Inr f4) (\<lambda>f5. Inr (out, f5)))))))"

end
