(* ===== verification/Raft_Fsm_Frame.thy ===== *)
theory Raft_Fsm_Frame
  imports Raft_Fsm
begin

text \<open>
  What each operation of the state machine leaves alone, and how the persistent part of the state
  evolves: the term never decreases, a vote is not changed within its term, the commit index never
  decreases. None of the lemmas here needs an invariant.
\<close>

section \<open>Operations that only touch the volatile part\<close>

text \<open>Everything but the role, the queued messages and output, the timers and the counters.\<close>

definition core :: "fsm \<Rightarrow> server_id \<times> term_t \<times> server_id \<times> index_t \<times> raft_log \<times> fsm_config \<times> time_point" where
  "core f = (f_my_id f, f_current_term f, f_voted_for f, f_commit_idx f, f_log f, f_config f, f_clock f)"

lemma core_simps [simp]:
  "core (signal_events f) = core f"
  "core (send_to f dst m) = core f"
  "core (set_leader_state f ls) = core f"
  by (simp_all add: core_def signal_events_def send_to_def set_leader_state_def)

lemma coreD:
  assumes "core f' = core f"
  shows "f_my_id f' = f_my_id f" "f_current_term f' = f_current_term f" "f_voted_for f' = f_voted_for f"
    "f_commit_idx f' = f_commit_idx f" "f_log f' = f_log f" "f_config f' = f_config f" "f_clock f' = f_clock f"
  using assms by (simp_all add: core_def)

lemma field_simps_fsm [simp]:
  "f_my_id (signal_events f) = f_my_id f" "f_my_id (send_to f dst m) = f_my_id f" "f_my_id (set_leader_state f ls) = f_my_id f"
  "f_current_term (signal_events f) = f_current_term f" "f_current_term (send_to f dst m) = f_current_term f"
  "f_current_term (set_leader_state f ls) = f_current_term f"
  "f_voted_for (signal_events f) = f_voted_for f" "f_voted_for (send_to f dst m) = f_voted_for f"
  "f_voted_for (set_leader_state f ls) = f_voted_for f"
  "f_commit_idx (signal_events f) = f_commit_idx f" "f_commit_idx (send_to f dst m) = f_commit_idx f"
  "f_commit_idx (set_leader_state f ls) = f_commit_idx f"
  "f_log (signal_events f) = f_log f" "f_log (send_to f dst m) = f_log f" "f_log (set_leader_state f ls) = f_log f"
  "f_config (signal_events f) = f_config f" "f_config (send_to f dst m) = f_config f" "f_config (set_leader_state f ls) = f_config f"
  "f_clock (signal_events f) = f_clock f" "f_clock (send_to f dst m) = f_clock f" "f_clock (set_leader_state f ls) = f_clock f"
  "f_state (signal_events f) = f_state f" "f_state (send_to f dst m) = f_state f" "f_state (set_leader_state f ls) = Leader ls"
  "f_observed (signal_events f) = f_observed f" "f_observed (send_to f dst m) = f_observed f"
  "f_observed (set_leader_state f ls) = f_observed f"
  by (simp_all add: signal_events_def send_to_def set_leader_state_def)

lemma get_leader_state_Inr [simp]: "get_leader_state f = Inr ls \<longleftrightarrow> f_state f = Leader ls"
  by (auto simp: get_leader_state_def split: fsm_state.splits)

lemma is_leader_iff: "is_leader f \<longleftrightarrow> (\<exists>ls. f_state f = Leader ls)"
  by (auto simp: is_leader_def split: fsm_state.splits)

named_theorems core_dest \<open>an operation that returns has kept the core\<close>

lemma become_follower_core [core_dest]:
  "become_follower f l = Inr f' \<Longrightarrow> core f' = core f \<and> f_state f' = Follower l \<and> f_observed f' = f_observed f"
  by (auto simp: become_follower_def core_def Let_def split: if_splits)

text \<open>Induction over the requests that one call of \<open>replicate_to\<close> queues.\<close>

lemma replicate_to_rule [consumes 1, case_names stop snap send]:
  assumes "replicate_to f p ae = Inr (f', p')"
    and stop: "\<And>f p. P f p f p"
    and snap: "\<And>f p. can_send_to p \<Longrightarrow> term_for (f_log f) (pred64 (fp_next_idx p)) = Inr None \<Longrightarrow>
      P f p (send_to f (fp_id p)
               (InstallSnapshot \<lparr>inst_current_term = f_current_term f, inst_snp = log_snapshot (f_log f)\<rparr>))
            (become_snapshot p (log_snp_idx (f_log f)))"
    and send: "\<And>f p pt es p1 f' p'. can_send_to p \<Longrightarrow> 0 < fp_next_idx p \<Longrightarrow>
      term_for (f_log f) (fp_next_idx p - 1) = Inr (Some pt) \<Longrightarrow>
      append_request_for f p (if fp_next_idx p > last_idx (f_log f) then 0 else fp_next_idx p) = Inr (es, p1) \<Longrightarrow>
      P (send_to f (fp_id p) (AppendRequest \<lparr>areq_current_term = f_current_term f,
           areq_prev_log_idx = fp_next_idx p - 1, areq_prev_log_term = pt,
           areq_leader_commit_idx = f_commit_idx f, areq_entries = es\<rparr>))
        (if fp_state p1 = PROBE then p1\<lparr>fp_probe_sent := True\<rparr> else p1) f' p' \<Longrightarrow> P f p f' p'"
  shows "P f p f' p'"
  using assms(1)
proof (induction f p ae arbitrary: f' p' rule: replicate_to.induct)
  case (1 f p ae)
  let ?n = "if fp_next_idx p > last_idx (f_log f) then 0 else fp_next_idx p"
  let ?pi = "pred64 (fp_next_idx p)"
  consider (stop) "\<not> can_send_to p \<or> (fp_next_idx p > last_idx (f_log f) \<and> \<not> ae)"
    | (go) "can_send_to p" "\<not> (fp_next_idx p > last_idx (f_log f) \<and> \<not> ae)" by blast
  then show ?case
  proof cases
    case stop
    then have "replicate_to f p ae = Inr (f, p)" by (subst replicate_to.simps) auto
    then show ?thesis using "1.prems" assms(2) by simp
  next
    case go
    let ?K = "\<lambda>t. case t of None \<Rightarrow> Inr (send_to f (fp_id p)
               (InstallSnapshot \<lparr>inst_current_term = f_current_term f, inst_snp = log_snapshot (f_log f)\<rparr>),
               become_snapshot p (log_snp_idx (f_log f)))
         | Some pt \<Rightarrow> if fp_next_idx p = 0 then Inl Out_of_range else
            bindE (append_request_for f p ?n) (\<lambda>ep. replicate_to
              (send_to f (fp_id p) (AppendRequest \<lparr>areq_current_term = f_current_term f,
                 areq_prev_log_idx = ?pi, areq_prev_log_term = pt,
                 areq_leader_commit_idx = f_commit_idx f, areq_entries = fst ep\<rparr>))
              (if fp_state (snd ep) = PROBE then (snd ep)\<lparr>fp_probe_sent := True\<rparr> else snd ep) False)"
    have "replicate_to f p ae = bindE (term_for (f_log f) ?pi) ?K"
      using go by (subst replicate_to.simps) (simp only: Let_def not_True_eq_False if_False simp_thms)
    with "1.prems" have "bindE (term_for (f_log f) ?pi) ?K = Inr (f', p')" by (rule trans[OF sym, rotated])
    then obtain t where t: "term_for (f_log f) ?pi = Inr t" and r: "?K t = Inr (f', p')"
      by (rule bindE_InrE)
    show ?thesis
    proof (cases t)
      case None
      then show ?thesis using r t assms(3)[OF go(1), of f] by auto
    next
      case (Some pt)
      then have n: "fp_next_idx p \<noteq> 0" using r by (cases "fp_next_idx p = 0") auto
      then obtain es p1 where e: "append_request_for f p ?n = Inr (es, p1)" using r Some by auto
      have rep: "replicate_to (send_to f (fp_id p) (AppendRequest \<lparr>areq_current_term = f_current_term f,
                 areq_prev_log_idx = ?pi, areq_prev_log_term = pt,
                 areq_leader_commit_idx = f_commit_idx f, areq_entries = es\<rparr>))
              (if fp_state p1 = PROBE then p1\<lparr>fp_probe_sent := True\<rparr> else p1) False = Inr (f', p')"
        using r Some n e by (simp split del: if_split cong: if_cong)
      have "P (send_to f (fp_id p) (AppendRequest \<lparr>areq_current_term = f_current_term f,
                 areq_prev_log_idx = ?pi, areq_prev_log_term = pt,
                 areq_leader_commit_idx = f_commit_idx f, areq_entries = es\<rparr>))
              (if fp_state p1 = PROBE then p1\<lparr>fp_probe_sent := True\<rparr> else p1) f' p'"
        using "1.IH"[OF _ go(2) refl refl t Some n e refl refl refl] rep go(1) by (simp split del: if_split cong: if_cong)
      then show ?thesis using assms(4)[OF go(1) _ _ e] t Some n by (simp split del: if_split)
    qed
  qed
qed

lemma replicate_to_core:
  "replicate_to f p ae = Inr (f', p') \<Longrightarrow> core f' = core f \<and> f_state f' = f_state f \<and> f_observed f' = f_observed f"
  by (induction rule: replicate_to_rule) simp_all

lemma append_request_for_frame:
  assumes "append_request_for f p n = Inr (es, p1)"
  shows "fp_id p1 = fp_id p" "fp_match_idx p1 = fp_match_idx p" "fp_commit_idx p1 = fp_commit_idx p"
    "fp_max_acked_read p1 = fp_max_acked_read p" "fp_can_vote p1 = fp_can_vote p" "fp_state p1 = fp_state p"
  using assms by (auto simp: append_request_for_def split: if_splits)

lemma replicate_to_progress:
  "replicate_to f p ae = Inr (f', p') \<Longrightarrow> fp_id p' = fp_id p \<and> fp_match_idx p' = fp_match_idx p \<and>
     fp_max_acked_read p' = fp_max_acked_read p \<and> fp_can_vote p' = fp_can_vote p \<and> fp_commit_idx p' = fp_commit_idx p"
  by (induction rule: replicate_to_rule) (auto simp: become_snapshot_def dest: append_request_for_frame split: if_splits)

lemma replicate_to_member_core [core_dest]:
  "replicate_to_member f dst ae = Inr f' \<Longrightarrow> core f' = core f \<and> f_observed f' = f_observed f"
  by (auto simp: replicate_to_member_def split: option.splits dest!: replicate_to_core)

lemma update_progress_core [core_dest]:
  "update_progress f dst p = Inr f' \<Longrightarrow> core f' = core f \<and> f_observed f' = f_observed f"
  by (auto simp: update_progress_def)

lemma handle_read_quorum_reply_core [core_dest]:
  "handle_read_quorum_reply f src r = Inr f' \<Longrightarrow> core f' = core f \<and> f_observed f' = f_observed f"
  by (auto simp: handle_read_quorum_reply_def Let_def split: option.splits if_splits)
     (auto simp: core_def signal_events_def set_leader_state_def)

text \<open>A loop whose body keeps the core keeps it.\<close>

lemma foldE_core:
  assumes "\<And>x s s'. g x s = Inr s' \<Longrightarrow> core (h s') = core (h s) \<and> f_observed (h s') = f_observed (h s)"
    "foldE g xs s = Inr s'"
  shows "core (h s') = core (h s) \<and> f_observed (h s') = f_observed (h s)"
  using assms(2)
proof (induction xs arbitrary: s)
  case (Cons x xs)
  then obtain s1 where "g x s = Inr s1" "foldE g xs s1 = Inr s'" by auto
  then show ?case using Cons.IH[of s1] assms(1)[of x s s1] by simp
qed simp

lemma broadcast_read_quorum_core [core_dest]:
  assumes "broadcast_read_quorum f rid = Inr f'"
  shows "core f' = core f \<and> f_observed f' = f_observed f"
proof -
  have body: "core s' = core s \<and> f_observed s' = f_observed s" if "read_quorum_to rid x s = Inr s'" for x s s'
    using that handle_read_quorum_reply_core
    by (auto simp: read_quorum_to_def Let_def split: if_splits)
  obtain ls :: leader_state where "foldE (read_quorum_to rid) (tr_progress (ls_tracker ls)) f = Inr f'"
    using assms unfolding broadcast_read_quorum_def by blast
  from foldE_core[where h = "\<lambda>s. s", OF body this] show ?thesis .
qed

lemma rebroadcast_reads_core [core_dest]:
  "rebroadcast_reads f = Inr f' \<Longrightarrow> core f' = core f \<and> f_observed f' = f_observed f"
  by (auto simp: rebroadcast_reads_def split: fsm_state.splits if_splits dest: broadcast_read_quorum_core)

lemma fsm_replicate_core [core_dest]:
  assumes "fsm_replicate f = Inr f'"
  shows "core f' = core f \<and> f_observed f' = f_observed f"
proof -
  have body: "core s' = core s \<and> f_observed s' = f_observed s" if "replicate_other x s = Inr s'" for x s s'
    using that by (auto simp: replicate_other_def split: if_splits dest: core_dest)
  obtain ls :: leader_state where "foldE replicate_other (tr_progress (ls_tracker ls)) f = Inr f'"
    using assms unfolding fsm_replicate_def by blast
  from foldE_core[where h = "\<lambda>s. s", OF body this] show ?thesis .
qed

lemma send_timeout_now_core [core_dest]:
  "send_timeout_now f srv = Inr f' \<Longrightarrow> core f' = core f \<and> f_observed f' = f_observed f"
  by (auto simp: send_timeout_now_def Let_def split: option.splits if_splits dest!: core_dest)

lemma transfer_leadership_core [core_dest]:
  "transfer_leadership f t = Inr f' \<Longrightarrow> core f' = core f \<and> f_observed f' = f_observed f"
  by (auto simp: transfer_leadership_def Let_def split: option.splits if_splits dest!: core_dest)

lemma stepdown_if_removed_core [core_dest]:
  "stepdown_if_removed f ls = Inr f' \<Longrightarrow> core f' = core f \<and> f_observed f' = f_observed f"
  by (auto simp: stepdown_if_removed_def split: option.splits if_splits dest: core_dest)

lemma install_snapshot_reply_core [core_dest]:
  "install_snapshot_reply f src r = Inr f' \<Longrightarrow> core f' = core f \<and> f_observed f' = f_observed f"
  by (auto simp: install_snapshot_reply_def split: option.splits if_splits dest!: core_dest)

lemma reply_replicate_core [core_dest]:
  "reply_replicate f src = Inr f' \<Longrightarrow> core f' = core f \<and> f_observed f' = f_observed f"
  by (auto simp: reply_replicate_def split: if_splits dest: core_dest)

lemma track_configuration_core [core_dest]:
  "track_configuration f = Inr f' \<Longrightarrow> core f' = core f \<and> f_observed f' = f_observed f"
  by (auto simp: track_configuration_def)

lemma reset_election_timeout_core [core_dest]:
  "reset_election_timeout f = Inr f' \<Longrightarrow> core f' = core f \<and> f_observed f' = f_observed f \<and> f_state f' = f_state f"
  by (auto simp: reset_election_timeout_def core_def Let_def)

lemma heard_from_leader_core [core_dest]:
  "heard_from_leader f src = Inr f' \<Longrightarrow> core f' = core f \<and> f_observed f' = f_observed f"
  by (auto simp: heard_from_leader_def split: if_splits fsm_state.splits dest!: core_dest) (auto simp: core_def)

lemma tick_leader_core [core_dest]:
  assumes "tick_leader alive f = Inr f'"
  shows "core f' = core f \<and> f_observed f' = f_observed f"
proof -
  have fol: "core (fst s') = core (fst s) \<and> f_observed (fst s') = f_observed (fst s)"
    if "tick_follower alive x s = Inr s'" for x s s'
    using that by (cases s) (auto simp: tick_follower_def Let_def split: option.splits if_splits dest!: core_dest)
  have stp: "core s' = core s \<and> f_observed s' = f_observed s" if "tick_stepdown s = Inr s'" for s s'
    using that by (auto simp: tick_stepdown_def split: option.splits if_splits)
      (auto simp: core_def signal_events_def set_leader_state_def)
  show ?thesis
  proof (cases "election_elapsed f \<ge> ELECTION_TIMEOUT")
    case True
    then show ?thesis using assms become_follower_core by (auto simp: tick_leader_def)
  next
    case False
    then obtain ls ls2 :: leader_state and f1 a f2 where s: "foldE (tick_follower alive) (map fst (tr_progress (ls_tracker ls)))
        (f, activity_add (ls_tracker ls) get_activity_tracker (f_my_id f)) = Inr (f1, a)"
      "rebroadcast_reads f1 = Inr f2"
      "tick_stepdown (if activity_bool (ls_tracker ls2) a then f2\<lparr>f_last_election_time := f_clock f2\<rparr> else f2) = Inr f'"
      using assms by (auto simp: tick_leader_def Let_def split del: if_split)
    have "core (f2\<lparr>f_last_election_time := f_clock f2\<rparr>) = core f2" by (simp add: core_def)
    then show ?thesis
      using foldE_core[where h = fst, OF fol s(1)] rebroadcast_reads_core[OF s(2)] stp[OF s(3)] by (auto split: if_splits)
  qed
qed

lemma search_for_leader_core [core_dest]:
  assumes "search_for_leader alive f = Inr f'"
  shows "core f' = core f \<and> f_observed f' = f_observed f \<and> f_state f' = f_state f"
proof -
  have "core (fold (ping_voter alive) c f) = core f \<and> f_observed (fold (ping_voter alive) c f) = f_observed f \<and>
    f_state (fold (ping_voter alive) c f) = f_state f" for c f
    by (induction c arbitrary: f) (simp_all add: ping_voter_def)
  then show ?thesis using assms by (auto simp: search_for_leader_def split: if_splits)
qed

section \<open>How the persistent state evolves\<close>

definition evolves :: "fsm \<Rightarrow> fsm \<Rightarrow> bool" where
  "evolves f f' \<longleftrightarrow> f_my_id f' = f_my_id f \<and> f_config f' = f_config f \<and>
     f_current_term f \<le> f_current_term f' \<and>
     (f_current_term f' = f_current_term f \<and> f_voted_for f \<noteq> 0 \<longrightarrow> f_voted_for f' = f_voted_for f) \<and>
     f_commit_idx f \<le> f_commit_idx f' \<and> f_clock f \<le> f_clock f'"

lemma evolves_refl [simp]: "evolves f f"
  by (simp add: evolves_def)

lemma evolves_trans: "evolves f g \<Longrightarrow> evolves g h \<Longrightarrow> evolves f h"
  unfolding evolves_def by (metis le_antisym order_trans)

lemma evolves_core: "core f' = core f \<Longrightarrow> evolves f f'"
  by (simp add: evolves_def core_def)

lemma evolves_core_left: "core f' = core f \<Longrightarrow> evolves f' g \<longleftrightarrow> evolves f g"
  by (simp add: evolves_def core_def)

lemma evolves_core_right: "core g' = core g \<Longrightarrow> evolves f g' \<longleftrightarrow> evolves f g"
  by (simp add: evolves_def core_def)

lemma evolves_simps [simp]:
  "evolves f (signal_events g) \<longleftrightarrow> evolves f g"
  "evolves f (send_to g dst m) \<longleftrightarrow> evolves f g"
  "evolves f (set_leader_state g ls) \<longleftrightarrow> evolves f g"
  "evolves (signal_events f) g \<longleftrightarrow> evolves f g"
  "evolves (send_to f dst m) g \<longleftrightarrow> evolves f g"
  "evolves (set_leader_state f ls) g \<longleftrightarrow> evolves f g"
  by (simp_all add: evolves_def)

lemma evolves_advance_commit_idx: "evolves f (advance_commit_idx f i)"
  by (auto simp: advance_commit_idx_def Let_def evolves_def)

lemma evolves_update_current_term:
  "update_current_term f t = Inr f' \<Longrightarrow> evolves f f' \<and> f_current_term f < f_current_term f' \<and> f_current_term f' = t"
  by (auto simp: update_current_term_def evolves_def)

text \<open>Adding an entry changes the log only.\<close>

definition bare :: "fsm \<Rightarrow> server_id \<times> term_t \<times> server_id \<times> index_t \<times> fsm_config \<times> time_point \<times> last_observed_state" where
  "bare f = (f_my_id f, f_current_term f, f_voted_for f, f_commit_idx f, f_config f, f_clock f, f_observed f)"

lemma bareD:
  assumes "bare f' = bare f"
  shows "f_my_id f' = f_my_id f" "f_current_term f' = f_current_term f" "f_voted_for f' = f_voted_for f"
    "f_commit_idx f' = f_commit_idx f" "f_config f' = f_config f" "f_clock f' = f_clock f" "f_observed f' = f_observed f"
  using assms by (simp_all add: bare_def)

lemma add_entry_bare: "add_entry f cmd = Inr (e, f') \<Longrightarrow> bare f' = bare f"
  by (auto simp: add_entry_def check_conf_change_def Let_def bare_def core_def split: if_splits entry_data.splits
      dest!: track_configuration_core)

lemma evolves_bare: "bare f' = bare f \<Longrightarrow> evolves f f'"
  by (simp add: evolves_def bare_def)

lemma become_leader_bare: "become_leader f = Inr f' \<Longrightarrow> bare f' = bare f"
  by (auto simp: become_leader_def Let_def bare_def core_def dest!: track_configuration_core add_entry_bare)

lemma solicit_votes_frame:
  fixes trm pre tr
  defines "s \<equiv> solicit_vote trm pre tr"
  shows "f_my_id (fst (fold s vs fv)) = f_my_id (fst fv)"
    "f_current_term (fst (fold s vs fv)) = f_current_term (fst fv)"
    "f_commit_idx (fst (fold s vs fv)) = f_commit_idx (fst fv)" "f_log (fst (fold s vs fv)) = f_log (fst fv)"
    "f_config (fst (fold s vs fv)) = f_config (fst fv)" "f_clock (fst (fold s vs fv)) = f_clock (fst fv)"
    "f_observed (fst (fold s vs fv)) = f_observed (fst fv)"
    "f_voted_for (fst (fold s vs fv)) = (if \<not> pre \<and> f_my_id (fst fv) \<in> addr_id ` set vs then f_my_id (fst fv) else f_voted_for (fst fv))"
proof -
  have "f_my_id (fst (s v fv)) = f_my_id (fst fv) \<and> f_current_term (fst (s v fv)) = f_current_term (fst fv) \<and>
    f_commit_idx (fst (s v fv)) = f_commit_idx (fst fv) \<and> f_log (fst (s v fv)) = f_log (fst fv) \<and>
    f_config (fst (s v fv)) = f_config (fst fv) \<and> f_clock (fst (s v fv)) = f_clock (fst fv) \<and>
    f_observed (fst (s v fv)) = f_observed (fst fv) \<and>
    f_voted_for (fst (s v fv)) = (if \<not> pre \<and> addr_id v = f_my_id (fst fv) then f_my_id (fst fv) else f_voted_for (fst fv))" for v fv
    by (cases fv) (simp add: s_def solicit_vote_def)
  then have "f_my_id (fst (fold s vs fv)) = f_my_id (fst fv) \<and>
    f_current_term (fst (fold s vs fv)) = f_current_term (fst fv) \<and>
    f_commit_idx (fst (fold s vs fv)) = f_commit_idx (fst fv) \<and> f_log (fst (fold s vs fv)) = f_log (fst fv) \<and>
    f_config (fst (fold s vs fv)) = f_config (fst fv) \<and> f_clock (fst (fold s vs fv)) = f_clock (fst fv) \<and>
    f_observed (fst (fold s vs fv)) = f_observed (fst fv) \<and>
    f_voted_for (fst (fold s vs fv)) = (if \<not> pre \<and> f_my_id (fst fv) \<in> addr_id ` set vs then f_my_id (fst fv) else f_voted_for (fst fv))"
    by (induction vs arbitrary: fv) auto
  then show "f_my_id (fst (fold s vs fv)) = f_my_id (fst fv)"
    "f_current_term (fst (fold s vs fv)) = f_current_term (fst fv)"
    "f_commit_idx (fst (fold s vs fv)) = f_commit_idx (fst fv)" "f_log (fst (fold s vs fv)) = f_log (fst fv)"
    "f_config (fst (fold s vs fv)) = f_config (fst fv)" "f_clock (fst (fold s vs fv)) = f_clock (fst fv)"
    "f_observed (fst (fold s vs fv)) = f_observed (fst fv)"
    "f_voted_for (fst (fold s vs fv)) = (if \<not> pre \<and> f_my_id (fst fv) \<in> addr_id ` set vs then f_my_id (fst fv) else f_voted_for (fst fv))"
    by blast+
qed

lemma enter_candidate_core:
  assumes "enter_candidate pre f = Inr (v, f')"
  shows "core f' = core f" "f_observed f' = f_observed f" "f_state f' = Candidate v pre"
    "\<exists>conf. get_configuration (f_log f) = Inr conf \<and> v = make_votes conf"
  using assms
  by (auto simp: enter_candidate_def fsm_get_configuration_def Let_def core_def split: if_splits
      dest!: reset_election_timeout_core)

lemma evolves_solicit_votes:
  assumes "\<And>g g'. on_won g = Inr g' \<Longrightarrow> evolves g g'" "solicit_votes on_won pre tr v f = Inr f'"
  shows "evolves f f'"
proof -
  obtain f1 where f1: "(if \<not> pre then update_current_term f (f_current_term f + 1) else Inr f) = Inr f1"
    and r: "(let (f2, v') = fold (solicit_vote (f_current_term f + 1) pre tr) (v_voters v) (f1, v);
             f3 = f2\<lparr>f_state := Candidate v' pre\<rparr>
         in bindE (tally_votes v') (\<lambda>r. if r = WON then on_won f3 else Inr f3)) = Inr f'"
    using assms(2) unfolding solicit_votes_def Let_def by (rule bindE_InrE)
  obtain f2 v' where 2: "fold (solicit_vote (f_current_term f + 1) pre tr) (v_voters v) (f1, v) = (f2, v')" by fastforce
  note fr = solicit_votes_frame[where trm = "f_current_term f + 1" and pre = pre and tr = tr
      and vs = "v_voters v" and fv = "(f1, v)", unfolded 2 fst_conv]
  have "evolves f f1 \<and> (\<not> pre \<longrightarrow> f_current_term f < f_current_term f1)"
    using f1 evolves_update_current_term[of f] by (cases pre) auto
  then have "evolves f (f2\<lparr>f_state := Candidate v' pre\<rparr>)" using fr by (auto simp: evolves_def split: if_splits)
  moreover have "evolves (f2\<lparr>f_state := Candidate v' pre\<rparr>) f'"
    using r 2 assms(1)[of "f2\<lparr>f_state := Candidate v' pre\<rparr>" f'] by (auto simp: Let_def split: if_splits)
  ultimately show ?thesis by (rule evolves_trans)
qed

lemma evolves_campaign:
  assumes "\<And>g g'. on_won g = Inr g' \<Longrightarrow> evolves g g'" "campaign on_won pre tr f = Inr f'"
  shows "evolves f f'"
proof -
  obtain v f1 go where f1: "enter_candidate pre f = Inr (v, f1)"
    and r: "(if \<not> go then become_follower f1 0 else solicit_votes on_won pre tr v f1) = Inr f'"
    using assms(2) unfolding campaign_def by (auto split del: if_split)
  have "evolves f1 f'"
    using r evolves_solicit_votes[OF assms(1)] evolves_core become_follower_core by (cases go) force+
  then show ?thesis using evolves_core_left[OF enter_candidate_core(1)[OF f1]] by simp
qed

lemma evolves_become_leader: "become_leader f = Inr f' \<Longrightarrow> evolves f f'"
  by (rule evolves_bare[OF become_leader_bare])

lemma evolves_become_candidate: "become_candidate f pre tr = Inr f' \<Longrightarrow> evolves f f'"
  unfolding become_candidate_def
  by (cases pre) (auto intro: evolves_campaign[OF evolves_campaign[OF evolves_become_leader]]
      evolves_campaign[OF evolves_become_leader])

text \<open>Induction over the rounds of \<open>maybe_commit\<close>.\<close>

abbreviation commit_to :: "fsm \<Rightarrow> index_t \<Rightarrow> fsm" where
  "commit_to f n \<equiv> signal_events (f\<lparr>f_commit_idx := n\<rparr>)"

abbreviation commits_conf :: "fsm \<Rightarrow> index_t \<Rightarrow> bool" where
  "commits_conf f n \<equiv> f_commit_idx f < last_conf_idx (f_log f) \<and> n \<ge> last_conf_idx (f_log f)"

lemma maybe_commit_unfold:
  "maybe_commit f =
     bindE (get_leader_state f) (\<lambda>ls.
     bindE (commit_candidate f ls) (\<lambda>c.
     case c of
       None \<Rightarrow> Inr f
     | Some n \<Rightarrow>
         if commits_conf f n
         then bindE (bindE (fsm_get_configuration (commit_to f n)) (\<lambda>conf.
                 if is_joint conf
                 then bindE (leave_joint_entry (commit_to f n) conf) (\<lambda>f2. maybe_commit f2)
                 else stepdown_if_removed (commit_to f n) ls)) rebroadcast_reads
         else Inr (commit_to f n)))"
  by (subst maybe_commit.simps) (simp only: Let_def)

lemma maybe_commit_rule [consumes 1, case_names none plain simple joint]:
  assumes "maybe_commit f = Inr f'"
    and none: "\<And>f ls. f_state f = Leader ls \<Longrightarrow> commit_candidate f ls = Inr None \<Longrightarrow> P f f"
    and plain: "\<And>f ls n. f_state f = Leader ls \<Longrightarrow> commit_candidate f ls = Inr (Some n) \<Longrightarrow> \<not> commits_conf f n \<Longrightarrow>
      P f (commit_to f n)"
    and simple: "\<And>f ls n conf f2 f'. f_state f = Leader ls \<Longrightarrow> commit_candidate f ls = Inr (Some n) \<Longrightarrow>
      commits_conf f n \<Longrightarrow> get_configuration (f_log f) = Inr conf \<Longrightarrow> \<not> is_joint conf \<Longrightarrow>
      stepdown_if_removed (commit_to f n) ls = Inr f2 \<Longrightarrow> rebroadcast_reads f2 = Inr f' \<Longrightarrow> P f f'"
    and joint: "\<And>f ls n conf f2 f3 f'. f_state f = Leader ls \<Longrightarrow> commit_candidate f ls = Inr (Some n) \<Longrightarrow>
      commits_conf f n \<Longrightarrow> get_configuration (f_log f) = Inr conf \<Longrightarrow> is_joint conf \<Longrightarrow>
      leave_joint_entry (commit_to f n) conf = Inr f2 \<Longrightarrow> P f2 f3 \<Longrightarrow> rebroadcast_reads f3 = Inr f' \<Longrightarrow> P f f'"
  shows "P f f'"
  using assms(1)
proof (induction f arbitrary: f' rule: maybe_commit.induct)
  case (1 f)
  define K where "K = (\<lambda>ls c. case c of None \<Rightarrow> Inr f | Some n \<Rightarrow>
         if commits_conf f n
         then bindE (bindE (fsm_get_configuration (commit_to f n)) (\<lambda>conf.
                 if is_joint conf
                 then bindE (leave_joint_entry (commit_to f n) conf) (\<lambda>f2. maybe_commit f2)
                 else stepdown_if_removed (commit_to f n) ls)) rebroadcast_reads
         else Inr (commit_to f n))"
  have "maybe_commit f = bindE (get_leader_state f) (\<lambda>ls. bindE (commit_candidate f ls) (K ls))"
    unfolding K_def by (rule maybe_commit_unfold)
  with "1.prems" obtain ls c where ls: "f_state f = Leader ls" and c: "commit_candidate f ls = Inr c"
    and r': "K ls c = Inr f'"
    by (auto simp: bindE_Inr_iff)
  note r = r'[unfolded K_def]
  show ?case
  proof (cases c)
    case None
    then show ?thesis using r none ls c by simp
  next
    case (Some n)
    show ?thesis
    proof (cases "commits_conf f n")
      case False
      have "f' = commit_to f n" using r unfolding Some option.case if_not_P[OF False] by simp
      then show ?thesis using plain[OF ls c[unfolded Some] False] by simp
    next
      case True
      note r = r[unfolded Some option.case if_P[OF True]]
      then obtain conf f3 where conf: "fsm_get_configuration (commit_to f n) = Inr conf"
        and f3: "(if is_joint conf then bindE (leave_joint_entry (commit_to f n) conf) (\<lambda>f2. maybe_commit f2)
                 else stepdown_if_removed (commit_to f n) ls) = Inr f3" and f': "rebroadcast_reads f3 = Inr f'"
        by (elim bindE_InrE) blast
      have conf': "get_configuration (f_log f) = Inr conf" using conf by (simp add: fsm_get_configuration_def)
      show ?thesis
      proof (cases "is_joint conf")
        case False
        then show ?thesis using f3 f' simple[OF ls c[unfolded Some] True conf' False] by simp
      next
        case j: True
        then obtain f2 where f2: "leave_joint_entry (commit_to f n) conf = Inr f2" "maybe_commit f2 = Inr f3"
          using f3 by auto
        have "P f2 f3"
          by (rule "1.IH"[OF _ c Some refl refl _ conf j f2]) (use ls True in simp_all)
        then show ?thesis using joint[OF ls c[unfolded Some] True conf' j f2(1)] f' by blast
      qed
    qed
  qed
qed

lemma commit_candidate_gt: "commit_candidate f ls = Inr (Some n) \<Longrightarrow> f_commit_idx f < n"
  by (auto simp: commit_candidate_def Let_def split: if_splits)

lemma leave_joint_entry_bare: "leave_joint_entry f conf = Inr f' \<Longrightarrow> bare f' = bare f"
  by (auto simp: leave_joint_entry_def bare_def core_def dest!: track_configuration_core)

lemma evolves_maybe_commit: "maybe_commit f = Inr f' \<Longrightarrow> evolves f f' \<and> f_observed f' = f_observed f"
proof (induction rule: maybe_commit_rule)
  case (plain f ls n)
  then show ?case using commit_candidate_gt[of f ls n] by (simp add: evolves_def)
next
  case (simple f ls n conf f2 f')
  then show ?case
    using commit_candidate_gt[of f ls n] stepdown_if_removed_core[OF simple(6)] rebroadcast_reads_core[OF simple(7)]
    by (simp add: evolves_def core_def)
next
  case (joint f ls n conf f2 f3 f')
  have "evolves f (commit_to f n)" using commit_candidate_gt[OF joint(2)] by (simp add: evolves_def)
  moreover have "evolves (commit_to f n) f2" by (rule evolves_bare[OF leave_joint_entry_bare[OF joint(6)]])
  moreover have "evolves f3 f'" using rebroadcast_reads_core[OF joint(7)] by (simp add: evolves_core)
  moreover have "f_observed f2 = f_observed f" using bareD(7)[OF leave_joint_entry_bare[OF joint(6)]] by simp
  ultimately show ?case
    using joint(8) rebroadcast_reads_core[OF joint(7)] by (auto intro: evolves_trans)
qed simp

end
