(* ===== verification/Raft_Fsm_Run.thy ===== *)
theory Raft_Fsm_Run
  imports Raft_Fsm_Frame Raft_Log_Matching
begin

text \<open>
  The calls that the server makes on the state machine (\<open>src/raft/server.cc\<close> calls these methods of
  \<open>class fsm\<close> and no others that change it) as events, and sequences of them. The first properties hold
  for every sequence of calls, whatever the messages are.
\<close>

section \<open>Events\<close>

datatype fsm_event =
    EStep server_id rpc_message
  | ETick "server_id \<Rightarrow> bool"
  | EAddEntry entry_data
  | EGetOutput
  | EApplySnapshot snapshot_descriptor nat nat bool
  | ETransferLeadership int
  | EReadBarrier server_id
  | EPingLeader
  | EStop

fun fsm_exec :: "fsm_event \<Rightarrow> fsm \<Rightarrow> fsm result" where
  "fsm_exec (EStep src msg) f = fsm_step f src msg"
| "fsm_exec (ETick alive) f = fsm_tick alive f"
| "fsm_exec (EAddEntry cmd) f = bindE (add_entry f cmd) (\<lambda>(_, f1). Inr f1)"
| "fsm_exec EGetOutput f = bindE (get_output f) (\<lambda>(_, f1). Inr f1)"
| "fsm_exec (EApplySnapshot snp me mb loc) f = bindE (apply_snapshot f snp me mb loc) (\<lambda>(_, f1). Inr f1)"
| "fsm_exec (ETransferLeadership timeout) f = transfer_leadership f timeout"
| "fsm_exec (EReadBarrier requester) f = bindE (start_read_barrier f requester) (\<lambda>(_, f1). Inr f1)"
| "fsm_exec EPingLeader f = ping_leader f"
| "fsm_exec EStop f = fsm_stop f"

section \<open>Monotone systems\<close>

text \<open>
  A transition system with a preorder that every step respects respects it over every run. The client
  lemmas of the locale are about runs, which are \<open>foldE\<close> of the step function.
\<close>

locale monotone_system =
  fixes step :: "'e \<Rightarrow> 's \<Rightarrow> 'err + 's" and leq :: "'s \<Rightarrow> 's \<Rightarrow> bool"
  assumes leq_refl: "leq s s"
    and leq_trans: "leq s t \<Longrightarrow> leq t u \<Longrightarrow> leq s u"
    and step_leq: "step e s = Inr s' \<Longrightarrow> leq s s'"
begin

lemma run_leq: "foldE step es s = Inr s' \<Longrightarrow> leq s s'"
proof (induction es arbitrary: s)
  case (Cons e es)
  then obtain s1 where "step e s = Inr s1" "foldE step es s1 = Inr s'" by auto
  then show ?case using Cons.IH[of s1] step_leq[of e s s1] leq_trans by blast
qed (simp add: leq_refl)

lemma run_prefix_leq:
  assumes "foldE step (es @ es') s = Inr s'"
  shows "\<exists>t. foldE step es s = Inr t \<and> leq s t \<and> leq t s'"
  using assms
proof (induction es arbitrary: s)
  case Nil
  then show ?case using run_leq leq_refl by auto
next
  case (Cons e es)
  then obtain s1 where "step e s = Inr s1" "foldE step (es @ es') s1 = Inr s'" by auto
  moreover from this obtain t where "foldE step es s1 = Inr t" "leq s1 t" "leq t s'" using Cons.IH[of s1] by blast
  ultimately show ?case using leq_trans[OF step_leq[of e s s1]] by auto
qed

end

section \<open>Every call evolves the state\<close>

lemma evolves_advance_stable_idx:
  assumes "advance_stable_idx f i = Inr f'"
  shows "evolves f f'"
proof -
  obtain l where l: "stable_to (f_log f) i = Inr l" using assms by (auto simp: advance_stable_idx_def)
  have "evolves (f\<lparr>f_log := l\<rparr>) f'"
    using assms l
    by (auto simp: advance_stable_idx_def Let_def split: fsm_state.splits option.splits dest!: evolves_maybe_commit)
  then show ?thesis by (simp add: evolves_def)
qed

lemma evolves_apply_snapshot: "apply_snapshot f snp me mb loc = Inr (b, f') \<Longrightarrow> evolves f f'"
  by (auto simp: apply_snapshot_def Let_def evolves_def split: if_splits fsm_state.splits)

lemma evolves_request_vote: "request_vote f src r = Inr f' \<Longrightarrow> evolves f f'"
  by (auto simp: request_vote_def Let_def evolves_def split: if_splits)

lemma evolves_request_vote_reply:
  assumes "request_vote_reply f src r = Inr f'"
  shows "evolves f f'"
proof -
  have e: "evolves (f\<lparr>f_state := s\<rparr>) g \<longleftrightarrow> evolves f g" for s g by (simp add: evolves_def)
  show ?thesis using assms
    by (auto simp: request_vote_reply_def Let_def e split: fsm_state.splits if_splits vote_result.splits
        dest!: evolves_become_candidate evolves_become_leader become_follower_core)
       (auto simp: evolves_def core_def)
qed

lemma evolves_append_entries:
  assumes "append_entries f src r = Inr f'"
  shows "evolves f f'"
proof -
  have e: "evolves f (advance_commit_idx (f\<lparr>f_log := l\<rparr>) i)" for l i
    using evolves_advance_commit_idx[of "f\<lparr>f_log := l\<rparr>" i] by (simp add: evolves_def)
  show ?thesis using assms
    by (auto simp: append_entries_def Let_def e evolves_advance_commit_idx split: prod.splits if_splits)
qed

text \<open>The two halves of handling an accepted reply.\<close>

lemma reply_accepted_split:
  assumes "reply_accepted f src p n = Inr f'"
  obtains f2 where "core f2 = core f" "f_observed f2 = f_observed f"
    "(if \<not> is_leader f2 then Inr f2 else maybe_commit f2) = Inr f'"
proof -
  define p1 where "p1 = become_pipeline (progress_accepted p n)"
  obtain f1 f2 and ls :: leader_state where f1: "update_progress f src p1 = Inr f1"
    and f2: "(if ls_stepdown ls \<noteq> None \<and> ls_timeout_now_sent ls = None \<and> fp_can_vote p1 \<and>
                   fp_match_idx p1 = last_idx (f_log f1)
                then send_timeout_now f1 (fp_id p1) else Inr f1) = Inr f2"
    and f': "(if \<not> is_leader f2 then Inr f2 else maybe_commit f2) = Inr f'"
    using assms unfolding reply_accepted_def Let_def p1_def[symmetric] by (elim bindE_InrE) blast
  have "core f2 = core f1 \<and> f_observed f2 = f_observed f1"
    using f2 send_timeout_now_core by (auto split: if_splits)
  then show thesis using that[of f2] f' update_progress_core[OF f1] by simp
qed

lemma evolves_reply_accepted:
  assumes "reply_accepted f src p n = Inr f'"
  shows "evolves f f'"
proof -
  obtain f2 where f2: "core f2 = core f" "(if \<not> is_leader f2 then Inr f2 else maybe_commit f2) = Inr f'"
    using reply_accepted_split[OF assms] by metis
  have "evolves f2 f'" using f2(2) evolves_maybe_commit by (auto split: if_splits)
  then show ?thesis using evolves_core_left[OF f2(1)] by blast
qed

lemma evolves_append_entries_reply:
  assumes "append_entries_reply f src r = Inr f'"
  shows "evolves f f'"
proof -
  have accepted: "evolves f f'"
    if a: "reply_accepted f src p n = Inr f1" and b: "reply_replicate f1 src = Inr f'" for p n f1
    using evolves_reply_accepted[OF a] reply_replicate_core[OF b] evolves_core_right[of f' f1 f] by blast
  have rejected: "evolves f f'"
    if a: "update_progress f src p = Inr f1" and b: "core f' = core f1 \<and> f_observed f' = f_observed f1" for p f1
    using update_progress_core[OF a] b evolves_core[of f' f] by simp
  show ?thesis using assms unfolding append_entries_reply_def Let_def
    by (auto split: option.splits if_splits append_result.splits dest: accepted rejected[OF _ reply_replicate_core]
      rejected[OF _ replicate_to_member_core] update_progress_core[THEN conjunct1, THEN evolves_core])
qed

lemma evolves_dispatch:
  assumes "dispatch f src msg = Inr f'"
  shows "evolves f f'"
proof -
  have c: "core f' = core f \<and> f_observed f' = f_observed f \<Longrightarrow> evolves f f'" by (simp add: evolves_core)
  have snap: "evolves f (send_to f1 src m)" if "apply_snapshot f snp 0 0 False = Inr (b, f1)" for snp b f1 m
    using evolves_apply_snapshot[OF that] by simp
  show ?thesis using assms
    unfolding dispatch_def step_leader_def step_candidate_def step_follower_def Let_def
    by (auto split: fsm_state.splits rpc_message.splits prod.splits
        dest: evolves_append_entries_reply evolves_request_vote evolves_request_vote_reply evolves_append_entries
          evolves_become_candidate c[OF install_snapshot_reply_core] c[OF handle_read_quorum_reply_core]
        intro: snap evolves_advance_commit_idx)
qed

lemma evolves_reply_stale: "evolves f (reply_stale f src msg)"
  by (auto simp: reply_stale_def Let_def split: rpc_message.splits)

lemma evolves_new_term:
  assumes "become_follower f l = Inr f1" "update_current_term f1 t = Inr f2"
  shows "evolves f f2"
  using become_follower_core[OF assms(1)] evolves_update_current_term[OF assms(2)] evolves_core_left[of f1 f f2] by blast

lemma evolves_fsm_step:
  assumes "fsm_step f src msg = Inr f'"
  shows "evolves f f'"
proof -
  have newer: "evolves f f'" if "become_follower f l = Inr f1" "update_current_term f1 t = Inr f2"
    "dispatch f2 src msg = Inr f'" for l f1 t f2
    using evolves_trans[OF evolves_new_term[OF that(1,2)] evolves_dispatch[OF that(3)]] .
  have heard: "evolves f f'" if "heard_from_leader f src = Inr f1" "dispatch f1 src msg = Inr f'" for f1
    using heard_from_leader_core[OF that(1)] evolves_dispatch[OF that(2)] evolves_core_left[of f1 f f'] by blast
  show ?thesis using assms unfolding fsm_step_def
    by (auto split: if_splits rpc_message.splits dest: newer heard evolves_dispatch simp: evolves_reply_stale)
qed

lemma evolves_fsm_tick:
  assumes "fsm_tick alive f = Inr f'"
  shows "evolves f f'"
proof -
  define f1 where "f1 = f\<lparr>f_clock := clock_advance (f_clock f)\<rparr>"
  have f1: "evolves f f1" by (simp add: f1_def evolves_def clock_advance_def)
  have t: "evolves f1 (f1\<lparr>f_last_election_time := f_clock f1\<rparr>)" by (simp add: evolves_def)
  have l: "core g = core f1 \<and> f_observed g = f_observed f1 \<Longrightarrow> evolves f1 g" for g by (simp add: evolves_core)
  have fin: "evolves f f'" if "search_for_leader alive f2 = Inr f'" "evolves f1 f2" for f2
    using evolves_trans[OF f1 that(2)] search_for_leader_core[OF that(1)] evolves_core_right[of f' f2 f] by blast
  show ?thesis using assms unfolding fsm_tick_def Let_def f1_def[symmetric]
    by (auto split: if_splits dest: fin[OF _ l[OF tick_leader_core]] fin[OF _ evolves_become_candidate]
        fin[OF _ t] fin[OF _ evolves_refl])
qed

lemma flush_leader_core [core_dest]:
  assumes "flush_leader f b = Inr f'"
  shows "core f' = core f \<and> f_observed f' = f_observed f"
proof -
  have r: "core g' = core f \<and> f_observed g' = f_observed f"
    if "fsm_replicate g = Inr g'" "core g = core f \<and> f_observed g = f_observed f" for g g'
    using fsm_replicate_core[OF that(1)] that(2) by simp
  show ?thesis using assms unfolding flush_leader_def
    by (auto split: fsm_state.splits if_splits dest!: broadcast_read_quorum_core r)
qed

text \<open>What a call of \<open>get_output\<close> that returns has done, step by step.\<close>

lemma get_output_split:
  assumes "get_output f = Inr (out, f')"
  obtains f1 f4 where
    "flush_leader f (last_idx (f_log f) - log_stable_idx (f_log f) \<noteq> 0) = Inr f1"
    "f4 = f1\<lparr>f_output := empty_output, f_messages := out_messages (f_output f1),
            f_abort_leadership_transfer := False,
            f_observed := observed_advance (f1\<lparr>f_abort_leadership_transfer := False\<rparr>)\<rparr>"
    "(if last_idx (f_log f) - log_stable_idx (f_log f) > 0
      then log_range (f_log f1) (log_stable_idx (f_log f1) + 1) (last_idx (f_log f1))
      else Inr (out_log_entries (f_output f1))) = Inr (out_log_entries out)"
    "out_term_and_vote out =
      (if ob_current_term (f_observed f1) \<noteq> f_current_term f1 \<or> ob_voted_for (f_observed f1) \<noteq> f_voted_for f1
       then Some (f_current_term f1, f_voted_for f1) else out_term_and_vote (f_output f1))"
    "(if max (ob_commit_idx (f_observed f1)) (snp_idx (log_snapshot (f_log f1))) < f_commit_idx f1
      then log_range (f_log f1) (max (ob_commit_idx (f_observed f1)) (snp_idx (log_snapshot (f_log f1))) + 1) (f_commit_idx f1)
      else Inr (out_committed (f_output f1))) = Inr (out_committed out)"
    "out_messages out = f_messages f1"
    "(if out_log_entries out \<noteq> [] then advance_stable_idx f4 (le_idx (last (out_log_entries out))) else Inr f4) = Inr f'"
proof -
  obtain f1 where f1: "flush_leader f (last_idx (f_log f) - log_stable_idx (f_log f) \<noteq> 0) = Inr f1"
    using assms unfolding get_output_def Let_def by (elim bindE_InrE) blast
  define f4 where "f4 = f1\<lparr>f_output := empty_output, f_messages := out_messages (f_output f1),
            f_abort_leadership_transfer := False,
            f_observed := observed_advance (f1\<lparr>f_abort_leadership_transfer := False\<rparr>)\<rparr>"
  have f4: "f4 = f1\<lparr>f_output := empty_output, f_messages := out_messages (f_output f1),
            f_abort_leadership_transfer := False,
            f_observed := observed_advance (f1\<lparr>f_output := empty_output, f_messages := out_messages (f_output f1),
            f_abort_leadership_transfer := False\<rparr>)\<rparr>"
    by (simp add: f4_def observed_advance_def)
  show thesis
    by (rule that[OF f1 f4_def]; insert assms; unfold get_output_def Let_def f1 bindE_simps;
       auto simp: f4[symmetric] cong: if_cong split del: if_split)
qed

lemma evolves_get_output:
  assumes "get_output f = Inr (out, f')"
  shows "evolves f f'"
  using get_output_split[OF assms]
proof (cases)
  case (1 f1 f4)
  have "evolves f f1" using flush_leader_core[OF 1(1)] by (simp add: evolves_core)
  then have f4: "evolves f f4" by (simp add: 1(2) evolves_def)
  have "evolves f4 f'" using 1(7) evolves_advance_stable_idx by (auto split: if_splits)
  then show ?thesis using evolves_trans[OF f4] by blast
qed

lemma evolves_start_read_barrier: "start_read_barrier f r = Inr (x, f') \<Longrightarrow> evolves f f'"
  by (auto simp: start_read_barrier_def next_read_id_def Let_def split: if_splits option.splits)

lemma evolves_fsm_exec: "fsm_exec e f = Inr f' \<Longrightarrow> evolves f f'"
  by (cases e)
     (auto dest: evolves_fsm_step evolves_fsm_tick evolves_get_output evolves_apply_snapshot evolves_start_read_barrier
       add_entry_bare[THEN evolves_bare] transfer_leadership_core[THEN conjunct1, THEN evolves_core]
       become_follower_core[THEN conjunct1, THEN evolves_core]
       simp: ping_leader_def fsm_stop_def evolves_def split: if_splits)

interpretation fsm_runs: monotone_system fsm_exec evolves
  by unfold_locales (use evolves_trans evolves_fsm_exec in auto)

text \<open>C15: Over every sequence of calls that the server makes on the state machine, whatever messages arrive and
  in whatever order, the identity and configuration of the server never change, its term and its commit index
  never go back, and once it has voted in a term it keeps that vote as long as it is in that term (so a
  server gives at most one vote per term).\<close>

theorem fsm_run_monotone:
  assumes "foldE fsm_exec (es @ es') f = Inr f'"
  shows "\<exists>g. foldE fsm_exec es f = Inr g \<and> f_my_id f' = f_my_id g \<and> f_config f' = f_config g \<and>
    f_current_term g \<le> f_current_term f' \<and> f_commit_idx g \<le> f_commit_idx f' \<and>
    (f_current_term f' = f_current_term g \<and> f_voted_for g \<noteq> 0 \<longrightarrow> f_voted_for f' = f_voted_for g)"
  using fsm_runs.run_prefix_leq[OF assms] by (auto simp: evolves_def)

text \<open>The follower with id 1 of a cluster, with the log of \<open>ex_follower_log\<close>, in term 2.\<close>

definition ex_follower :: fsm where
  "ex_follower = \<lparr>f_my_id = 1, f_state = Follower 0, f_current_term = 2, f_voted_for = 0, f_commit_idx = 1,
     f_log = ex_follower_log,
     f_config = \<lparr>cfg_append_request_threshold = 1000, cfg_max_log_size = 10000, cfg_enable_prevoting = False\<rparr>,
     f_abort_leadership_transfer = False, f_ping_leader = False,
     f_observed = \<lparr>ob_current_term = 2, ob_voted_for = 0, ob_commit_idx = 1, ob_last_conf_idx = 0,
       ob_last_term = 2, ob_abort_leadership_transfer = False\<rparr>,
     f_output = empty_output, f_clock = 0, f_last_election_time = 0,
     f_randomized_election_timeout = 11, f_messages = [], f_sm_events = 0, f_random = (\<lambda>n. n)\<rparr>"

definition ex_vote_request :: "term_t \<Rightarrow> rpc_message" where
  "ex_vote_request t = VoteRequest \<lparr>vreq_current_term = t, vreq_last_log_idx = 3, vreq_last_log_term = 3,
     vreq_is_prevote = False, vreq_force = False\<rparr>"

lemma ex_follower_log_term: "last_term ex_follower_log = 2"
  by (simp add: last_term_def ex_follower_log_def ex_log_def ex_entry_def)

lemmas vote_simps = ex_follower_def ex_vote_request_def fsm_step_def ignores_term_def from_leader_def
  become_follower_def is_follower_def update_current_term_def dispatch_def step_follower_def request_vote_def
  current_leader_def is_up_to_date_def send_to_def signal_events_def ex_follower_log_term

lemma fsm_run_monotone_witness:
  "\<exists>f'. foldE fsm_exec ([EStep 2 (ex_vote_request 4)] @ [EStep 3 (ex_vote_request 4)]) ex_follower = Inr f' \<and>
     f_voted_for f' = 2 \<and> f_current_term f' = 4"
proof -
  obtain f' where f': "foldE fsm_exec ([EStep 2 (ex_vote_request 4)] @ [EStep 3 (ex_vote_request 4)]) ex_follower = Inr f'"
    "f_current_term f' = 4"
    by (simp add: vote_simps)
  obtain g where g: "foldE fsm_exec [EStep 2 (ex_vote_request 4)] ex_follower = Inr g"
    "f_current_term g = 4" "f_voted_for g = 2"
    by (simp add: vote_simps)
  show ?thesis using fsm_run_monotone[OF f'(1)] f' g by auto
qed

end
