(* ===== verification/Raft_Ballots.thy ===== *)
theory Raft_Ballots
  imports Raft_Fsm_Run
begin

text \<open>
  What one state machine promises about its votes: which operations leave them alone, and an invariant that
  ties the votes it counts, and the grants it has queued, to its term and vote. \<open>Raft_Cluster\<close> composes it over
  the servers of a cluster.
\<close>

section \<open>The electoral part of the state\<close>

text \<open>A reply that grants a vote, outside of the prevote round.\<close>

definition is_grant :: "rpc_message \<Rightarrow> bool" where
  "is_grant m = (case m of VoteReply r \<Rightarrow> vrep_vote_granted r \<and> \<not> vrep_is_prevote r | _ \<Rightarrow> False)"

lemma is_grant_simps [simp]:
  "\<not> is_grant (AppendRequest a)" "\<not> is_grant (AppendReply b)" "\<not> is_grant (VoteRequest c)"
  "is_grant (VoteReply r) \<longleftrightarrow> vrep_vote_granted r \<and> \<not> vrep_is_prevote r"
  "\<not> is_grant (InstallSnapshot d)" "\<not> is_grant (SnapshotReply e)" "\<not> is_grant (TimeoutNow g)"
  "\<not> is_grant (ReadQuorum h)" "\<not> is_grant (ReadQuorumReply i)"
  by (simp_all add: is_grant_def)

datatype standing = Idle | Running votes | Elected

definition standing :: "fsm \<Rightarrow> standing" where
  "standing f = (case f_state f of Candidate v False \<Rightarrow> Running v | Leader _ \<Rightarrow> Elected | _ \<Rightarrow> Idle)"

definition grants :: "fsm \<Rightarrow> (server_id \<times> rpc_message) list" where
  "grants f = filter (\<lambda>(d, m). is_grant m) (f_messages f)"

definition vv :: "fsm \<Rightarrow> server_id \<times> term_t \<times> server_id \<times> last_observed_state \<times> (server_id \<times> rpc_message) list \<times>
    (term_t \<times> server_id) option \<times> (server_id \<times> rpc_message) list" where
  "vv f = (f_my_id f, f_current_term f, f_voted_for f, f_observed f, grants f,
     out_term_and_vote (f_output f), out_messages (f_output f))"

definition calm :: "fsm \<Rightarrow> fsm \<Rightarrow> bool" where
  "calm f f' \<longleftrightarrow> vv f' = vv f \<and> (standing f' = standing f \<or> standing f' = Idle)"

lemma calm_refl [simp]: "calm f f"
  by (simp add: calm_def)

lemma calm_trans: "calm f g \<Longrightarrow> calm g h \<Longrightarrow> calm f h"
  by (auto simp: calm_def)

lemma vv_simps [simp]:
  "vv (signal_events f) = vv f" "vv (set_leader_state f ls) = vv f" "\<not> is_grant m \<Longrightarrow> vv (send_to f dst m) = vv f"
  "standing (signal_events f) = standing f" "standing (set_leader_state f ls) = Elected"
  "standing (send_to f dst m) = standing f"
  by (simp_all add: vv_def grants_def signal_events_def set_leader_state_def send_to_def standing_def)

lemma standing_leader [simp]: "f_state f = Leader ls \<Longrightarrow> standing f = Elected"
  "f_state f = Follower l \<Longrightarrow> standing f = Idle" "f_state f = Candidate v pre \<Longrightarrow> standing f = (if pre then Idle else Running v)"
  by (simp_all add: standing_def)

lemma standing_Elected: "standing f = Elected \<longleftrightarrow> is_leader f"
  by (auto simp: standing_def is_leader_def split: fsm_state.splits bool.splits)

named_theorems calm_dest \<open>an operation that returns has not touched the votes\<close>

lemma become_follower_calm [calm_dest]: "become_follower f l = Inr f' \<Longrightarrow> vv f' = vv f \<and> standing f' = Idle"
  by (auto simp: become_follower_def vv_def grants_def standing_def Let_def split: if_splits)

lemma replicate_to_calm: "replicate_to f p ae = Inr (f', p') \<Longrightarrow> vv f' = vv f"
  by (induction rule: replicate_to_rule) simp_all

lemma replicate_to_member_calm [calm_dest]:
  "replicate_to_member f dst ae = Inr f' \<Longrightarrow> vv f' = vv f \<and> standing f' = Elected \<and> standing f = Elected"
  by (auto simp: replicate_to_member_def split: option.splits dest!: replicate_to_calm)

lemma update_progress_calm [calm_dest]:
  "update_progress f dst p = Inr f' \<Longrightarrow> vv f' = vv f \<and> standing f' = Elected \<and> standing f = Elected"
  by (auto simp: update_progress_def)

lemma handle_read_quorum_reply_calm [calm_dest]:
  "handle_read_quorum_reply f src r = Inr f' \<Longrightarrow> vv f' = vv f \<and> standing f' = Elected \<and> standing f = Elected"
  by (auto simp: handle_read_quorum_reply_def Let_def split: option.splits if_splits)
     (auto simp: vv_def grants_def signal_events_def set_leader_state_def standing_def)

lemma foldE_calm:
  assumes "\<And>x s s'. g x s = Inr s' \<Longrightarrow> vv (h s') = vv (h s) \<and> standing (h s') = standing (h s)"
    "foldE g xs s = Inr s'"
  shows "vv (h s') = vv (h s) \<and> standing (h s') = standing (h s)"
  using assms(2)
proof (induction xs arbitrary: s)
  case (Cons x xs)
  then obtain s1 where "g x s = Inr s1" "foldE g xs s1 = Inr s'" by auto
  then show ?case using Cons.IH[of s1] assms(1)[of x s s1] by simp
qed simp

lemma broadcast_read_quorum_calm [calm_dest]:
  assumes "broadcast_read_quorum f rid = Inr f'"
  shows "vv f' = vv f \<and> standing f' = Elected \<and> standing f = Elected"
proof -
  have body: "vv s' = vv s \<and> standing s' = standing s" if "read_quorum_to rid x s = Inr s'" for x s s'
    using that by (auto simp: read_quorum_to_def Let_def split: if_splits dest: handle_read_quorum_reply_calm)
  obtain ls :: leader_state where ls: "f_state f = Leader ls" "foldE (read_quorum_to rid) (tr_progress (ls_tracker ls)) f = Inr f'"
    using assms unfolding broadcast_read_quorum_def by auto
  then show ?thesis using foldE_calm[where h = "\<lambda>s. s", OF body ls(2)] by simp
qed

lemma rebroadcast_reads_calm [calm_dest]:
  "rebroadcast_reads f = Inr f' \<Longrightarrow> vv f' = vv f \<and> standing f' = standing f"
  by (auto simp: rebroadcast_reads_def split: fsm_state.splits if_splits dest!: broadcast_read_quorum_calm)

lemma fsm_replicate_calm [calm_dest]:
  assumes "fsm_replicate f = Inr f'"
  shows "vv f' = vv f \<and> standing f' = Elected \<and> standing f = Elected"
proof -
  have body: "vv s' = vv s \<and> standing s' = standing s" if "replicate_other x s = Inr s'" for x s s'
    using that by (auto simp: replicate_other_def split: if_splits dest: replicate_to_member_calm)
  obtain ls :: leader_state where ls: "f_state f = Leader ls" "foldE replicate_other (tr_progress (ls_tracker ls)) f = Inr f'"
    using assms unfolding fsm_replicate_def by auto
  then show ?thesis using foldE_calm[where h = "\<lambda>s. s", OF body ls(2)] by simp
qed

lemma send_timeout_now_calm [calm_dest]:
  "send_timeout_now f srv = Inr f' \<Longrightarrow> vv f' = vv f \<and> standing f = Elected \<and> (standing f' = Elected \<or> standing f' = Idle)"
  by (auto simp: send_timeout_now_def Let_def split: option.splits if_splits dest!: calm_dest)

lemma transfer_leadership_calm [calm_dest]:
  "transfer_leadership f t = Inr f' \<Longrightarrow> vv f' = vv f \<and> standing f = Elected \<and> (standing f' = Elected \<or> standing f' = Idle)"
  by (auto simp: transfer_leadership_def Let_def split: option.splits if_splits dest!: send_timeout_now_calm)

lemma stepdown_if_removed_calm [calm_dest]:
  "stepdown_if_removed f ls = Inr f' \<Longrightarrow> standing f = Elected \<Longrightarrow> vv f' = vv f \<and> (standing f' = Elected \<or> standing f' = Idle)"
  by (auto simp: stepdown_if_removed_def split: option.splits if_splits dest!: transfer_leadership_calm)

lemma install_snapshot_reply_calm [calm_dest]:
  "install_snapshot_reply f src r = Inr f' \<Longrightarrow> vv f' = vv f \<and> standing f = Elected \<and> standing f' = Elected"
  by (auto simp: install_snapshot_reply_def split: option.splits if_splits dest!: calm_dest)

lemma reply_replicate_calm [calm_dest]: "reply_replicate f src = Inr f' \<Longrightarrow> vv f' = vv f \<and> standing f' = standing f"
  by (auto simp: reply_replicate_def split: if_splits dest!: replicate_to_member_calm)

lemma track_configuration_calm [calm_dest]:
  "track_configuration f = Inr f' \<Longrightarrow> vv f' = vv f \<and> standing f = Elected \<and> standing f' = Elected"
  by (auto simp: track_configuration_def)

lemma heard_from_leader_calm [calm_dest]:
  "heard_from_leader f src = Inr f' \<Longrightarrow> vv f' = vv f \<and> (standing f' = standing f \<or> standing f' = Idle)"
  by (auto simp: heard_from_leader_def split: if_splits fsm_state.splits dest!: become_follower_calm)
     (auto simp: vv_def grants_def standing_def)

lemma tick_leader_calm [calm_dest]:
  assumes "tick_leader alive f = Inr f'"
  shows "vv f' = vv f \<and> (standing f' = standing f \<or> standing f' = Idle)"
proof -
  have fol: "vv (fst s') = vv (fst s) \<and> standing (fst s') = standing (fst s)"
    if "tick_follower alive x s = Inr s'" for x s s'
    using that by (cases s) (auto simp: tick_follower_def Let_def split: option.splits if_splits dest!: calm_dest)
  have stp: "vv s' = vv s \<and> standing s' = standing s" if "tick_stepdown s = Inr s'" for s s'
    using that by (auto simp: tick_stepdown_def split: option.splits if_splits)
      (auto simp: vv_def grants_def signal_events_def set_leader_state_def standing_def)
  show ?thesis
  proof (cases "election_elapsed f \<ge> ELECTION_TIMEOUT")
    case True
    then show ?thesis using assms become_follower_calm by (auto simp: tick_leader_def)
  next
    case False
    then obtain ls ls2 :: leader_state and f1 a f2 where s: "foldE (tick_follower alive) (map fst (tr_progress (ls_tracker ls)))
        (f, activity_add (ls_tracker ls) get_activity_tracker (f_my_id f)) = Inr (f1, a)"
      "rebroadcast_reads f1 = Inr f2"
      "tick_stepdown (if activity_bool (ls_tracker ls2) a then f2\<lparr>f_last_election_time := f_clock f2\<rparr> else f2) = Inr f'"
      using assms by (auto simp: tick_leader_def Let_def split del: if_split)
    have "vv (f2\<lparr>f_last_election_time := f_clock f2\<rparr>) = vv f2 \<and> standing (f2\<lparr>f_last_election_time := f_clock f2\<rparr>) = standing f2"
      by (simp add: vv_def grants_def standing_def)
    then show ?thesis
      using foldE_calm[where h = fst, OF fol s(1)] rebroadcast_reads_calm[OF s(2)] stp[OF s(3)] by (auto split: if_splits)
  qed
qed

lemma search_for_leader_calm [calm_dest]:
  assumes "search_for_leader alive f = Inr f'"
  shows "vv f' = vv f \<and> standing f' = standing f"
proof -
  have "vv (fold (ping_voter alive) c f) = vv f \<and> standing (fold (ping_voter alive) c f) = standing f" for c f
    by (induction c arbitrary: f) (simp_all add: ping_voter_def)
  then show ?thesis using assms by (auto simp: search_for_leader_def split: if_splits)
qed

lemma log_update_calm [simp]:
  "vv (f\<lparr>f_log := l\<rparr>) = vv f" "standing (f\<lparr>f_log := l\<rparr>) = standing f"
  "vv (f\<lparr>f_commit_idx := n\<rparr>) = vv f" "standing (f\<lparr>f_commit_idx := n\<rparr>) = standing f"
  "vv (f\<lparr>f_last_election_time := t\<rparr>) = vv f" "standing (f\<lparr>f_last_election_time := t\<rparr>) = standing f"
  "vv (f\<lparr>f_clock := t\<rparr>) = vv f" "standing (f\<lparr>f_clock := t\<rparr>) = standing f"
  by (simp_all add: vv_def grants_def standing_def)

lemma advance_commit_idx_calm [simp]:
  "vv (advance_commit_idx f i) = vv f" "standing (advance_commit_idx f i) = standing f"
  by (simp_all add: advance_commit_idx_def Let_def)

lemma add_entry_calm [calm_dest]:
  "add_entry f cmd = Inr (e, f') \<Longrightarrow> vv f' = vv f \<and> standing f = Elected \<and> standing f' = Elected"
  by (auto simp: add_entry_def check_conf_change_def Let_def split: if_splits entry_data.splits
      dest!: track_configuration_calm)

lemma leave_joint_entry_calm [calm_dest]:
  "leave_joint_entry f conf = Inr f' \<Longrightarrow> vv f' = vv f \<and> standing f = Elected \<and> standing f' = Elected"
  by (auto simp: leave_joint_entry_def dest!: track_configuration_calm)

lemma maybe_commit_calm [calm_dest]:
  "maybe_commit f = Inr f' \<Longrightarrow> vv f' = vv f \<and> standing f = Elected \<and> (standing f' = Elected \<or> standing f' = Idle)"
proof (induction rule: maybe_commit_rule)
  case (simple f ls n conf f2 f')
  then have "standing (commit_to f n) = Elected" by simp
  from stepdown_if_removed_calm[OF simple(6) this] rebroadcast_reads_calm[OF simple(7)] simple(1) show ?case by auto
next
  case (joint f ls n conf f2 f3 f')
  from leave_joint_entry_calm[OF joint(6)] joint(8) rebroadcast_reads_calm[OF joint(7)] joint(1) show ?case by auto
qed simp_all

lemma advance_stable_idx_calm [calm_dest]:
  assumes "advance_stable_idx f i = Inr f'"
  shows "vv f' = vv f \<and> (standing f' = standing f \<or> standing f' = Idle)"
  using assms
  by (auto simp: advance_stable_idx_def Let_def split: fsm_state.splits option.splits dest!: maybe_commit_calm)

lemma apply_snapshot_calm [calm_dest]:
  assumes "apply_snapshot f snp me mb loc = Inr (b, f')"
  shows "vv f' = vv f \<and> standing f' = standing f"
proof -
  have f': "f_my_id f' = f_my_id f \<and> f_current_term f' = f_current_term f \<and> f_voted_for f' = f_voted_for f \<and>
    f_observed f' = f_observed f \<and> f_messages f' = f_messages f \<and>
    out_term_and_vote (f_output f') = out_term_and_vote (f_output f) \<and> out_messages (f_output f') = out_messages (f_output f) \<and>
    (f_state f' = f_state f \<or> is_leader f' \<and> is_leader f)"
    using assms by (cases "f_state f"; simp add: apply_snapshot_def Let_def is_leader_def set_leader_state_def signal_events_def
        split: if_splits; elim bindE_InrE; auto)
  then have "standing f' = standing f" by (auto simp: standing_def is_leader_def split: fsm_state.splits)
  then show ?thesis using f' by (simp add: vv_def grants_def)
qed

lemma append_entries_calm [calm_dest]:
  "append_entries f src r = Inr f' \<Longrightarrow> vv f' = vv f \<and> standing f' = standing f"
  by (auto simp: append_entries_def Let_def split: prod.splits if_splits)

lemma append_entries_reply_calm [calm_dest]:
  assumes "append_entries_reply f src r = Inr f'"
  shows "vv f' = vv f \<and> (standing f' = Elected \<or> standing f' = Idle) \<and> standing f = Elected"
proof -
  have acc: "vv f1 = vv f \<and> (standing f1 = Elected \<or> standing f1 = Idle)" if "reply_accepted f src p n = Inr f1" for p n f1
    using that unfolding reply_accepted_def Let_def by (auto split: if_splits dest!: calm_dest)
  show ?thesis using assms unfolding append_entries_reply_def Let_def
    by (auto split: option.splits if_splits append_result.splits dest!: acc reply_replicate_calm
        replicate_to_member_calm update_progress_calm)
qed

lemma flush_leader_calm [calm_dest]:
  assumes "flush_leader f b = Inr f'"
  shows "vv f' = vv f \<and> standing f' = standing f"
  using assms unfolding flush_leader_def
  by (auto split: fsm_state.splits if_splits dest!: broadcast_read_quorum_calm fsm_replicate_calm)

lemma start_read_barrier_calm [calm_dest]:
  "start_read_barrier f r = Inr (x, f') \<Longrightarrow> vv f' = vv f \<and> standing f' = standing f"
  by (auto simp: start_read_barrier_def next_read_id_def Let_def split: if_splits option.splits)

lemma become_leader_votes:
  "become_leader f = Inr f' \<Longrightarrow> vv f' = vv f \<and> standing f' = Elected"
  by (auto simp: become_leader_def Let_def dest!: track_configuration_calm add_entry_calm) (simp add: vv_def grants_def)

section \<open>Votes of one server\<close>

text \<open>A server in term \<open>T\<close> with vote \<open>V\<close> cannot grant its vote in term \<open>t\<close> to anyone but \<open>d\<close> any more.\<close>

definition covers :: "term_t \<Rightarrow> server_id \<Rightarrow> term_t \<Rightarrow> server_id \<Rightarrow> bool" where
  "covers T V t d \<longleftrightarrow> d \<noteq> 0 \<and> (t < T \<or> (t = T \<and> V = d))"

text \<open>The replies that a candidate counted as votes: its own, if it voted for itself, and those of the servers in
  \<open>N t\<close>, which have granted it their vote in term \<open>t\<close>.\<close>

definition backed :: "(term_t \<Rightarrow> server_id set) \<Rightarrow> fsm \<Rightarrow> (server_id \<times> bool) list \<Rightarrow> bool" where
  "backed N f rs \<longleftrightarrow> (\<forall>q \<in> granted_by rs.
     if q = f_my_id f then f_voted_for f = f_my_id f else q \<in> N (f_current_term f))"

text \<open>The grants among some messages, as pairs of a term and a candidate.\<close>

definition issued :: "(server_id \<times> rpc_message) list \<Rightarrow> (term_t \<times> server_id) set" where
  "issued ms = {(message_term m, d) |d m. (d, m) \<in> set ms \<and> is_grant m}"

lemma issued_snoc: "is_grant m \<Longrightarrow> issued (ms @ [(d, m)]) = insert (message_term m, d) (issued ms)"
  unfolding issued_def by auto

text \<open>Grants that go to one candidate per term; the ones of the current term \<open>T\<close> go to \<open>V\<close>.\<close>

definition one_vote :: "term_t \<Rightarrow> server_id \<Rightarrow> (term_t \<times> server_id) set \<Rightarrow> bool" where
  "one_vote T V S \<longleftrightarrow> single_valued S \<and> (\<forall>t d. (t, d) \<in> S \<longrightarrow> covers T V t d)"

lemma one_vote_later:
  "one_vote T V S \<Longrightarrow> T \<le> T' \<Longrightarrow> (T = T' \<Longrightarrow> V \<noteq> 0 \<Longrightarrow> V' = V) \<Longrightarrow> one_vote T' V' S"
  by (force simp: one_vote_def covers_def)

lemma one_vote_insert: "one_vote T V S \<Longrightarrow> V \<noteq> 0 \<Longrightarrow> one_vote T V (insert (T, V) S)"
  by (auto simp: one_vote_def covers_def single_valued_def)

lemma one_vote_empty [simp]: "one_vote T V {}"
  by (simp add: one_vote_def)

text \<open>In the invariant \<open>A\<close> are the grants that the server has handed over before, and \<open>C\<close> has the configurations in which it
  may ask for votes, each with the term of the election.\<close>

definition vote_inv :: "(term_t \<times> configuration) set \<Rightarrow> (term_t \<Rightarrow> server_id set) \<Rightarrow> (term_t \<times> server_id) set \<Rightarrow> fsm \<Rightarrow> bool" where
  "vote_inv C N A f \<longleftrightarrow> f_my_id f \<noteq> 0 \<and> out_term_and_vote (f_output f) = None \<and> out_messages (f_output f) = [] \<and>
     one_vote (f_current_term f) (f_voted_for f) (A \<union> issued (grants f)) \<and>
     (case standing f of
        Idle \<Rightarrow> True
      | Running v \<Rightarrow> (\<exists>c. (f_current_term f, c) \<in> C \<and> (\<exists>rs. v = votes_run rs (make_votes c) \<and> backed N f rs))
      | Elected \<Rightarrow> (\<exists>c. (f_current_term f, c) \<in> C \<and> (\<exists>rs. tally_votes (votes_run rs (make_votes c)) = Inr WON \<and> backed N f rs)))"

lemma vote_inv_calm:
  assumes "vote_inv C N A f" "vv f' = vv f" "standing f' = standing f \<or> standing f' = Idle"
  shows "vote_inv C N A f'"
proof -
  have "f_my_id f' = f_my_id f" "f_current_term f' = f_current_term f" "f_voted_for f' = f_voted_for f"
    "out_term_and_vote (f_output f') = out_term_and_vote (f_output f)" "out_messages (f_output f') = out_messages (f_output f)"
    "grants f' = grants f"
    using assms(2) by (simp_all add: vv_def)
  note eqs = this
  then have b: "backed N f' = backed N f" by (simp add: backed_def fun_eq_iff)
  show ?thesis using assms(1,3) unfolding vote_inv_def eqs b by auto
qed

lemma vote_inv_mono:
  assumes "vote_inv C N A f" "\<And>t. N t \<subseteq> N' t"
  shows "vote_inv C N' A f"
proof -
  have b: "backed N f rs \<Longrightarrow> backed N' f rs" for rs
    using assms(2)[of "f_current_term f"] by (auto simp: backed_def split: if_splits)
  show ?thesis
    using assms(1) b unfolding vote_inv_def by (cases "standing f"; simp; blast)
qed

text \<open>Only the elections of the current term count.\<close>

lemma vote_inv_restrict:
  assumes "vote_inv C N A f" "standing f \<noteq> Idle \<Longrightarrow> (\<And>c. (f_current_term f, c) \<in> C \<Longrightarrow> (f_current_term f, c) \<in> C')"
  shows "vote_inv C' N A f"
  using assms unfolding vote_inv_def by (cases "standing f"; simp; blast)

lemma vote_inv_idle:
  assumes "vote_inv C N A f" "standing f' = Idle" "evolves f f'" "f_output f' = f_output f \<or> vv f' = vv f"
    "grants f' = grants f"
  shows "vote_inv C N A f'"
proof -
  have "one_vote (f_current_term f') (f_voted_for f') (A \<union> issued (grants f))"
    using assms(1,3) one_vote_later unfolding vote_inv_def evolves_def by metis
  moreover have "out_term_and_vote (f_output f') = out_term_and_vote (f_output f)"
    "out_messages (f_output f') = out_messages (f_output f)" using assms(4) by (auto simp: vv_def)
  moreover have "f_my_id f' = f_my_id f" using assms(3) by (simp add: evolves_def)
  ultimately show ?thesis using assms(1,2,5) unfolding vote_inv_def by auto
qed

lemma vote_inv_become_leader:
  assumes "become_leader f = Inr f'" "vote_inv C N A f" "standing f = Running v" "tally_votes v = Inr WON"
  shows "vote_inv C N A f'"
proof -
  have "backed N (f\<lparr>f_state := Leader make_leader\<rparr>) = backed N f" by (simp add: backed_def fun_eq_iff)
  then have "vote_inv C N A (f\<lparr>f_state := Leader make_leader\<rparr>)"
    using assms(2-4) by (auto simp: vote_inv_def grants_def standing_def[of "f\<lparr>f_state := _\<rparr>"])
  moreover have "vv (f\<lparr>f_state := Leader make_leader\<rparr>) = vv f" "standing (f\<lparr>f_state := Leader make_leader\<rparr>) = Elected"
    by (simp_all add: vv_def grants_def standing_def)
  ultimately show ?thesis using vote_inv_calm[of C N A _ f'] become_leader_votes[OF assms(1)] by simp
qed

text \<open>The loop over the voters registers the candidate's own vote only, and sends requests to the others.\<close>

lemma solicit_votes_loop:
  assumes "fold (solicit_vote trm pre tr) vs (f, v) = (f', v')"
  shows "\<exists>rs. v' = votes_run rs v \<and> set rs \<subseteq> {(f_my_id f, True)} \<and> (rs \<noteq> [] \<longrightarrow> f_my_id f \<in> addr_id ` set vs) \<and>
    grants f' = grants f \<and> f_output f' = f_output f"
  using assms
proof (induction vs arbitrary: f v)
  case Nil
  then show ?case by (intro exI[of _ "[]"]) (simp add: run_Cons)
next
  case (Cons a vs)
  obtain f1 v1 where 1: "solicit_vote trm pre tr a (f, v) = (f1, v1)" by fastforce
  have f1: "f_my_id f1 = f_my_id f" "f_output f1 = f_output f"
    "grants f1 = grants f"
    "v1 = (if addr_id a = f_my_id f then register_vote v (f_my_id f) True else v)"
    using 1 by (auto simp: solicit_vote_def grants_def send_to_def signal_events_def split: if_splits)
  have "fold (solicit_vote trm pre tr) vs (f1, v1) = (f', v')" using Cons.prems 1 by simp
  from Cons.IH[OF this, unfolded f1(1-3)]
  obtain rs where rs: "v' = votes_run rs v1" "set rs \<subseteq> {(f_my_id f, True)}" "rs \<noteq> [] \<longrightarrow> f_my_id f \<in> addr_id ` set vs"
    "grants f' = grants f" "f_output f' = f_output f"
    by blast
  show ?case
  proof (cases "addr_id a = f_my_id f")
    case True
    then show ?thesis using rs f1(4) by (intro exI[of _ "(f_my_id f, True) # rs"]) (auto simp: run_Cons)
  next
    case False
    then show ?thesis using rs f1(4) by (intro exI[of _ rs]) auto
  qed
qed

lemma granted_by_own: "set rs \<subseteq> {(i, True)} \<Longrightarrow> granted_by rs \<subseteq> {i} \<and> (granted_by rs \<noteq> {} \<longrightarrow> rs \<noteq> [])"
  by (auto simp: granted_by_def dest!: map_of_SomeD)

lemma enter_candidate_votes:
  assumes "enter_candidate pre f = Inr (v, f1)"
  shows "vv f1 = vv f"
  using assms by (auto simp: enter_candidate_def reset_election_timeout_def fsm_get_configuration_def Let_def vv_def grants_def)

text \<open>A round of voting keeps the invariant if what follows a won round keeps it.\<close>

lemma vote_inv_solicit_votes:
  assumes s: "solicit_votes on_won pre tr (make_votes conf) f = Inr f'" and inv: "vote_inv C N A (f\<lparr>f_state := Follower 0\<rparr>)"
    and C: "\<not> pre \<Longrightarrow> (f_current_term f + 1, conf) \<in> C" "get_configuration (f_log f) = Inr conf"
    and won: "\<And>g g'. on_won g = Inr g' \<Longrightarrow> vote_inv C N A g \<Longrightarrow> get_configuration (f_log g) = Inr conf \<Longrightarrow>
      (pre \<Longrightarrow> f_current_term g = f_current_term f) \<Longrightarrow> (\<not> pre \<Longrightarrow> \<exists>v. standing g = Running v \<and> tally_votes v = Inr WON) \<Longrightarrow> vote_inv C N A g'"
  shows "vote_inv C N A f'"
proof -
  obtain f1 where f1: "(if \<not> pre then update_current_term f (f_current_term f + 1) else Inr f) = Inr f1"
    and r: "(let (f2, v') = fold (solicit_vote (f_current_term f + 1) pre tr) (v_voters (make_votes conf)) (f1, make_votes conf);
             f3 = f2\<lparr>f_state := Candidate v' pre\<rparr>
         in bindE (tally_votes v') (\<lambda>r. if r = WON then on_won f3 else Inr f3)) = Inr f'"
    using s unfolding solicit_votes_def Let_def by (rule bindE_InrE)
  obtain f2 v' where 2: "fold (solicit_vote (f_current_term f + 1) pre tr) (v_voters (make_votes conf)) (f1, make_votes conf) = (f2, v')"
    by fastforce
  define f3 where "f3 = f2\<lparr>f_state := Candidate v' pre\<rparr>"
  note fr = solicit_votes_frame[where trm = "f_current_term f + 1" and pre = pre and tr = tr
      and vs = "v_voters (make_votes conf)" and fv = "(f1, make_votes conf)", unfolded 2 fst_conv]
  have f1': "f_my_id f1 = f_my_id f" "f_log f1 = f_log f" "f_output f1 = f_output f" "grants f1 = grants f"
    "pre \<Longrightarrow> f1 = f" "\<not> pre \<Longrightarrow> f_current_term f1 = f_current_term f + 1"
    using f1 by (auto simp: update_current_term_def grants_def split: if_splits)
  obtain rs where rs: "v' = votes_run rs (make_votes conf)" "set rs \<subseteq> {(f_my_id f, True)}"
    "rs \<noteq> [] \<longrightarrow> f_my_id f \<in> addr_id ` set (v_voters (make_votes conf))" "grants f3 = grants f" "f_output f3 = f_output f"
    using solicit_votes_loop[OF 2] f1' by (auto simp: f3_def grants_def)
  have t3: "f_current_term f3 = (if pre then f_current_term f else f_current_term f + 1)" using fr f1'(5,6) by (auto simp: f3_def)
  have evo: "evolves (f\<lparr>f_state := Follower 0\<rparr>) f3"
    using f1 evolves_update_current_term[of f] fr by (cases pre) (auto simp: evolves_def f3_def)
  have "vote_inv C N A f3"
  proof (cases pre)
    case True
    then have "standing f3 = Idle" by (simp add: f3_def)
    then show ?thesis using vote_inv_idle[OF inv _ evo] rs(4,5) by (simp add: grants_def)
  next
    case False
    have idle: "vote_inv C N A (f3\<lparr>f_state := Follower 0\<rparr>)"
      by (intro vote_inv_idle[OF inv]) (use evo rs in \<open>simp_all add: standing_def evolves_def grants_def\<close>)
    have "backed N f3 rs"
      using granted_by_own[OF rs(2)] rs(3) fr False f1'(1) by (auto simp: backed_def f3_def)
    moreover have "standing f3 = Running v'" using False by (simp add: f3_def)
    ultimately show ?thesis using idle rs(1) C(1)[OF False] t3 False by (auto simp: vote_inv_def grants_def)
  qed
  moreover have "get_configuration (f_log f3) = Inr conf" using fr f1' C by (simp add: f3_def)
  moreover have "\<not> pre \<Longrightarrow> standing f3 = Running v'" by (simp add: f3_def)
  moreover have "pre \<Longrightarrow> f_current_term f3 = f_current_term f" by (simp add: t3)
  ultimately show ?thesis
    using r won[of f3 f'] unfolding 2 f3_def[symmetric] Let_def by (auto simp: f3_def[symmetric] split: if_splits)
qed

lemma vote_inv_campaign:
  assumes "campaign on_won pre tr f = Inr f'" "vote_inv C N A f"
    and C: "\<And>c. \<not> pre \<Longrightarrow> get_configuration (f_log f) = Inr c \<Longrightarrow> (f_current_term f + 1, c) \<in> C"
    and won: "\<And>g g' conf. on_won g = Inr g' \<Longrightarrow> vote_inv C N A g \<Longrightarrow> get_configuration (f_log f) = Inr conf \<Longrightarrow>
      get_configuration (f_log g) = Inr conf \<Longrightarrow> (pre \<Longrightarrow> f_current_term g = f_current_term f) \<Longrightarrow> (\<not> pre \<Longrightarrow> \<exists>v. standing g = Running v \<and> tally_votes v = Inr WON) \<Longrightarrow> vote_inv C N A g'"
  shows "vote_inv C N A f'"
proof -
  obtain v f1 go where f1: "enter_candidate pre f = Inr (v, f1)"
    and r: "(if \<not> go then become_follower f1 0 else solicit_votes on_won pre tr v f1) = Inr f'"
    using assms(1) unfolding campaign_def by (auto split del: if_split)
  obtain conf where conf: "get_configuration (f_log f) = Inr conf" "v = make_votes conf"
    using enter_candidate_core(4)[OF f1] by blast
  note c = enter_candidate_core[OF f1] enter_candidate_votes[OF f1]
  have log: "f_log f1 = f_log f" "f_current_term f1 = f_current_term f" using coreD[OF c(1)] by auto
  have inv1: "vote_inv C N A (f1\<lparr>f_state := Follower 0\<rparr>)"
    using vote_inv_calm[OF assms(2), of "f1\<lparr>f_state := Follower 0\<rparr>"] c(5) by (simp add: vv_def grants_def standing_def)
  show ?thesis
  proof (cases go)
    case True
    then have "solicit_votes on_won pre tr (make_votes conf) f1 = Inr f'" using r conf by simp
    then show ?thesis
      by (rule vote_inv_solicit_votes[OF _ inv1]) (use conf log won C[OF _ conf(1)] in auto)
  next
    case False
    then show ?thesis using r vote_inv_calm[OF assms(2)] c(5) become_follower_calm[of f1 0 f'] by auto
  qed
qed

lemma vote_inv_become_candidate:
  assumes "become_candidate f pre tr = Inr f'" "vote_inv C N A f"
    "\<And>c. get_configuration (f_log f) = Inr c \<Longrightarrow> (f_current_term f + 1, c) \<in> C"
  shows "vote_inv C N A f'"
proof -
  have cand: "vote_inv C N A g'" if "campaign become_leader False t g = Inr g'" "vote_inv C N A g"
    "\<And>c. get_configuration (f_log g) = Inr c \<Longrightarrow> (f_current_term g + 1, c) \<in> C" for t g g'
    by (rule vote_inv_campaign[OF that(1,2)]) (use vote_inv_become_leader that(3) in auto)
  show ?thesis
  proof (cases pre)
    case True
    then have "campaign (campaign become_leader False False) True tr f = Inr f'"
      using assms(1) by (simp add: become_candidate_def)
    then show ?thesis
    proof (rule vote_inv_campaign[OF _ assms(2)])
      fix g g' conf
      assume "campaign become_leader False False g = Inr g'" "vote_inv C N A g" "get_configuration (f_log f) = Inr conf"
        "get_configuration (f_log g) = Inr conf" "True \<Longrightarrow> f_current_term g = f_current_term f"
      then show "vote_inv C N A g'" using cand[of False g g'] assms(3) by simp
    qed simp
  qed (use assms cand in \<open>auto simp: become_candidate_def\<close>)
qed

lemma vote_inv_request_vote:
  assumes "request_vote f src r = Inr f'" "vote_inv C N A f" "src \<noteq> 0"
  shows "vote_inv C N A f'"
proof (cases "f_voted_for f' = f_voted_for f \<and> grants f' = grants f")
  case True
  then have "vv f' = vv f \<and> standing f' = standing f"
    using assms(1) by (auto simp: request_vote_def Let_def vv_def standing_def send_to_def signal_events_def split: if_splits)
  then show ?thesis using vote_inv_calm[OF assms(2)] by blast
next
  case False
  then have v: "f_voted_for f = src \<or> f_voted_for f = 0" "f_voted_for f' = src" "f_my_id f' = f_my_id f"
    "f_current_term f' = f_current_term f" "f_output f' = f_output f" "standing f' = standing f"
    "grants f' = grants f @ [(src, VoteReply \<lparr>vrep_current_term = f_current_term f, vrep_vote_granted = True, vrep_is_prevote = False\<rparr>)]"
    using assms(1)
    by (auto simp: request_vote_def Let_def standing_def grants_def send_to_def signal_events_def split: if_splits)
  have "f_my_id f \<noteq> 0" using assms(2) by (simp add: vote_inv_def)
  then have "backed N f rs \<Longrightarrow> backed N f' rs" for rs
    using v(1) assms(3) unfolding backed_def v(2-4) by metis
  moreover have "issued (grants f') = insert (f_current_term f, src) (issued (grants f))"
    unfolding v(7) by (simp add: issued_snoc)
  moreover have "one_vote (f_current_term f') (f_voted_for f') (A \<union> insert (f_current_term f, src) (issued (grants f)))"
  proof -
    have "one_vote (f_current_term f) (f_voted_for f) (A \<union> issued (grants f))" using assms(2) by (simp add: vote_inv_def)
    then have "one_vote (f_current_term f) src (A \<union> issued (grants f))" by (rule one_vote_later) (use v(1) in auto)
    from one_vote_insert[OF this assms(3)] show ?thesis by (simp add: v(2,4))
  qed
  ultimately show ?thesis using assms(2) unfolding vote_inv_def v(3-6)
    by (cases "standing f"; simp; blast)
qed

lemma votes_run_snoc: "votes_run (rs @ [(s, g)]) v = register_vote (votes_run rs v) s g"
  by (simp add: votes_run_def)

lemma vote_inv_request_vote_reply:
  assumes "request_vote_reply f src r = Inr f'" "vote_inv C N A f" "src \<noteq> f_my_id f"
    and C: "\<And>c t. get_configuration (f_log f) = Inr c \<Longrightarrow> f_current_term f < t \<Longrightarrow> (t, c) \<in> C"
    and N: "\<not> vrep_is_prevote r \<Longrightarrow> vrep_vote_granted r \<Longrightarrow> src \<in> N (f_current_term f)"
  shows "vote_inv C N A f'"
proof -
  obtain v pre where st: "f_state f = Candidate v pre"
    using assms(1) by (auto simp: request_vote_reply_def is_candidate_def split: fsm_state.splits)
  show ?thesis
  proof (cases "pre = vrep_is_prevote r")
    case False
    then show ?thesis using assms(1,2) st by (auto simp: request_vote_reply_def)
  next
    case same: True
    define v' where "v' = register_vote v src (vrep_vote_granted r)"
    define f1 where "f1 = f\<lparr>f_state := Candidate v' pre\<rparr>"
    have "bindE (tally_votes v') (\<lambda>t. case t of UNKNOWN \<Rightarrow> Inr f1
        | WON \<Rightarrow> if pre then become_candidate f1 False False else become_leader f1 | LOST \<Rightarrow> become_follower f1 0) = Inr f'"
      using assms(1) st unfolding f1_def v'_def same
      by (simp add: request_vote_reply_def is_candidate_def Let_def split del: if_split)
    then obtain t where t: "tally_votes v' = Inr t"
      and r: "(case t of UNKNOWN \<Rightarrow> Inr f1 | WON \<Rightarrow> if pre then become_candidate f1 False False else become_leader f1
         | LOST \<Rightarrow> become_follower f1 0) = Inr f'"
      by (rule bindE_InrE)
    have fields: "f_my_id f1 = f_my_id f" "f_output f1 = f_output f" "grants f1 = grants f" "f_current_term f1 = f_current_term f"
      "f_voted_for f1 = f_voted_for f" "f_log f1 = f_log f" "backed N f1 = backed N f"
      by (simp_all add: f1_def grants_def backed_def fun_eq_iff)
    have inv1: "vote_inv C N A f1"
    proof (cases pre)
      case True
      then have "standing f1 = Idle" by (simp add: f1_def)
      then show ?thesis using assms(2) fields by (simp add: vote_inv_def)
    next
      case False
      then obtain c rs where c: "(f_current_term f, c) \<in> C" "v = votes_run rs (make_votes c)" "backed N f rs"
        using assms(2) st by (auto simp: vote_inv_def)
      have "backed N f (rs @ [(src, vrep_vote_granted r)])"
        using c(3) N assms(3) False same by (auto simp: backed_def granted_by_snoc)
      then show ?thesis using assms(2) c False fields st
        by (auto simp: vote_inv_def f1_def v'_def votes_run_snoc[symmetric])
    qed
    show ?thesis
    proof (cases t)
      case WON
      then show ?thesis
        using r t inv1 vote_inv_become_candidate[of f1 False False f' C N A] vote_inv_become_leader[of f1 f' C N A v'] C fields
        by (auto simp: f1_def split: if_splits)
    next
      case LOST
      then show ?thesis using r vote_inv_calm[OF inv1] become_follower_calm[of f1 0 f'] by auto
    qed (use r inv1 in simp)
  qed
qed

lemma vote_inv_dispatch:
  assumes "dispatch f src msg = Inr f'" "vote_inv C N A f" "src \<noteq> f_my_id f" "src \<noteq> 0"
    and C: "\<And>c t. get_configuration (f_log f) = Inr c \<Longrightarrow> f_current_term f < t \<Longrightarrow> (t, c) \<in> C"
    and N: "\<And>v pre. f_state f = Candidate v pre \<Longrightarrow> is_grant msg \<Longrightarrow> src \<in> N (f_current_term f)"
  shows "vote_inv C N A f'"
proof -
  have calm: "vote_inv C N A g" if "vv g = vv f \<and> (standing g = standing f \<or> standing g = Idle)" for g
    using vote_inv_calm[OF assms(2)] that by blast
  have leader: "vote_inv C N A f'" if "step_leader f src msg = Inr f'" "f_state f = Leader ls" for ls
  proof (cases msg)
    case (VoteRequest m)
    then show ?thesis using that vote_inv_request_vote[OF _ assms(2,4)] by (simp add: step_leader_def)
  qed (use that in \<open>auto simp: step_leader_def intro!: calm dest!: append_entries_reply_calm install_snapshot_reply_calm
        handle_read_quorum_reply_calm\<close>)
  have candidate: "vote_inv C N A f'" if "step_candidate f src msg = Inr f'" "f_state f = Candidate v pre" for v pre
  proof (cases msg)
    case (VoteRequest m)
    then show ?thesis using that vote_inv_request_vote[OF _ assms(2,4)] by (simp add: step_candidate_def)
  next
    case (VoteReply m)
    then have "request_vote_reply f src m = Inr f'" using that by (simp add: step_candidate_def)
    then show ?thesis by (rule vote_inv_request_vote_reply[OF _ assms(2,3) C]) (use N that VoteReply in auto)
  qed (use that in \<open>auto simp: step_candidate_def intro!: calm\<close>)
  have follower: "vote_inv C N A f'" if "step_follower f src msg = Inr f'" "f_state f = Follower l" for l
  proof (cases msg)
    case (VoteRequest m)
    then show ?thesis using that vote_inv_request_vote[OF _ assms(2,4)] by (simp add: step_follower_def)
  next
    case (TimeoutNow m)
    then show ?thesis using that vote_inv_become_candidate[OF _ assms(2) C] by (simp add: step_follower_def)
  qed (use that in \<open>auto simp: step_follower_def Let_def intro!: calm dest!: append_entries_calm apply_snapshot_calm\<close>)
  show ?thesis using assms(1) leader candidate follower by (auto simp: dispatch_def split: fsm_state.splits)
qed

text \<open>The four ways in which a message is handled.\<close>

lemma fsm_step_cases:
  assumes "fsm_step f src msg = Inr f'"
  obtains (keep) "f' = f"
    | (stale) "f' = reply_stale f src msg" "message_term msg < f_current_term f"
    | (same) f1 where "f1 = f \<or> heard_from_leader f src = Inr f1" "dispatch f1 src msg = Inr f'"
        "message_term msg = f_current_term f \<or> ignores_term msg"
    | (newer) l f1 f2 where "become_follower f l = Inr f1" "update_current_term f1 (message_term msg) = Inr f2"
        "dispatch f2 src msg = Inr f'" "\<not> ignores_term msg"
proof -
  have src: "src \<noteq> f_my_id f" using assms by (auto simp: fsm_step_def)
  consider (gt) "message_term msg > f_current_term f" | (lt) "message_term msg < f_current_term f"
    | (eq) "message_term msg = f_current_term f" by linarith
  then show thesis
  proof cases
    case eq
    then show ?thesis using assms src same[of f] same by (cases "from_leader msg") (auto simp: fsm_step_def)
  next
    case lt
    then show ?thesis using assms src stale by (auto simp: fsm_step_def)
  next
    case gt
    show ?thesis
    proof (cases "ignores_term msg \<or> (\<exists>r. msg = ReadQuorumReply r)")
      case True
      then show ?thesis using assms gt src same[of f] keep by (cases msg) (auto simp: fsm_step_def ignores_term_def)
    next
      case False
      then obtain l f1 f2 where "become_follower f l = Inr f1" "update_current_term f1 (message_term msg) = Inr f2"
        "dispatch f2 src msg = Inr f'"
        using assms gt src by (cases msg) (auto simp: fsm_step_def)
      then show ?thesis using newer False by blast
    qed
  qed
qed

lemma ignores_not_grant: "ignores_term msg \<Longrightarrow> \<not> is_grant msg"
  by (cases msg) (auto simp: ignores_term_def)

lemma vote_inv_fsm_step:
  assumes "fsm_step f src msg = Inr f'" "vote_inv C N A f" "src \<noteq> 0"
    and C: "\<And>c t. get_configuration (f_log f) = Inr c \<Longrightarrow> f_current_term f < t \<Longrightarrow> (t, c) \<in> C"
    and N: "is_grant msg \<Longrightarrow> src \<in> N (message_term msg)"
  shows "vote_inv C N A f'"
proof -
  have src: "src \<noteq> f_my_id f" using assms(1) by (auto simp: fsm_step_def)
  show ?thesis using assms(1)
  proof (cases rule: fsm_step_cases)
    case keep
    then show ?thesis using assms(2) by simp
  next
    case stale
    have "vv (reply_stale f src msg) = vv f \<and> standing (reply_stale f src msg) = standing f"
      by (cases msg) (auto simp: reply_stale_def)
    then show ?thesis using vote_inv_calm[OF assms(2)] stale(1) by blast
  next
    case (same f1)
    have c: "core f1 = core f" using same(1) heard_from_leader_core by auto
    have "vote_inv C N A f1" using same(1) heard_from_leader_calm vote_inv_calm[OF assms(2)] assms(2) by blast
    from vote_inv_dispatch[OF same(2) this _ assms(3)] show ?thesis
      using src C N same(3) coreD[OF c] ignores_not_grant by auto
  next
    case (newer l f1 f2)
    note f = newer(1,2)
    have vv: "vv f1 = vv f" using become_follower_calm[OF f(1)] by blast
    have 2: "f_state f2 = Follower l" "f_log f2 = f_log f" "grants f2 = grants f1" "f_output f2 = f_output f1" "f_my_id f2 = f_my_id f"
      using become_follower_core[OF f(1)] f(2) by (auto simp: update_current_term_def core_def grants_def)
    have "vote_inv C N A f2"
      using vote_inv_idle[OF vote_inv_calm[OF assms(2) vv]] become_follower_calm[OF f(1)]
        evolves_update_current_term[OF f(2)] 2 by simp
    moreover have "f_current_term f \<le> f_current_term f2"
      using evolves_update_current_term[OF f(2)] vv by (simp add: evolves_def vv_def)
    then have "(t, c) \<in> C" if "get_configuration (f_log f2) = Inr c" "f_current_term f2 < t" for c t using C that 2(2) by simp
    ultimately show ?thesis using vote_inv_dispatch[OF newer(3) _ _ assms(3)] src 2(1,5) by auto
  qed
qed

lemma vote_inv_fsm_tick:
  assumes "fsm_tick alive f = Inr f'" "vote_inv C N A f" and C: "\<And>c t. get_configuration (f_log f) = Inr c \<Longrightarrow> f_current_term f < t \<Longrightarrow> (t, c) \<in> C"
  shows "vote_inv C N A f'"
proof -
  define f1 where "f1 = f\<lparr>f_clock := clock_advance (f_clock f)\<rparr>"
  have i1: "vote_inv C N A f1" using vote_inv_calm[OF assms(2), of f1] by (simp add: f1_def)
  have i1': "vote_inv C N A (f1\<lparr>f_last_election_time := f_clock f1\<rparr>)" using vote_inv_calm[OF i1] by simp
  have tl: "vote_inv C N A f2" if "tick_leader alive f1 = Inr f2" for f2
    using vote_inv_calm[OF i1] tick_leader_calm[OF that] by blast
  have bc: "vote_inv C N A f2" if "become_candidate f1 p b = Inr f2" for p b f2
    by (rule vote_inv_become_candidate[OF that i1]) (use C in \<open>simp add: f1_def\<close>)
  have fin: "vote_inv C N A f'" if "search_for_leader alive f2 = Inr f'" "vote_inv C N A f2" for f2
    using search_for_leader_calm[OF that(1)] vote_inv_calm[OF that(2)] by blast
  show ?thesis using assms(1) unfolding fsm_tick_def Let_def f1_def[symmetric]
    by (auto split: if_splits dest: fin[OF _ tl] fin[OF _ bc] fin[OF _ i1'] fin[OF _ i1])
qed

text \<open>Every call but \<open>get_output\<close> keeps the invariant and what \<open>get_output\<close> last reported.\<close>

lemma vote_inv_fsm_exec:
  assumes "fsm_exec e f = Inr f'" "vote_inv C N A f" "e \<noteq> EGetOutput"
    and C: "\<And>c t. get_configuration (f_log f) = Inr c \<Longrightarrow> f_current_term f < t \<Longrightarrow> (t, c) \<in> C"
    and N: "\<And>src msg. e = EStep src msg \<Longrightarrow> src \<noteq> 0 \<and> (is_grant msg \<longrightarrow> src \<in> N (message_term msg))"
  shows "vote_inv C N A f'"
proof -
  have calm: "vote_inv C N A g" if "vv g = vv f \<and> (standing g = standing f \<or> standing g = Idle)" for g
    using vote_inv_calm[OF assms(2)] that by blast
  have "vv (f\<lparr>f_ping_leader := True\<rparr>) = vv f \<and> standing (f\<lparr>f_ping_leader := True\<rparr>) = standing f"
    by (simp add: vv_def grants_def standing_def)
  note ping = calm[of "f\<lparr>f_ping_leader := True\<rparr>"] this
  show ?thesis
  proof (cases e)
    case (EStep src msg)
    then show ?thesis using vote_inv_fsm_step[of f src msg f' C N A] assms(1,2) C N by simp
  next
    case (ETick alive)
    then show ?thesis using vote_inv_fsm_tick[of alive f f' C N A] assms(1,2) C by simp
  next
    case EPingLeader
    then show ?thesis using assms(1) ping by (auto simp: ping_leader_def)
  qed (use assms(1,2,3) in \<open>auto intro!: calm dest!: add_entry_calm apply_snapshot_calm transfer_leadership_calm
      start_read_barrier_calm become_follower_calm simp: fsm_stop_def split: if_splits\<close>)
qed

lemma observed_campaign:
  assumes on: "\<And>g g'. on_won g = Inr g' \<Longrightarrow> f_observed g' = f_observed g" and c: "campaign on_won pre tr f = Inr f'"
  shows "f_observed f' = f_observed f"
proof -
  obtain v f1 go where f1: "enter_candidate pre f = Inr (v, f1)"
    and r: "(if \<not> go then become_follower f1 0 else solicit_votes on_won pre tr v f1) = Inr f'"
    using c unfolding campaign_def by (auto split del: if_split)
  have "f_observed f' = f_observed f1"
  proof (cases go)
    case True
    then obtain f1' where f1': "(if \<not> pre then update_current_term f1 (f_current_term f1 + 1) else Inr f1) = Inr f1'"
      and s: "(let (f2, v') = fold (solicit_vote (f_current_term f1 + 1) pre tr) (v_voters v) (f1', v);
               f3 = f2\<lparr>f_state := Candidate v' pre\<rparr>
           in bindE (tally_votes v') (\<lambda>r. if r = WON then on_won f3 else Inr f3)) = Inr f'"
      using r unfolding solicit_votes_def Let_def by (auto elim!: bindE_InrE split del: if_split)
    obtain f2 v' where 2: "fold (solicit_vote (f_current_term f1 + 1) pre tr) (v_voters v) (f1', v) = (f2, v')" by fastforce
    have "f_observed f2 = f_observed f1'"
      using solicit_votes_frame(7)[where trm = "f_current_term f1 + 1" and pre = pre and tr = tr
        and vs = "v_voters v" and fv = "(f1', v)"] 2 by simp
    moreover have "f_observed f1' = f_observed f1" using f1' by (auto simp: update_current_term_def split: if_splits)
    moreover have "f_observed f' = f_observed f2"
      using s 2 on[of "f2\<lparr>f_state := Candidate v' pre\<rparr>" f'] by (auto simp: Let_def split: if_splits)
    ultimately show ?thesis by simp
  qed (use r become_follower_core in auto)
  then show ?thesis using enter_candidate_core(2)[OF f1] by simp
qed

lemma observed_become_leader: "become_leader f = Inr f' \<Longrightarrow> f_observed f' = f_observed f"
  using become_leader_bare bareD(7) by blast

lemma observed_become_candidate: "become_candidate f pre tr = Inr f' \<Longrightarrow> f_observed f' = f_observed f"
  unfolding become_candidate_def
  by (cases pre) (auto intro: observed_campaign[OF observed_campaign[OF observed_become_leader]]
      observed_campaign[OF observed_become_leader])

lemma vv_observed: "vv f' = vv f \<Longrightarrow> f_observed f' = f_observed f"
  by (simp add: vv_def)

lemma observed_dispatch:
  assumes "dispatch f src msg = Inr f'"
  shows "f_observed f' = f_observed f"
proof -
  have rv: "f_observed g = f_observed f" if "request_vote f src r = Inr g" for r g
    using that by (auto simp: request_vote_def Let_def split: if_splits)
  have rr: "f_observed g = f_observed f" if "request_vote_reply f src r = Inr g" for r g
    using that by (auto simp: request_vote_reply_def Let_def split: fsm_state.splits if_splits vote_result.splits
        dest!: observed_become_candidate observed_become_leader become_follower_core)
  show ?thesis using assms
    unfolding dispatch_def step_leader_def step_candidate_def step_follower_def Let_def
    by (auto split: fsm_state.splits rpc_message.splits
        dest: rv rr observed_become_candidate vv_observed[OF append_entries_reply_calm[THEN conjunct1]]
          vv_observed[OF install_snapshot_reply_calm[THEN conjunct1]] vv_observed[OF append_entries_calm[THEN conjunct1]]
          vv_observed[OF handle_read_quorum_reply_calm[THEN conjunct1]] vv_observed[OF apply_snapshot_calm[THEN conjunct1]]
        simp: vv_observed[OF advance_commit_idx_calm(1)])
qed

lemma observed_fsm_exec:
  assumes "fsm_exec e f = Inr f'" "e \<noteq> EGetOutput"
  shows "f_observed f' = f_observed f"
proof (cases e)
  case (EStep src msg)
  then have "fsm_step f src msg = Inr f'" using assms by simp
  then show ?thesis
  proof (cases rule: fsm_step_cases)
    case stale
    then show ?thesis by (cases msg) (auto simp: reply_stale_def)
  next
    case (same f1)
    then show ?thesis using heard_from_leader_core[of f src f1] observed_dispatch by auto
  next
    case (newer l f1 f2)
    then show ?thesis using become_follower_core[OF newer(1)] observed_dispatch[OF newer(3)]
      by (auto simp: update_current_term_def)
  qed simp
next
  case (ETick alive)
  then have "fsm_tick alive f = Inr f'" using assms by simp
  then show ?thesis unfolding fsm_tick_def Let_def
    by (auto split: if_splits dest!: tick_leader_core observed_become_candidate search_for_leader_core)
qed (use assms in \<open>auto dest!: add_entry_bare[THEN bareD(7)] vv_observed[OF apply_snapshot_calm[THEN conjunct1]]
    transfer_leadership_core vv_observed[OF start_read_barrier_calm[THEN conjunct1]] become_follower_core
    simp: ping_leader_def fsm_stop_def split: if_splits\<close>)

section \<open>Output and start\<close>

text \<open>The messages that \<open>get_output\<close> hands over include no grant that contradicts the term and vote that it
  reports, or had reported before, for the disk.\<close>

lemma vote_inv_get_output:
  assumes "get_output f = Inr (out, f')" "vote_inv C N A f"
  shows "vote_inv C N (A \<union> issued (out_messages out)) f'"
    "ob_current_term (f_observed f') = f_current_term f'" "ob_voted_for (f_observed f') = f_voted_for f'"
    "f_current_term f' = f_current_term f" "f_voted_for f' = f_voted_for f" "f_my_id f' = f_my_id f"
    "case out_term_and_vote out of Some tv \<Rightarrow> tv = (f_current_term f', f_voted_for f')
     | None \<Rightarrow> ob_current_term (f_observed f) = f_current_term f' \<and> ob_voted_for (f_observed f) = f_voted_for f'"
proof -
  obtain f1 f4 where o: "flush_leader f (last_idx (f_log f) - log_stable_idx (f_log f) \<noteq> 0) = Inr f1"
    "f4 = f1\<lparr>f_output := empty_output, f_messages := out_messages (f_output f1), f_abort_leadership_transfer := False,
            f_observed := observed_advance (f1\<lparr>f_abort_leadership_transfer := False\<rparr>)\<rparr>"
    "out_term_and_vote out =
      (if ob_current_term (f_observed f1) \<noteq> f_current_term f1 \<or> ob_voted_for (f_observed f1) \<noteq> f_voted_for f1
       then Some (f_current_term f1, f_voted_for f1) else out_term_and_vote (f_output f1))"
    "out_messages out = f_messages f1"
    "(if out_log_entries out \<noteq> [] then advance_stable_idx f4 (le_idx (last (out_log_entries out))) else Inr f4) = Inr f'"
    using get_output_split[OF assms(1)] by metis
  have inv1: "vote_inv C N A f1" and v1: "vv f1 = vv f"
    using vote_inv_calm[OF assms(2)] flush_leader_calm[OF o(1)] by auto
  have e4: "backed N f4 = backed N f1" "standing f4 = standing f1" "grants f4 = []" "f_my_id f4 = f_my_id f1"
    "f_output f4 = empty_output" "f_current_term f4 = f_current_term f1"
    using inv1 by (simp_all add: o(2) backed_def fun_eq_iff standing_def grants_def vote_inv_def)
  have "issued (out_messages out) = issued (grants f1)" "issued [] = {}" by (auto simp: o(4) issued_def grants_def)
  note iss = this
  have inv4: "vote_inv C N (A \<union> issued (out_messages out)) f4"
    using inv1 unfolding vote_inv_def e4 iss by (simp add: empty_output_def o(2))
  have c: "vv f' = vv f4 \<and> (standing f' = standing f4 \<or> standing f' = Idle)"
    using o(5) advance_stable_idx_calm by (auto split: if_splits)
  then show "vote_inv C N (A \<union> issued (out_messages out)) f'" using vote_inv_calm[OF inv4] by blast
  have eqs: "f_current_term f' = f_current_term f1" "f_voted_for f' = f_voted_for f1" "f_observed f' = f_observed f4" "f_my_id f' = f_my_id f1"
    using c by (auto simp: vv_def o(2))
  show "ob_current_term (f_observed f') = f_current_term f'" "ob_voted_for (f_observed f') = f_voted_for f'"
    by (simp_all add: eqs o(2) observed_advance_def)
  show "f_current_term f' = f_current_term f" "f_voted_for f' = f_voted_for f" "f_my_id f' = f_my_id f"
    using v1 by (simp_all add: eqs vv_def)
  have "f_observed f1 = f_observed f" using v1 by (rule vv_observed)
  moreover have "out_term_and_vote (f_output f1) = None" using inv1 by (simp add: vote_inv_def)
  ultimately show "case out_term_and_vote out of Some tv \<Rightarrow> tv = (f_current_term f', f_voted_for f')
     | None \<Rightarrow> ob_current_term (f_observed f) = f_current_term f' \<and> ob_voted_for (f_observed f) = f_voted_for f'"
    using o(3) by (auto simp: eqs)
qed

lemma vote_inv_make_fsm:
  assumes "make_fsm i t v l ci cfg rnd = Inr f" "one_vote t v A" and C: "\<And>c t'. get_configuration l = Inr c \<Longrightarrow> t < t' \<Longrightarrow> (t', c) \<in> C"
  shows "vote_inv C N A f" "f_my_id f = i" "i \<noteq> 0" "t \<le> f_current_term f"
    "f_current_term f = t \<Longrightarrow> v \<noteq> 0 \<Longrightarrow> f_voted_for f = v"
    "ob_current_term (f_observed f) = t" "ob_voted_for (f_observed f) = v"
proof -
  obtain f2 b where i: "i \<noteq> 0" and f2: "f_my_id f2 = i" "f_current_term f2 = t" "f_voted_for f2 = v" "f_log f2 = l"
    "f_state f2 = Follower 0" "f_messages f2 = []" "f_output f2 = empty_output"
    "ob_current_term (f_observed f2) = t" "ob_voted_for (f_observed f2) = v"
    and r: "(if b then become_candidate f2 (cfg_enable_prevoting cfg) False else reset_election_timeout f2) = Inr f"
  proof -
    define f0 where "f0 = \<lparr>f_my_id = i, f_state = Follower 0, f_current_term = t,
              f_voted_for = v, f_commit_idx = snp_idx (log_snapshot l), f_log = l,
              f_config = cfg, f_abort_leadership_transfer = False, f_ping_leader = False,
              f_observed = \<lparr>ob_current_term = 0, ob_voted_for = 0, ob_commit_idx = 0, ob_last_conf_idx = 0,
                ob_last_term = 0, ob_abort_leadership_transfer = False\<rparr>,
              f_output = empty_output, f_clock = 0, f_last_election_time = 0,
              f_randomized_election_timeout = ELECTION_TIMEOUT + 1, f_messages = [], f_sm_events = 0,
              f_random = rnd\<rparr>"
    define f2 where "f2 = f0\<lparr>f_observed := observed_advance f0, f_commit_idx := max (f_commit_idx f0) ci\<rparr>"
    have i: "i \<noteq> 0" using assms(1) by (auto simp: make_fsm_def)
    have "make_fsm i t v l ci cfg rnd = bindE (fsm_get_configuration f2) (\<lambda>conf.
        if length (conf_current conf) = 1 \<and> conf_can_vote conf i
        then become_candidate f2 (cfg_enable_prevoting cfg) False else reset_election_timeout f2)"
      unfolding make_fsm_def Let_def f2_def f0_def if_not_P[OF i] by (simp cong: if_cong)
    from assms(1)[unfolded this] obtain conf where "(if length (conf_current conf) = 1 \<and> conf_can_vote conf i
           then become_candidate f2 (cfg_enable_prevoting cfg) False else reset_election_timeout f2) = Inr f"
      by (rule bindE_InrE)
    then show thesis by (rule that[OF i, rotated -1]) (simp_all add: f2_def f0_def observed_advance_def)
  qed
  have inv2: "vote_inv C N A f2" using f2 i assms(2) by (auto simp: vote_inv_def grants_def empty_output_def issued_def)
  show "i \<noteq> 0" by (rule i)
  have "vote_inv C N A f \<and> evolves f2 f \<and> f_observed f = f_observed f2"
  proof (cases b)
    case True
    then show ?thesis
      using r vote_inv_become_candidate[OF _ inv2] evolves_become_candidate observed_become_candidate C f2(2,4) by auto
  next
    case False
    then have "reset_election_timeout f2 = Inr f" using r by simp
    moreover from this have "vv f = vv f2" by (auto simp: reset_election_timeout_def vv_def grants_def Let_def)
    ultimately show ?thesis
      using reset_election_timeout_core[of f2 f] evolves_core[of f f2] vote_inv_calm[OF inv2] f2(5) by auto
  qed
  then show "vote_inv C N A f" "f_my_id f = i" "t \<le> f_current_term f" "f_current_term f = t \<Longrightarrow> v \<noteq> 0 \<Longrightarrow> f_voted_for f = v"
    "ob_current_term (f_observed f) = t" "ob_voted_for (f_observed f) = v"
    using f2 by (auto simp: evolves_def)
qed

end
