(* ===== verification/Raft_Cluster.thy ===== *)
theory Raft_Cluster
  imports Raft_Ballots
begin

text \<open>
  A cluster of servers, each a state machine with the fiber of \<open>src/raft/server.cc\<close> that takes its output,
  stores the term and the vote and then sends the messages. The calls on the state machine, among them the
  messages that arrive, happen at any point between these steps. Messages may be lost, repeated, delayed and
  reordered; servers crash, losing all but the disk, and start again from it.

  The logs need no invariant here: a server may start with any log and its snapshots and its configurations may be
  anything. The state keeps a record of the elections, which nothing reads: the configuration in which each server has
  asked for votes in each term.
\<close>

section \<open>Model\<close>

text \<open>Where \<open>io_fiber\<close> is: waiting for output, before storing the batch, or before sending its messages.\<close>

datatype io_phase = Io_poll | Io_store fsm_output | Io_send fsm_output

record server =
  srv_fsm :: fsm
  srv_io :: io_phase

record cluster =
  cl_servers :: "server_id \<Rightarrow> server option"
  cl_disk :: "server_id \<Rightarrow> term_t \<times> server_id"
  cl_net :: "(server_id \<times> server_id \<times> rpc_message) set"
  cl_elections :: "(server_id \<times> term_t \<times> configuration) set"

text \<open>The first and the middle part of \<open>process_fsm_output\<close>.\<close>

definition store_term_and_vote :: "fsm_output \<Rightarrow> term_t \<times> server_id \<Rightarrow> term_t \<times> server_id" where
  "store_term_and_vote batch disk = (case out_term_and_vote batch of Some tv \<Rightarrow> tv | None \<Rightarrow> disk)"

definition send_messages :: "server_id \<Rightarrow> fsm_output \<Rightarrow> (server_id \<times> server_id \<times> rpc_message) set \<Rightarrow>
    (server_id \<times> server_id \<times> rpc_message) set" where
  "send_messages i batch net = net \<union> (\<lambda>(dst, m). (i, dst, m)) ` set (out_messages batch)"

abbreviation set_server :: "cluster \<Rightarrow> server_id \<Rightarrow> server option \<Rightarrow> cluster" where
  "set_server c i s \<equiv> c\<lparr>cl_servers := (cl_servers c)(i := s)\<rparr>"

definition delivered :: "cluster \<Rightarrow> server_id \<Rightarrow> fsm_event \<Rightarrow> bool" where
  "delivered c i e = (case e of EStep src msg \<Rightarrow> (src, i, msg) \<in> cl_net c | EGetOutput \<Rightarrow> False | _ \<Rightarrow> True)"

text \<open>The election that a call has started, if any: the server has moved on to a new term in which it asks for votes or
  has won them already, as the only voter.\<close>

definition election_started :: "server_id \<Rightarrow> term_t \<Rightarrow> raft_log \<Rightarrow> fsm \<Rightarrow> (server_id \<times> term_t \<times> configuration) set" where
  "election_started i t l f' =
     (if t < f_current_term f' \<and> standing f' \<noteq> Idle
      then case get_configuration l of Inr k \<Rightarrow> {(i, f_current_term f', k)} | Inl _ \<Rightarrow> {} else {})"

abbreviation record_elections :: "(server_id \<times> term_t \<times> configuration) set \<Rightarrow> cluster \<Rightarrow> cluster" where
  "record_elections es c \<equiv> c\<lparr>cl_elections := cl_elections c \<union> es\<rparr>"

inductive cluster_step :: "cluster \<Rightarrow> cluster \<Rightarrow> bool" where
  call: "cl_servers c i = Some s \<Longrightarrow> delivered c i e \<Longrightarrow> fsm_exec e (srv_fsm s) = Inr f' \<Longrightarrow>
    cluster_step c (record_elections (election_started i (f_current_term (srv_fsm s)) (f_log (srv_fsm s)) f')
      (set_server c i (Some (s\<lparr>srv_fsm := f'\<rparr>))))"
| poll: "cl_servers c i = Some s \<Longrightarrow> srv_io s = Io_poll \<Longrightarrow> get_output (srv_fsm s) = Inr (batch, f') \<Longrightarrow>
    cluster_step c (set_server c i (Some \<lparr>srv_fsm = f', srv_io = Io_store batch\<rparr>))"
| store: "cl_servers c i = Some s \<Longrightarrow> srv_io s = Io_store batch \<Longrightarrow>
    cluster_step c ((set_server c i (Some (s\<lparr>srv_io := Io_send batch\<rparr>)))
      \<lparr>cl_disk := (cl_disk c)(i := store_term_and_vote batch (cl_disk c i))\<rparr>)"
| send: "cl_servers c i = Some s \<Longrightarrow> srv_io s = Io_send batch \<Longrightarrow>
    cluster_step c ((set_server c i (Some (s\<lparr>srv_io := Io_poll\<rparr>)))\<lparr>cl_net := send_messages i batch (cl_net c)\<rparr>)"
| crash: "cluster_step c (set_server c i None)"
| start: "cl_servers c i = None \<Longrightarrow>
    make_fsm i (fst (cl_disk c i)) (snd (cl_disk c i)) l commit_idx config random = Inr f \<Longrightarrow>
    cluster_step c (record_elections (election_started i (fst (cl_disk c i)) l f)
      (set_server c i (Some \<lparr>srv_fsm = f, srv_io = Io_poll\<rparr>)))"

definition cluster_init :: "(server_id \<Rightarrow> term_t \<times> server_id) \<Rightarrow> cluster" where
  "cluster_init disk = \<lparr>cl_servers = (\<lambda>i. None), cl_disk = disk, cl_net = {}, cl_elections = {}\<rparr>"

inductive cluster_reachable :: "cluster \<Rightarrow> bool" where
  init: "cluster_reachable (cluster_init disk)"
| step: "cluster_reachable c \<Longrightarrow> cluster_step c c' \<Longrightarrow> cluster_reachable c'"

section \<open>Invariant\<close>

text \<open>The term and vote \<open>(t, v)\<close> of a server at a later time than \<open>(T, V)\<close>.\<close>

definition ahead :: "term_t \<times> server_id \<Rightarrow> term_t \<times> server_id \<Rightarrow> bool" where
  "ahead tv tv' \<longleftrightarrow> fst tv \<le> fst tv' \<and> (fst tv = fst tv' \<and> snd tv \<noteq> 0 \<longrightarrow> snd tv' = snd tv)"

lemma ahead_refl [simp]: "ahead tv tv"
  by (simp add: ahead_def)

lemma ahead_trans: "ahead a b \<Longrightarrow> ahead b c \<Longrightarrow> ahead a c"
  unfolding ahead_def by (metis order_antisym order_trans)

lemma one_vote_ahead: "one_vote (fst tv) (snd tv) S \<Longrightarrow> ahead tv tv' \<Longrightarrow> one_vote (fst tv') (snd tv') S"
  by (erule one_vote_later) (auto simp: ahead_def)

lemma one_vote_subset: "one_vote T V S \<Longrightarrow> S' \<subseteq> S \<Longrightarrow> one_vote T V S'"
  by (simp add: one_vote_def single_valued_def) blast

definition memory :: "fsm \<Rightarrow> term_t \<times> server_id" where
  "memory f = (f_current_term f, f_voted_for f)"

definition reported :: "fsm \<Rightarrow> term_t \<times> server_id" where
  "reported f = (ob_current_term (f_observed f), ob_voted_for (f_observed f))"

lemma evolves_ahead: "evolves f f' \<Longrightarrow> ahead (memory f) (memory f')"
  by (auto simp: evolves_def ahead_def memory_def)

text \<open>The grants in the network: those that \<open>q\<close> has sent, and the servers that have granted their vote to \<open>i\<close>.\<close>

definition net_grants :: "(server_id \<times> server_id \<times> rpc_message) set \<Rightarrow> server_id \<Rightarrow> (term_t \<times> server_id) set" where
  "net_grants net q = {(message_term m, d) |d m. (q, d, m) \<in> net \<and> is_grant m}"

definition granters :: "(server_id \<times> server_id \<times> rpc_message) set \<Rightarrow> server_id \<Rightarrow> term_t \<Rightarrow> server_id set" where
  "granters net i t = {q. (t, i) \<in> net_grants net q}"

definition pending :: "io_phase \<Rightarrow> (term_t \<times> server_id) set" where
  "pending io = (case io of Io_poll \<Rightarrow> {} | Io_store batch \<Rightarrow> issued (out_messages batch)
     | Io_send batch \<Rightarrow> issued (out_messages batch))"

lemma pending_simps [simp]: "pending Io_poll = {}" "pending (Io_store b) = issued (out_messages b)"
  "pending (Io_send b) = issued (out_messages b)"
  by (simp_all add: pending_def)

lemma net_grants_send:
  "net_grants (send_messages i batch net) q = net_grants net q \<union> (if q = i then issued (out_messages batch) else {})"
  by (auto simp: net_grants_def send_messages_def issued_def)

text \<open>What the disk holds, compared with what \<open>get_output\<close> has last reported.\<close>

definition stored :: "io_phase \<Rightarrow> term_t \<times> server_id \<Rightarrow> term_t \<times> server_id \<Rightarrow> bool" where
  "stored io disk rep =
     (case io of Io_store batch \<Rightarrow> store_term_and_vote batch disk = rep \<and> ahead disk rep | _ \<Rightarrow> disk = rep)"

text \<open>The elections of one server.\<close>

definition elections_of :: "(server_id \<times> term_t \<times> configuration) set \<Rightarrow> server_id \<Rightarrow> (term_t \<times> configuration) set" where
  "elections_of E i = {(t, k). (i, t, k) \<in> E}"

lemma elections_of_started:
  "j \<noteq> i \<Longrightarrow> elections_of (E \<union> election_started i t l f') j = elections_of E j"
  by (auto simp: elections_of_def election_started_def split: if_splits sum.splits)

text \<open>A call that keeps the invariant, whatever election it may start, keeps it with the election it has started.\<close>

lemma vote_inv_started:
  assumes "vote_inv (elections_of E i \<union> {(t', k). t < t' \<and> get_configuration l = Inr k}) N A f'"
  shows "vote_inv (elections_of (E \<union> election_started i t l f') i) N A f'"
  by (rule vote_inv_restrict[OF assms]) (auto simp: elections_of_def election_started_def)

definition server_inv :: "(server_id \<times> term_t \<times> configuration) set \<Rightarrow> (server_id \<times> server_id \<times> rpc_message) set \<Rightarrow> server_id \<Rightarrow>
    term_t \<times> server_id \<Rightarrow> server \<Rightarrow> bool" where
  "server_inv E net i disk s \<longleftrightarrow>
     f_my_id (srv_fsm s) = i \<and> vote_inv (elections_of E i) (granters net i) (net_grants net i \<union> pending (srv_io s)) (srv_fsm s) \<and>
     stored (srv_io s) disk (reported (srv_fsm s)) \<and> ahead (reported (srv_fsm s)) (memory (srv_fsm s)) \<and>
     one_vote (fst (reported (srv_fsm s))) (snd (reported (srv_fsm s))) (net_grants net i \<union> pending (srv_io s))"

definition cluster_inv :: "cluster \<Rightarrow> bool" where
  "cluster_inv c \<longleftrightarrow>
     (\<forall>i s. cl_servers c i = Some s \<longrightarrow> server_inv (cl_elections c) (cl_net c) i (cl_disk c i) s) \<and>
     (\<forall>q. one_vote (fst (cl_disk c q)) (snd (cl_disk c q)) (net_grants (cl_net c) q)) \<and>
     (\<forall>q d m. (q, d, m) \<in> cl_net c \<longrightarrow> q \<noteq> 0)"

lemma cluster_invD:
  assumes "cluster_inv c"
  shows "cl_servers c i = Some s \<Longrightarrow> server_inv (cl_elections c) (cl_net c) i (cl_disk c i) s"
    "one_vote (fst (cl_disk c q)) (snd (cl_disk c q)) (net_grants (cl_net c) q)"
    "(q, d, m) \<in> cl_net c \<Longrightarrow> q \<noteq> 0"
  using assms unfolding cluster_inv_def by blast+

lemma cluster_inv_server:
  assumes "cluster_inv c" "\<And>s. so = Some s \<Longrightarrow> server_inv (cl_elections c) (cl_net c) i (cl_disk c i) s"
  shows "cluster_inv (set_server c i so)"
  using assms by (auto simp: cluster_inv_def)

lemma cluster_inv_started:
  assumes "cluster_inv c"
    "server_inv (cl_elections c \<union> election_started i t l f') (cl_net c) i (cl_disk c i) s"
  shows "cluster_inv (record_elections (election_started i t l f') (set_server c i (Some s)))"
  using assms by (auto simp: cluster_inv_def server_inv_def elections_of_started)

lemma cluster_inv_call:
  assumes "cluster_inv c" "cl_servers c i = Some s" "delivered c i e" "fsm_exec e (srv_fsm s) = Inr f'"
  shows "cluster_inv (record_elections (election_started i (f_current_term (srv_fsm s)) (f_log (srv_fsm s)) f')
    (set_server c i (Some (s\<lparr>srv_fsm := f'\<rparr>))))"
proof (rule cluster_inv_started[OF assms(1)])
  let ?f = "srv_fsm s" and ?A = "net_grants (cl_net c) i \<union> pending (srv_io s)"
  let ?C = "elections_of (cl_elections c) i \<union> {(t', k). f_current_term ?f < t' \<and> get_configuration (f_log ?f) = Inr k}"
  have e: "e \<noteq> EGetOutput" using assms(3) by (auto simp: delivered_def)
  have inv: "server_inv (cl_elections c) (cl_net c) i (cl_disk c i) s" by (rule cluster_invD(1)[OF assms(1,2)])
  then have "vote_inv ?C (granters (cl_net c) i) ?A ?f" by (auto simp: server_inv_def intro: vote_inv_restrict)
  moreover have "src \<noteq> 0 \<and> (is_grant msg \<longrightarrow> src \<in> granters (cl_net c) i (message_term msg))" if "e = EStep src msg" for src msg
    using that assms(3) cluster_invD(3)[OF assms(1)] by (auto simp: delivered_def granters_def net_grants_def)
  ultimately have "vote_inv ?C (granters (cl_net c) i) ?A f'" by (intro vote_inv_fsm_exec[OF assms(4) _ e]) auto
  note vote_inv_started[OF this]
  moreover have "reported f' = reported ?f" using observed_fsm_exec[OF assms(4) e] by (simp add: reported_def)
  moreover have "ahead (memory ?f) (memory f')" "f_my_id f' = f_my_id ?f"
    using evolves_fsm_exec[OF assms(4)] evolves_ahead by (auto simp: evolves_def)
  ultimately show "server_inv (cl_elections c \<union> election_started i (f_current_term ?f) (f_log ?f) f') (cl_net c) i (cl_disk c i)
      (s\<lparr>srv_fsm := f'\<rparr>)"
    using inv by (auto simp: server_inv_def intro: ahead_trans)
qed

lemma cluster_inv_poll:
  assumes "cluster_inv c" "cl_servers c i = Some s" "srv_io s = Io_poll" "get_output (srv_fsm s) = Inr (batch, f')"
  shows "cluster_inv (set_server c i (Some \<lparr>srv_fsm = f', srv_io = Io_store batch\<rparr>))"
proof (rule cluster_inv_server[OF assms(1)])
  have inv: "server_inv (cl_elections c) (cl_net c) i (cl_disk c i) s" by (rule cluster_invD(1)[OF assms(1,2)])
  then have "vote_inv (elections_of (cl_elections c) i) (granters (cl_net c) i) (net_grants (cl_net c) i) (srv_fsm s)"
    using assms(3) by (simp add: server_inv_def)
  note o = vote_inv_get_output[OF assms(4) this]
  have r: "reported f' = memory f'" by (simp add: reported_def memory_def o)
  have "stored (Io_store batch) (cl_disk c i) (reported f')"
    using o inv assms(3)
    by (auto simp: stored_def server_inv_def reported_def memory_def store_term_and_vote_def split: option.splits)
  moreover have "one_vote (f_current_term f') (f_voted_for f') (net_grants (cl_net c) i \<union> issued (out_messages batch))"
    using o(1) one_vote_subset[of _ _ _ "net_grants (cl_net c) i \<union> issued (out_messages batch)"] unfolding vote_inv_def by blast
  ultimately show "\<And>s'. Some \<lparr>srv_fsm = f', srv_io = Io_store batch\<rparr> = Some s' \<Longrightarrow> server_inv (cl_elections c) (cl_net c) i (cl_disk c i) s'"
    using inv o by (auto simp: server_inv_def r memory_def)
qed

lemma cluster_inv_store:
  assumes "cluster_inv c" "cl_servers c i = Some s" "srv_io s = Io_store batch"
  shows "cluster_inv ((set_server c i (Some (s\<lparr>srv_io := Io_send batch\<rparr>)))
      \<lparr>cl_disk := (cl_disk c)(i := store_term_and_vote batch (cl_disk c i))\<rparr>)"
proof -
  let ?d = "store_term_and_vote batch (cl_disk c i)"
  have inv: "server_inv (cl_elections c) (cl_net c) i (cl_disk c i) s" by (rule cluster_invD(1)[OF assms(1,2)])
  then have d: "ahead (cl_disk c i) ?d" and s: "server_inv (cl_elections c) (cl_net c) i ?d (s\<lparr>srv_io := Io_send batch\<rparr>)"
    using assms(3) by (auto simp: server_inv_def stored_def)
  show ?thesis
    unfolding cluster_inv_def using cluster_invD[OF assms(1)] s one_vote_ahead[OF _ d] by auto
qed

lemma server_inv_net:
  assumes "server_inv E net j disk s" "j \<noteq> i"
  shows "server_inv E (send_messages i batch net) j disk s"
proof -
  have g: "granters net j t \<subseteq> granters (send_messages i batch net) j t" for t by (auto simp: granters_def net_grants_send)
  show ?thesis using assms vote_inv_mono[OF _ g] by (auto simp: server_inv_def net_grants_send)
qed

lemma cluster_inv_send:
  assumes "cluster_inv c" "cl_servers c i = Some s" "srv_io s = Io_send batch"
  shows "cluster_inv ((set_server c i (Some (s\<lparr>srv_io := Io_poll\<rparr>)))\<lparr>cl_net := send_messages i batch (cl_net c)\<rparr>)"
proof -
  let ?net = "send_messages i batch (cl_net c)"
  have inv: "server_inv (cl_elections c) (cl_net c) i (cl_disk c i) s" by (rule cluster_invD(1)[OF assms(1,2)])
  have g: "granters (cl_net c) i t \<subseteq> granters ?net i t" for t by (auto simp: granters_def net_grants_send)
  have s: "server_inv (cl_elections c) ?net i (cl_disk c i) (s\<lparr>srv_io := Io_poll\<rparr>)"
    using inv assms(3) vote_inv_mono[OF _ g] by (auto simp: server_inv_def stored_def net_grants_send)
  have "one_vote (fst (cl_disk c q)) (snd (cl_disk c q)) (net_grants ?net q)" for q
    using cluster_invD(2)[OF assms(1), of q] inv assms(3) by (auto simp: server_inv_def stored_def net_grants_send)
  moreover have "q \<noteq> 0" if "(q, d, m) \<in> ?net" for q d m
    using that cluster_invD(3)[OF assms(1)] inv by (auto simp: send_messages_def server_inv_def vote_inv_def)
  ultimately show ?thesis
    unfolding cluster_inv_def using cluster_invD(1)[OF assms(1)] s server_inv_net by auto
qed

lemma cluster_inv_start:
  assumes "cluster_inv c" "make_fsm i (fst (cl_disk c i)) (snd (cl_disk c i)) l commit_idx config random = Inr f"
  shows "cluster_inv (record_elections (election_started i (fst (cl_disk c i)) l f)
    (set_server c i (Some \<lparr>srv_fsm = f, srv_io = Io_poll\<rparr>)))"
proof (rule cluster_inv_started[OF assms(1)])
  let ?C = "elections_of (cl_elections c) i \<union> {(t', k). fst (cl_disk c i) < t' \<and> get_configuration l = Inr k}"
  have d: "one_vote (fst (cl_disk c i)) (snd (cl_disk c i)) (net_grants (cl_net c) i)" by (rule cluster_invD(2)[OF assms(1)])
  have "(t', k) \<in> ?C" if "get_configuration l = Inr k" "fst (cl_disk c i) < t'" for k t' using that by simp
  note m = vote_inv_make_fsm[OF assms(2) d this]
  have "vote_inv (elections_of (cl_elections c \<union> election_started i (fst (cl_disk c i)) l f) i) (granters (cl_net c) i)
      (net_grants (cl_net c) i) f"
    by (rule vote_inv_started[OF m(1)])
  moreover have "f_my_id f = i" "ahead (cl_disk c i) (memory f)" "reported f = cl_disk c i"
    using m(2-) by (auto simp: ahead_def memory_def reported_def)
  ultimately show "server_inv (cl_elections c \<union> election_started i (fst (cl_disk c i)) l f) (cl_net c) i (cl_disk c i)
      \<lparr>srv_fsm = f, srv_io = Io_poll\<rparr>"
    using d by (auto simp: server_inv_def stored_def)
qed

lemma cluster_inv_step: "cluster_step c c' \<Longrightarrow> cluster_inv c \<Longrightarrow> cluster_inv c'"
proof (induction rule: cluster_step.induct)
  case (crash c i)
  then show ?case by (intro cluster_inv_server) simp_all
qed (blast intro: cluster_inv_call cluster_inv_poll cluster_inv_store cluster_inv_send cluster_inv_start)+

lemma cluster_inv_reachable: "cluster_reachable c \<Longrightarrow> cluster_inv c"
proof (induction rule: cluster_reachable.induct)
  case (init disk)
  then show ?case by (simp add: cluster_inv_def cluster_init_def net_grants_def)
qed (rule cluster_inv_step)

section \<open>Election safety\<close>

text \<open>Configurations that are the same, or of which the second follows the first in a change of the members.\<close>

definition successive :: "configuration \<Rightarrow> configuration \<Rightarrow> bool" where
  "successive c1 c2 \<longleftrightarrow> c2 = c1 \<or> (\<not> is_joint c1 \<and> conf_current c1 \<noteq> [] \<and> (\<exists>new. enter_joint c1 new = Inr c2)) \<or>
     leave_joint c1 = Inr c2"

lemma successive_quorums_meet:
  assumes "successive c1 c2" "conf_quorum c1 S" "conf_quorum c2 T"
  shows "S \<inter> T \<noteq> {}"
proof -
  consider "c2 = c1" | new where "c2 = \<lparr>conf_current = new, conf_previous = conf_current c1\<rparr>" "conf_current c1 \<noteq> []"
    | "conf_current c2 = conf_current c1"
    using assms(1) by (auto simp: successive_def enter_joint_def leave_joint_def split: if_splits)
  then show ?thesis
  proof cases
    case 1 then show ?thesis using same_conf.quorums_meet[OF assms(2)] assms(3) by auto
  next
    case 2
    then show ?thesis using joint_half.quorums_meet[OF assms(3)[unfolded 2(1)], of S] assms(2) by (auto simp: conf_quorum_def)
  next
    case 3
    have "majority (voters (conf_current c1)) S" "majority (voters (conf_current c1)) T"
      using assms(2,3) 3 by (auto simp: conf_quorum_def)
    then show ?thesis using majorities_overlap[OF finite_voters] by blast
  qed
qed

lemma won_quorum: "tally_votes (votes_run rs (make_votes c)) = Inr WON \<Longrightarrow> conf_quorum c (granted_by rs)"
  by (auto simp: tally_votes_outcome conf_quorum_def half_outcome_def Let_def split: if_splits)

text \<open>The servers that a leader has on its side: itself if it voted for itself, and those that granted it their vote.\<close>

definition supporters :: "cluster \<Rightarrow> server_id \<Rightarrow> fsm \<Rightarrow> server_id set" where
  "supporters c i f = {q. if q = i then f_voted_for f = i else q \<in> granters (cl_net c) i (f_current_term f)}"

lemma leader_quorum:
  assumes "cluster_inv c" "cl_servers c i = Some s" "is_leader (srv_fsm s)"
  shows "\<exists>k. (i, f_current_term (srv_fsm s), k) \<in> cl_elections c \<and> conf_quorum k (supporters c i (srv_fsm s))"
proof -
  have inv: "vote_inv (elections_of (cl_elections c) i) (granters (cl_net c) i) (net_grants (cl_net c) i \<union> pending (srv_io s)) (srv_fsm s)"
    and i: "f_my_id (srv_fsm s) = i"
    using cluster_invD(1)[OF assms(1,2)] by (auto simp: server_inv_def)
  have "standing (srv_fsm s) = Elected" using assms(3) by (simp add: standing_Elected)
  then obtain k rs where k: "(i, f_current_term (srv_fsm s), k) \<in> cl_elections c"
    "tally_votes (votes_run rs (make_votes k)) = Inr WON" "backed (granters (cl_net c) i) (srv_fsm s) rs"
    using inv unfolding vote_inv_def by (auto simp: elections_of_def)
  have "granted_by rs \<subseteq> supporters c i (srv_fsm s)" using k(3) by (auto simp: backed_def supporters_def i)
  then show ?thesis using won_quorum[OF k(2)] conf_quorum_mono k(1) by blast
qed

text \<open>A server up in term \<open>t\<close> that has granted its vote in this term to another one has voted for that one.\<close>

lemma granter_vote:
  assumes "cluster_inv c" "cl_servers c i = Some s" "i \<in> granters (cl_net c) j (f_current_term (srv_fsm s))"
  shows "f_voted_for (srv_fsm s) = j"
proof -
  have "vote_inv (elections_of (cl_elections c) i) (granters (cl_net c) i) (net_grants (cl_net c) i \<union> pending (srv_io s)) (srv_fsm s)"
    using cluster_invD(1)[OF assms(1,2)] by (simp add: server_inv_def)
  then show ?thesis using assms(3) by (auto simp: vote_inv_def one_vote_def covers_def granters_def)
qed

lemma granters_unique:
  assumes "cluster_inv c" "q \<in> granters (cl_net c) i t" "q \<in> granters (cl_net c) j t"
  shows "i = j"
  using cluster_invD(2)[OF assms(1), of q] assms(2,3) by (auto simp: one_vote_def granters_def dest: single_valuedD)

lemma supporters_agree:
  assumes c: "cluster_inv c" and i: "cl_servers c i = Some s" and j: "cl_servers c j = Some s'"
    and t: "f_current_term (srv_fsm s') = f_current_term (srv_fsm s)"
    and q: "q \<in> supporters c i (srv_fsm s)" "q \<in> supporters c j (srv_fsm s')"
  shows "i = j"
proof (rule ccontr)
  assume n: "i \<noteq> j"
  have mine: "q \<noteq> a" if "cl_servers c a = Some u" "q \<in> supporters c a (srv_fsm u)" "b \<noteq> a"
    "q \<in> supporters c b (srv_fsm w)" "f_current_term (srv_fsm w) = f_current_term (srv_fsm u)" for a b u w
    using that granter_vote[OF c that(1), of b] by (auto simp: supporters_def split: if_splits)
  have "q \<noteq> i" "q \<noteq> j" using mine[OF i q(1) _ q(2)] mine[OF j q(2) _ q(1)] n t by auto
  then show False using q granters_unique[OF c] n t by (auto simp: supporters_def)
qed

text \<open>C1: Election safety: in every reachable state of a cluster, two leaders of the same term are the same server, provided
  that the elections they ran in that term took place in the same configuration or in successive ones of a change of
  members (simple and joint, or joint and the next simple one). Other servers and other terms may use any configurations.
  Calls on the state machines interleave with the fibers that store the term and the vote before they send the replies,
  messages are lost, repeated and reordered, and servers crash and start again from their disks.\<close>

theorem election_safety:
  assumes "cluster_reachable c" "cl_servers c i = Some s" "is_leader (srv_fsm s)"
    "cl_servers c j = Some s'" "is_leader (srv_fsm s')"
    "f_current_term (srv_fsm s) = t" "f_current_term (srv_fsm s') = t"
    "\<forall>k k'. (i, t, k) \<in> cl_elections c \<and> (j, t, k') \<in> cl_elections c \<longrightarrow> successive k k' \<or> successive k' k"
  shows "i = j"
proof -
  have c: "cluster_inv c" by (rule cluster_inv_reachable[OF assms(1)])
  obtain k k' where k: "(i, t, k) \<in> cl_elections c" "conf_quorum k (supporters c i (srv_fsm s))"
    "(j, t, k') \<in> cl_elections c" "conf_quorum k' (supporters c j (srv_fsm s'))"
    using leader_quorum[OF c assms(2,3)] leader_quorum[OF c assms(4,5)] unfolding assms(6,7) by blast
  then obtain q where "q \<in> supporters c i (srv_fsm s)" "q \<in> supporters c j (srv_fsm s')"
    using assms(8) successive_quorums_meet by blast
  then show ?thesis using supporters_agree[OF c assms(2,4)] assms(6,7) by simp
qed

text \<open>Two voters, of which the second one is being removed. The first one has the joint configuration and is to be the only
  voter, so it asks for votes when it starts; the second one, which still has the old configuration, grants its vote.\<close>

definition ex_old :: configuration where
  "ex_old = \<lparr>conf_current = [ex_member 1 True, ex_member 2 True], conf_previous = []\<rparr>"

definition ex_joint :: configuration where
  "ex_joint = \<lparr>conf_current = [ex_member 1 True], conf_previous = [ex_member 1 True, ex_member 2 True]\<rparr>"

definition ex_boot_log :: "configuration \<Rightarrow> raft_log" where
  "ex_boot_log k = (ex_log [])\<lparr>log_snapshot := \<lparr>snp_idx = 0, snp_term = 0, snp_config = k, snp_id = 1\<rparr>\<rparr>"

definition ex_boot :: "server_id \<Rightarrow> configuration \<Rightarrow> fsm result" where
  "ex_boot i k = make_fsm i 0 0 (ex_boot_log k) 0
     \<lparr>cfg_append_request_threshold = 1000, cfg_max_log_size = 10000, cfg_enable_prevoting = False\<rparr> (\<lambda>n. n)"

definition ex_deliver :: "server_id \<Rightarrow> fsm_output \<Rightarrow> server_id \<Rightarrow> fsm \<Rightarrow> fsm result" where
  "ex_deliver src batch dst f =
     (case map_of (out_messages batch) dst of
        Some m \<Rightarrow> if get_configuration (f_log f) \<in> {Inr ex_old, Inr ex_joint} then fsm_step f src m else Inl Out_of_range
      | None \<Rightarrow> Inl Out_of_range)"

definition ex_election :: "(fsm \<times> fsm) result" where
  "ex_election = bindE (ex_boot 1 ex_joint) (\<lambda>f1. bindE (ex_boot 2 ex_old) (\<lambda>f2.
     bindE (get_output f1) (\<lambda>(b1, f1'). bindE (ex_deliver 1 b1 2 f2) (\<lambda>f2'. bindE (get_output f2') (\<lambda>(b2, f2'').
     bindE (ex_deliver 2 b2 1 f1') (\<lambda>f1''. Inr (f1'', f2'')))))))"

lemma ex_election_won: "case ex_election of Inr (f1, f2) \<Rightarrow> is_leader f1 \<and> f_current_term f1 = 1 \<and> f_voted_for f2 = 1 | Inl _ \<Rightarrow> False"
  by code_simp

text \<open>The states of a cluster in which all elections were in one of the two configurations.\<close>

definition ex_reaches :: "(server_id \<Rightarrow> server option) \<Rightarrow> (server_id \<times> server_id \<times> rpc_message) set \<Rightarrow> bool" where
  "ex_reaches m net \<longleftrightarrow> (\<exists>d E. cluster_reachable \<lparr>cl_servers = m, cl_disk = d, cl_net = net, cl_elections = E\<rparr> \<and>
     (\<forall>i t k. (i, t, k) \<in> E \<longrightarrow> k \<in> {ex_old, ex_joint}))"

lemma ex_started_in:
  "(j, t', k) \<in> election_started i t l f' \<Longrightarrow> get_configuration l = Inr k"
  by (auto simp: election_started_def split: if_splits sum.splits)

lemma ex_reaches_deliver:
  assumes "ex_reaches m (send_messages src b net)" "m i = Some s" "ex_deliver src b i (srv_fsm s) = Inr f'"
  shows "ex_reaches (m(i \<mapsto> s\<lparr>srv_fsm := f'\<rparr>)) (send_messages src b net)"
proof -
  obtain d E where r: "cluster_reachable \<lparr>cl_servers = m, cl_disk = d, cl_net = send_messages src b net, cl_elections = E\<rparr>"
    and E: "\<forall>i t k. (i, t, k) \<in> E \<longrightarrow> k \<in> {ex_old, ex_joint}" using assms(1) unfolding ex_reaches_def by blast
  obtain msg where m: "map_of (out_messages b) i = Some msg" "fsm_exec (EStep src msg) (srv_fsm s) = Inr f'"
    "get_configuration (f_log (srv_fsm s)) \<in> {Inr ex_old, Inr ex_joint}"
    using assms(3) by (auto simp: ex_deliver_def split: option.splits if_splits)
  have "(src, i, msg) \<in> send_messages src b net" using map_of_SomeD[OF m(1)] by (force simp: send_messages_def)
  then have "delivered \<lparr>cl_servers = m, cl_disk = d, cl_net = send_messages src b net, cl_elections = E\<rparr> i (EStep src msg)"
    by (simp add: delivered_def)
  then have "cluster_reachable \<lparr>cl_servers = m(i \<mapsto> s\<lparr>srv_fsm := f'\<rparr>), cl_disk = d, cl_net = send_messages src b net,
      cl_elections = E \<union> election_started i (f_current_term (srv_fsm s)) (f_log (srv_fsm s)) f'\<rparr>"
    using cluster_reachable.step[OF r cluster_step.call[OF _ _ m(2)]] assms(2) by simp
  then show ?thesis unfolding ex_reaches_def using E ex_started_in m(3) by (intro exI conjI) (assumption, fastforce)
qed

lemma ex_reaches_flush:
  assumes "ex_reaches m net" "m i = Some \<lparr>srv_fsm = f, srv_io = Io_poll\<rparr>" "get_output f = Inr (b, f')"
  shows "ex_reaches (m(i \<mapsto> \<lparr>srv_fsm = f', srv_io = Io_poll\<rparr>)) (send_messages i b net)"
proof -
  obtain d E where r: "cluster_reachable \<lparr>cl_servers = m, cl_disk = d, cl_net = net, cl_elections = E\<rparr>"
    and E: "\<forall>i t k. (i, t, k) \<in> E \<longrightarrow> k \<in> {ex_old, ex_joint}" using assms(1) unfolding ex_reaches_def by blast
  let ?d = "d(i := store_term_and_vote b (d i))"
  have 1: "cluster_reachable \<lparr>cl_servers = m(i \<mapsto> \<lparr>srv_fsm = f', srv_io = Io_store b\<rparr>), cl_disk = d, cl_net = net, cl_elections = E\<rparr>"
    using cluster_reachable.step[OF r cluster_step.poll[of _ i]] assms(2,3) by simp
  have 2: "cluster_reachable \<lparr>cl_servers = m(i \<mapsto> \<lparr>srv_fsm = f', srv_io = Io_send b\<rparr>), cl_disk = ?d, cl_net = net, cl_elections = E\<rparr>"
    using cluster_reachable.step[OF 1 cluster_step.store[of _ i "\<lparr>srv_fsm = f', srv_io = Io_store b\<rparr>" b]] by simp
  have "cluster_reachable \<lparr>cl_servers = m(i \<mapsto> \<lparr>srv_fsm = f', srv_io = Io_poll\<rparr>), cl_disk = ?d,
      cl_net = send_messages i b net, cl_elections = E\<rparr>"
    using cluster_reachable.step[OF 2 cluster_step.send[of _ i "\<lparr>srv_fsm = f', srv_io = Io_send b\<rparr>" b]] by simp
  then show ?thesis unfolding ex_reaches_def using E by blast
qed

lemma ex_reaches_boot:
  assumes "ex_boot 1 ex_joint = Inr f1" "ex_boot 2 ex_old = Inr f2"
  shows "ex_reaches [1 \<mapsto> \<lparr>srv_fsm = f1, srv_io = Io_poll\<rparr>, 2 \<mapsto> \<lparr>srv_fsm = f2, srv_io = Io_poll\<rparr>] {}"
proof -
  let ?E = "election_started 1 0 (ex_boot_log ex_joint) f1"
  have k: "get_configuration (ex_boot_log k) = Inr k" for k by (simp add: get_configuration_def ex_boot_log_def ex_log_def)
  have 1: "cluster_reachable \<lparr>cl_servers = [1 \<mapsto> \<lparr>srv_fsm = f1, srv_io = Io_poll\<rparr>], cl_disk = \<lambda>i. (0, 0), cl_net = {}, cl_elections = ?E\<rparr>"
    using cluster_reachable.step[OF cluster_reachable.init cluster_step.start[of "cluster_init (\<lambda>i. (0, 0))" 1 "ex_boot_log ex_joint"]] assms(1)
    by (simp add: cluster_init_def ex_boot_def)
  have "cluster_reachable \<lparr>cl_servers = [1 \<mapsto> \<lparr>srv_fsm = f1, srv_io = Io_poll\<rparr>, 2 \<mapsto> \<lparr>srv_fsm = f2, srv_io = Io_poll\<rparr>],
      cl_disk = \<lambda>i. (0, 0), cl_net = {}, cl_elections = ?E \<union> election_started 2 0 (ex_boot_log ex_old) f2\<rparr>"
    using cluster_reachable.step[OF 1 cluster_step.start[of _ 2 "ex_boot_log ex_old"]] assms(2) by (simp add: ex_boot_def)
  then show ?thesis unfolding ex_reaches_def using ex_started_in k by (intro exI conjI) (assumption, fastforce)
qed

lemma ex_successive: "k \<in> {ex_old, ex_joint} \<Longrightarrow> k' \<in> {ex_old, ex_joint} \<Longrightarrow> successive k k' \<or> successive k' k"
proof -
  have "enter_joint ex_old [ex_member 1 True] = Inr ex_joint" "\<not> is_joint ex_old" "conf_current ex_old \<noteq> []"
    by (simp_all add: enter_joint_def ex_old_def ex_joint_def is_joint_def)
  then have "successive ex_old ex_joint" "successive k k" for k unfolding successive_def by blast+
  then show "k \<in> {ex_old, ex_joint} \<Longrightarrow> k' \<in> {ex_old, ex_joint} \<Longrightarrow> successive k k' \<or> successive k' k" by blast
qed

lemma election_safety_witness:
  "\<exists>c s s2. cluster_reachable c \<and> cl_servers c 1 = Some s \<and> cl_servers c 2 = Some s2 \<and>
     is_leader (srv_fsm s) \<and> f_current_term (srv_fsm s) = 1 \<and> f_voted_for (srv_fsm s2) = 1 \<and>
     {j. \<exists>s'. cl_servers c j = Some s' \<and> is_leader (srv_fsm s') \<and> f_current_term (srv_fsm s') = 1} = {1}"
proof -
  obtain f1 f2 b1 f1' f2' b2 g1 g2 where b: "ex_boot 1 ex_joint = Inr f1" "ex_boot 2 ex_old = Inr f2"
    and s: "get_output f1 = Inr (b1, f1')" "ex_deliver 1 b1 2 f2 = Inr f2'" "get_output f2' = Inr (b2, g2)" "ex_deliver 2 b2 1 f1' = Inr g1"
    and w: "is_leader g1" "f_current_term g1 = 1" "f_voted_for g2 = 1"
    using ex_election_won unfolding ex_election_def by (auto split: sum.splits simp: bindE_def)
  note 1 = ex_reaches_flush[OF ex_reaches_boot[OF b] _ s(1), of 1, simplified]
  note 2 = ex_reaches_deliver[OF 1, of 2 "\<lparr>srv_fsm = f2, srv_io = Io_poll\<rparr>" f2', simplified, OF s(2)]
  note 3 = ex_reaches_flush[OF 2 _ s(3), of 2, simplified]
  note 4 = ex_reaches_deliver[OF 3, of 1 "\<lparr>srv_fsm = f1', srv_io = Io_poll\<rparr>" g1, simplified, OF s(4)]
  obtain c where c: "cluster_reachable c" "cl_servers c 1 = Some \<lparr>srv_fsm = g1, srv_io = Io_poll\<rparr>"
    "cl_servers c 2 = Some \<lparr>srv_fsm = g2, srv_io = Io_poll\<rparr>" "\<forall>i t k. (i, t, k) \<in> cl_elections c \<longrightarrow> k \<in> {ex_old, ex_joint}"
    using 4 unfolding ex_reaches_def by fastforce
  have "1 = j" if "cl_servers c j = Some s'" "is_leader (srv_fsm s')" "f_current_term (srv_fsm s') = 1" for j s'
    by (rule election_safety[OF c(1,2) _ that(1,2) _ that(3)]) (use w c(4) ex_successive in \<open>simp_all, blast\<close>)
  then have "{j. \<exists>s'. cl_servers c j = Some s' \<and> is_leader (srv_fsm s') \<and> f_current_term (srv_fsm s') = 1} = {1}"
    using c(2) w by force
  then show ?thesis using c(1-3) w by (intro exI[of _ c] exI[of _ "\<lparr>srv_fsm = g1, srv_io = Io_poll\<rparr>"] exI[of _ "\<lparr>srv_fsm = g2, srv_io = Io_poll\<rparr>"]) simp
qed

end
