(* ===== verification/Raft_Liveness.thy ===== *)
theory Raft_Liveness
  imports Raft_Ballots
begin

text \<open>
  Progress of elections. A server that is not the leader and whose leader is gone does not wait forever: its ticks
  never fail, and after at most the randomized timeout of them it campaigns, which asks every other voter for a vote.
\<close>

section \<open>A round of voting\<close>

lemma voters_of_votes: "addr_id ` set (v_voters (make_votes c)) = voters (conf_previous c) \<union> voters (conf_current c)"
proof -
  have "addr_id ` set (fold (\<lambda>srv acc. if cm_can_vote srv then aset_insert acc (cm_addr srv) else acc) ms as) =
      addr_id ` set as \<union> voters ms" for ms as
  proof (induction ms arbitrary: as)
    case (Cons m ms)
    show ?case using Cons by (auto simp: aset_insert_def voters_Cons)
  qed (simp add: voters_Nil)
  then show ?thesis by (auto simp: make_votes_def voters_def)
qed

lemma solicit_vote_fields:
  "f_clock (fst (solicit_vote trm pre tr a fv)) = f_clock (fst fv)"
  "f_last_election_time (fst (solicit_vote trm pre tr a fv)) = f_last_election_time (fst fv)"
  "f_randomized_election_timeout (fst (solicit_vote trm pre tr a fv)) = f_randomized_election_timeout (fst fv)"
  "f_log (fst (solicit_vote trm pre tr a fv)) = f_log (fst fv)" "f_my_id (fst (solicit_vote trm pre tr a fv)) = f_my_id (fst fv)"
  "set (f_messages (fst fv)) \<subseteq> set (f_messages (fst (solicit_vote trm pre tr a fv)))"
  by (cases fv; auto simp: solicit_vote_def send_to_def signal_events_def)+

lemma solicit_fold_fields:
  "f_clock (fst (fold (solicit_vote trm pre tr) vs fv)) = f_clock (fst fv) \<and>
   f_last_election_time (fst (fold (solicit_vote trm pre tr) vs fv)) = f_last_election_time (fst fv) \<and>
   f_randomized_election_timeout (fst (fold (solicit_vote trm pre tr) vs fv)) = f_randomized_election_timeout (fst fv) \<and>
   set (f_messages (fst fv)) \<subseteq> set (f_messages (fst (fold (solicit_vote trm pre tr) vs fv)))"
proof (induction vs arbitrary: fv)
  case (Cons a vs)
  show ?case using Cons[of "solicit_vote trm pre tr a fv"] solicit_vote_fields[where trm = trm and pre = pre and tr = tr and a = a and fv = fv] by auto
qed simp

text \<open>Every other voter is sent a request.\<close>

definition asked :: "fsm \<Rightarrow> term_t \<Rightarrow> bool \<Rightarrow> server_id \<Rightarrow> bool" where
  "asked g trm pre s \<longleftrightarrow> (\<exists>r. (s, VoteRequest r) \<in> set (f_messages g) \<and> vreq_current_term r = trm \<and> vreq_is_prevote r = pre \<and>
     vreq_last_log_idx r = last_idx (f_log g) \<and> vreq_last_log_term r = last_term (f_log g))"

lemma asked_intro:
  "(s, VoteRequest \<lparr>vreq_current_term = trm, vreq_last_log_idx = last_idx (f_log g), vreq_last_log_term = last_term (f_log g),
     vreq_is_prevote = pre, vreq_force = tr\<rparr>) \<in> set (f_messages g) \<Longrightarrow> asked g trm pre s"
  unfolding asked_def by (intro exI conjI, assumption) simp_all

lemma asked_keeps: "asked g trm pre s \<Longrightarrow> set (f_messages g) \<subseteq> set (f_messages g') \<Longrightarrow> f_log g' = f_log g \<Longrightarrow> asked g' trm pre s"
  by (auto simp: asked_def)

lemma solicit_asks:
  "a \<in> set vs \<Longrightarrow> addr_id a \<noteq> f_my_id (fst fv) \<Longrightarrow> asked (fst (fold (solicit_vote trm pre tr) vs fv)) trm pre (addr_id a)"
proof (induction vs arbitrary: fv)
  case (Cons b vs)
  let ?fv = "solicit_vote trm pre tr b fv"
  have log: "f_log (fst (fold (solicit_vote trm pre tr) vs ?fv)) = f_log (fst fv)"
    using solicit_votes_frame(4)[of trm pre tr vs ?fv] solicit_vote_fields(4) by simp
  show ?case
  proof (cases "a = b")
    case True
    then have "asked (fst ?fv) trm pre (addr_id a)"
      using Cons.prems(2) by (cases fv) (rule asked_intro[where tr = tr], simp add: solicit_vote_def send_to_def signal_events_def)
    then have "asked (fst (fold (solicit_vote trm pre tr) vs ?fv)) trm pre (addr_id a)"
      by (rule asked_keeps) (simp_all only: solicit_fold_fields log solicit_vote_fields(4))
    then show ?thesis by simp
  next
    case False
    then show ?thesis using Cons.IH[of ?fv] Cons.prems solicit_vote_fields(5) by simp
  qed
qed simp

text \<open>One vote is no majority of two or more voters.\<close>

lemma own_vote_no_majority: "2 \<le> card V \<Longrightarrow> S \<subseteq> {i} \<Longrightarrow> \<not> majority V S"
proof -
  assume "2 \<le> card V" "S \<subseteq> {i}"
  then have "card (S \<inter> V) \<le> 1" using card_mono[of "{i}" "S \<inter> V"] by auto
  then show ?thesis using \<open>2 \<le> card V\<close> by (simp add: majority_def)
qed

lemma own_vote_tally:
  assumes "set rs \<subseteq> {(i, True)}" "2 \<le> card (voters (conf_current c))"
  shows "\<exists>r. tally_votes (votes_run rs (make_votes c)) = Inr r \<and> r \<noteq> WON"
proof -
  have "granted_by rs \<subseteq> {i}" using granted_by_own[OF assms(1)] by blast
  then have "half_outcome (voters (conf_current c)) rs \<noteq> WON"
    using own_vote_no_majority[OF assms(2)] by (auto simp: half_outcome_def split: if_splits)
  then show ?thesis unfolding tally_votes_outcome by (auto simp: Let_def)
qed

text \<open>What a server is after it has started to campaign at the present time.\<close>

definition campaigning :: "fsm \<Rightarrow> configuration \<Rightarrow> bool \<Rightarrow> term_t \<Rightarrow> fsm \<Rightarrow> bool" where
  "campaigning f conf pre trm g \<longleftrightarrow> is_candidate g \<and> is_prevote_candidate g = pre \<and> f_last_election_time g = f_clock g \<and>
     f_log g = f_log f \<and> f_my_id g = f_my_id f \<and>
     ELECTION_TIMEOUT < f_randomized_election_timeout g \<and>
     f_randomized_election_timeout g \<le> ELECTION_TIMEOUT + max ELECTION_TIMEOUT (int (length (conf_current conf))) \<and>
     (\<forall>s \<in> voters (conf_previous conf) \<union> voters (conf_current conf). s \<noteq> f_my_id f \<longrightarrow> asked g trm pre s)"

lemma reset_election_timeout_range:
  assumes "get_configuration (f_log f) = Inr conf"
  shows "\<exists>t r. reset_election_timeout f = Inr (f\<lparr>f_randomized_election_timeout := t, f_random := r\<rparr>) \<and>
    ELECTION_TIMEOUT < t \<and> t \<le> ELECTION_TIMEOUT + max ELECTION_TIMEOUT (int (length (conf_current conf)))"
proof -
  let ?m = "max (nat ELECTION_TIMEOUT) (length (conf_current conf))"
  have "f_random f 0 mod ?m < ?m" by (rule mod_less_divisor) (simp add: ELECTION_TIMEOUT_def)
  moreover have "int ?m = max ELECTION_TIMEOUT (int (length (conf_current conf)))" by (simp add: ELECTION_TIMEOUT_def)
  ultimately have "1 + int (f_random f 0 mod ?m) \<le> max ELECTION_TIMEOUT (int (length (conf_current conf)))" by linarith
  then show ?thesis using assms
    by (intro exI[of _ "ELECTION_TIMEOUT + int (1 + f_random f 0 mod ?m)"] exI[of _ "\<lambda>n. f_random f (Suc n)"])
      (simp add: reset_election_timeout_def fsm_get_configuration_def Let_def)
qed

lemma enter_candidate_starts:
  assumes "fsm_get_configuration f = Inr conf"
  shows "\<exists>f1. enter_candidate pre f = Inr (make_votes conf, f1) \<and> f_log f1 = f_log f \<and> f_my_id f1 = f_my_id f \<and>
    f_clock f1 = f_clock f \<and> f_last_election_time f1 = f_clock f \<and> f_current_term f1 = f_current_term f \<and>
    ELECTION_TIMEOUT < f_randomized_election_timeout f1 \<and>
    f_randomized_election_timeout f1 \<le> ELECTION_TIMEOUT + max ELECTION_TIMEOUT (int (length (conf_current conf)))"
proof -
  define f0 where "f0 = (if \<not> is_candidate f then f\<lparr>f_output := (f_output f)\<lparr>out_state_changed := True\<rparr>\<rparr> else f)"
  have f0: "f_log f0 = f_log f" "f_my_id f0 = f_my_id f" "f_clock f0 = f_clock f" "f_current_term f0 = f_current_term f"
    by (simp_all add: f0_def)
  let ?f = "f0\<lparr>f_state := Candidate (make_votes conf) pre\<rparr>"
  obtain t r where "reset_election_timeout ?f = Inr (?f\<lparr>f_randomized_election_timeout := t, f_random := r\<rparr>)"
    "ELECTION_TIMEOUT < t" "t \<le> ELECTION_TIMEOUT + max ELECTION_TIMEOUT (int (length (conf_current conf)))"
    using reset_election_timeout_range[of ?f conf] assms f0(1) by (auto simp: fsm_get_configuration_def)
  then show ?thesis using assms f0 unfolding enter_candidate_def f0_def[symmetric]
    by (simp add: fsm_get_configuration_def)
qed

lemma campaign_starts:
  assumes "fsm_get_configuration f = Inr conf" "f_my_id f \<in> voters (conf_previous conf) \<union> voters (conf_current conf)"
    "2 \<le> card (voters (conf_current conf))"
  shows "\<exists>g. campaign on_won pre tr f = Inr g \<and> f_clock g = f_clock f \<and> campaigning f conf pre (f_current_term f + 1) g"
proof -
  let ?v = "make_votes conf" and ?trm = "f_current_term f + 1"
  obtain f1 where e: "enter_candidate pre f = Inr (?v, f1)" "f_log f1 = f_log f" "f_my_id f1 = f_my_id f" "f_clock f1 = f_clock f"
    "f_last_election_time f1 = f_clock f" "f_current_term f1 = f_current_term f"
    "ELECTION_TIMEOUT < f_randomized_election_timeout f1"
    "f_randomized_election_timeout f1 \<le> ELECTION_TIMEOUT + max ELECTION_TIMEOUT (int (length (conf_current conf)))"
    using enter_candidate_starts[OF assms(1), of pre] by blast
  have go: "may_campaign f1 ?v = Inr True" using assms(2) e(3) by (simp add: may_campaign_def voters_of_votes)
  define f2 where "f2 = (if pre then f1 else f1\<lparr>f_current_term := ?trm, f_voted_for := 0\<rparr>)"
  have u: "(if \<not> pre then update_current_term f1 ?trm else Inr f1) = Inr f2" "f_log f2 = f_log f1" "f_my_id f2 = f_my_id f1"
    "f_clock f2 = f_clock f1" "f_last_election_time f2 = f_last_election_time f1"
    "f_randomized_election_timeout f2 = f_randomized_election_timeout f1"
    using e(6) by (simp_all add: f2_def update_current_term_def assertE_def)
  obtain f3 v' where s: "fold (solicit_vote ?trm pre tr) (v_voters ?v) (f2, ?v) = (f3, v')" by fastforce
  obtain rs where rs: "v' = votes_run rs ?v" "set rs \<subseteq> {(f_my_id f2, True)}" using solicit_votes_loop[OF s] by blast
  obtain r where r: "tally_votes v' = Inr r" "r \<noteq> WON" using own_vote_tally[OF rs(2) assms(3)] rs(1) by blast
  let ?g = "f3\<lparr>f_state := Candidate v' pre\<rparr>"
  have c: "campaign on_won pre tr f = Inr ?g"
    using e(1,6) go u(1) s r by (cases pre) (simp_all add: campaign_def solicit_votes_def Let_def)
  have k: "f_clock f3 = f_clock f" "f_last_election_time f3 = f_clock f"
    "f_randomized_election_timeout f3 = f_randomized_election_timeout f1"
    using solicit_fold_fields[of ?trm pre tr "v_voters ?v" "(f2, ?v)"] s u e by auto
  have l: "f_log f3 = f_log f" "f_my_id f3 = f_my_id f"
    using solicit_votes_frame(1,4)[of ?trm pre tr "v_voters ?v" "(f2, ?v)"] s u(2,3) e(2,3) by auto
  have "asked ?g ?trm pre x" if "x \<in> voters (conf_previous conf) \<union> voters (conf_current conf)" "x \<noteq> f_my_id f" for x
  proof -
    have "x \<in> addr_id ` set (v_voters ?v)" using that(1) by (simp only: voters_of_votes)
    then obtain a where a: "a \<in> set (v_voters ?v)" "x = addr_id a" by blast
    have n: "addr_id a \<noteq> f_my_id (fst (f2, ?v))" using a(2) that(2) u(3) e(3) by simp
    have "asked f3 ?trm pre x" using solicit_asks[OF a(1) n, of ?trm pre tr] a(2) by (simp only: s fst_conv)
    then show ?thesis by (rule asked_keeps) simp_all
  qed
  then have "campaigning f conf pre ?trm ?g" using k l e(7,8) by (simp add: campaigning_def is_candidate_def is_prevote_candidate_def)
  then show ?thesis using c k(1) by auto
qed

lemma become_candidate_starts:
  assumes "fsm_get_configuration f = Inr conf" "f_my_id f \<in> voters (conf_previous conf) \<union> voters (conf_current conf)"
    "2 \<le> card (voters (conf_current conf))"
  shows "\<exists>g. become_candidate f pre tr = Inr g \<and> campaigning f conf pre (f_current_term f + 1) g"
proof (cases pre)
  case True
  then show ?thesis unfolding become_candidate_def
    using campaign_starts[OF assms, of "campaign become_leader False False" True tr] by auto
next
  case False
  then show ?thesis unfolding become_candidate_def using campaign_starts[OF assms, of become_leader False tr] by auto
qed

section \<open>Ticks\<close>

text \<open>A tick that neither hears of a leader nor runs out of time only advances the clock; it may ping the other voters.\<close>

definition waits :: "fsm \<Rightarrow> fsm \<Rightarrow> bool" where
  "waits f g \<longleftrightarrow> f_my_id g = f_my_id f \<and> f_state g = f_state f \<and> f_log g = f_log f \<and> f_config g = f_config f \<and>
     f_current_term g = f_current_term f \<and> f_last_election_time g = f_last_election_time f \<and>
     f_randomized_election_timeout g = f_randomized_election_timeout f"

lemma waits_pings: "waits f (fold (ping_voter alive) ms f) \<and> f_clock (fold (ping_voter alive) ms f) = f_clock f"
proof (induction ms arbitrary: f)
  case (Cons m ms)
  have "waits f (ping_voter alive m f) \<and> f_clock (ping_voter alive m f) = f_clock f"
    by (simp add: waits_def ping_voter_def send_to_def signal_events_def)
  then show ?case using Cons[of "ping_voter alive m f"] by (simp add: waits_def)
qed (simp add: waits_def)

lemma search_waits:
  assumes "fsm_get_configuration f = Inr conf"
  shows "\<exists>g. search_for_leader alive f = Inr g \<and> waits f g \<and> f_clock g = f_clock f"
  using assms waits_pings[of f alive "conf_current conf"] by (auto simp: search_for_leader_def waits_def)

definition leaderless :: "configuration \<Rightarrow> (server_id \<Rightarrow> bool) \<Rightarrow> fsm \<Rightarrow> bool" where
  "leaderless conf alive f \<longleftrightarrow> \<not> (current_leader f \<noteq> 0 \<and> conf_can_vote conf (current_leader f) \<and> alive (current_leader f))"

lemma tick_leaderless:
  assumes "\<not> is_leader f" "fsm_get_configuration f = Inr conf" "leaderless conf alive f"
  shows "fsm_tick alive f = (let f1 = f\<lparr>f_clock := f_clock f + 1\<rparr> in
     bindE (if is_past_election_timeout f1 then become_candidate f1 (cfg_enable_prevoting (f_config f)) False else Inr f1)
       (search_for_leader alive))"
  using assms by (cases "f_state f") (auto simp: fsm_tick_def clock_advance_def is_leader_def has_stable_leader_def leaderless_def
      fsm_get_configuration_def current_leader_def Let_def)

lemma tick_waits:
  assumes "\<not> is_leader f" "fsm_get_configuration f = Inr conf" "leaderless conf alive f"
    "election_elapsed f + 1 < f_randomized_election_timeout f"
  shows "\<exists>g. fsm_tick alive f = Inr g \<and> waits f g \<and> f_clock g = f_clock f + 1"
proof -
  let ?f = "f\<lparr>f_clock := f_clock f + 1\<rparr>"
  have "\<not> is_past_election_timeout ?f" using assms(4) by (simp add: is_past_election_timeout_def election_elapsed_def)
  then have "fsm_tick alive f = search_for_leader alive ?f" using tick_leaderless[OF assms(1-3)] by (simp add: Let_def)
  then show ?thesis using search_waits[of ?f conf alive] assms(2) by (auto simp: waits_def fsm_get_configuration_def)
qed

lemma tick_campaigns:
  assumes "\<not> is_leader f" "fsm_get_configuration f = Inr conf" "leaderless conf alive f"
    "f_randomized_election_timeout f \<le> election_elapsed f + 1"
    "f_my_id f \<in> voters (conf_previous conf) \<union> voters (conf_current conf)" "2 \<le> card (voters (conf_current conf))"
  shows "\<exists>g. fsm_tick alive f = Inr g \<and> campaigning f conf (cfg_enable_prevoting (f_config f)) (f_current_term f + 1) g"
proof -
  let ?f = "f\<lparr>f_clock := f_clock f + 1\<rparr>" and ?pre = "cfg_enable_prevoting (f_config f)"
  have "is_past_election_timeout ?f" using assms(4) by (simp add: is_past_election_timeout_def election_elapsed_def)
  then have t: "fsm_tick alive f = bindE (become_candidate ?f ?pre False) (search_for_leader alive)"
    using tick_leaderless[OF assms(1-3)] by (simp add: Let_def)
  have "\<exists>g. become_candidate ?f ?pre False = Inr g \<and> campaigning ?f conf ?pre (f_current_term ?f + 1) g"
    by (rule become_candidate_starts) (use assms(2,5,6) in \<open>simp_all add: fsm_get_configuration_def\<close>)
  then obtain g where g: "become_candidate ?f ?pre False = Inr g" "campaigning f conf ?pre (f_current_term f + 1) g"
    by (auto simp: campaigning_def)
  then have "search_for_leader alive g = Inr g"
    by (auto simp: search_for_leader_def campaigning_def is_candidate_def is_follower_def split: fsm_state.splits)
  then show ?thesis using t g by auto
qed

lemma waits_keeps:
  assumes "waits f g"
  shows "is_leader g = is_leader f" "fsm_get_configuration g = fsm_get_configuration f" "leaderless conf alive g = leaderless conf alive f"
    "campaigning g conf pre trm h = campaigning f conf pre trm h"
proof -
  have "current_leader g = current_leader f" using assms by (cases "f_state f") (simp_all add: waits_def current_leader_def)
  then show "leaderless conf alive g = leaderless conf alive f" by (simp add: leaderless_def)
qed (use assms in \<open>simp_all add: waits_def is_leader_def fsm_get_configuration_def campaigning_def\<close>)

lemma ticks_campaign:
  assumes "\<not> is_leader f" "fsm_get_configuration f = Inr conf"
    "f_my_id f \<in> voters (conf_previous conf) \<union> voters (conf_current conf)" "2 \<le> card (voters (conf_current conf))"
    "\<forall>alive \<in> set ds. leaderless conf alive f" "f_randomized_election_timeout f \<le> election_elapsed f + int (length ds)" "ds \<noteq> []"
  shows "\<exists>n g. 0 < n \<and> n \<le> length ds \<and> foldE fsm_tick (take n ds) f = Inr g \<and>
    campaigning f conf (cfg_enable_prevoting (f_config f)) (f_current_term f + 1) g"
  using assms
proof (induction ds arbitrary: f)
  case (Cons d ds)
  show ?case
  proof (cases "f_randomized_election_timeout f \<le> election_elapsed f + 1")
    case True
    obtain g where "fsm_tick d f = Inr g" "campaigning f conf (cfg_enable_prevoting (f_config f)) (f_current_term f + 1) g"
      using tick_campaigns[of f conf d] Cons.prems True by auto
    then show ?thesis by (intro exI[of _ 1] exI[of _ g]) simp
  next
    case False
    then obtain h where h: "fsm_tick d f = Inr h" "waits f h" "f_clock h = f_clock f + 1"
      using tick_waits[of f conf d] Cons.prems by auto
    have "ds \<noteq> []" using False Cons.prems(6) by auto
    moreover have "f_randomized_election_timeout h \<le> election_elapsed h + int (length ds)"
      using Cons.prems(6) h(2,3) by (simp add: waits_def election_elapsed_def)
    ultimately obtain n g where "0 < n" "n \<le> length ds" "foldE fsm_tick (take n ds) h = Inr g"
      "campaigning h conf (cfg_enable_prevoting (f_config h)) (f_current_term h + 1) g"
      using Cons.IH[of h] Cons.prems(1-5) waits_keeps(1-3)[OF h(2)] h(2) by (auto simp: waits_def)
    then show ?thesis using h waits_keeps(4)[OF h(2)]
      by (intro exI[of _ "Suc n"] exI[of _ g]) (simp add: waits_def)
  qed
qed simp

section \<open>Elections start\<close>

text \<open>
  C16: A server that is not the leader, is a voter of a configuration with at least two voters, and learns of no live leader
  (it knows none, the one it knows has lost its vote, or the failure detector reports it dead at every tick) starts an
  election: a number of ticks that covers the rest of its randomized timeout never fails, and one of them makes it a
  candidate, a pre-vote one where pre-voting is on, with a fresh timeout of at most twice the election timeout or the
  election timeout plus the cluster's size, and a vote request with its last log position in the queue for each of the
  other voters, those of the outgoing configuration included.
\<close>

theorem elections_start:
  assumes "\<not> is_leader f" "fsm_get_configuration f = Inr conf"
    "f_my_id f \<in> voters (conf_previous conf) \<union> voters (conf_current conf)" "2 \<le> card (voters (conf_current conf))"
    "\<forall>alive \<in> set ds. leaderless conf alive f" "ds \<noteq> []"
    "f_randomized_election_timeout f - election_elapsed f \<le> int (length ds)"
  shows "\<exists>n g. 0 < n \<and> n \<le> length ds \<and> foldE fsm_tick (take n ds) f = Inr g \<and>
    campaigning f conf (cfg_enable_prevoting (f_config f)) (f_current_term f + 1) g"
  using ticks_campaign[OF assms(1-5) _ assms(6)] assms(7) by simp

text \<open>A follower of three voters, a server of id 3 its leader, whose failure detector trusts nobody.\<close>

definition ex_trio :: configuration where
  "ex_trio = \<lparr>conf_current = [ex_member 1 True, ex_member 2 True, ex_member 3 True], conf_previous = []\<rparr>"

definition ex_orphan :: fsm where
  "ex_orphan = ex_follower\<lparr>f_state := Follower 3,
     f_log := (ex_log [])\<lparr>log_snapshot := \<lparr>snp_idx = 0, snp_term = 0, snp_config = ex_trio, snp_id = 1\<rparr>\<rparr>\<rparr>"

lemma elections_start_witness:
  "\<exists>n g. 0 < n \<and> n \<le> 11 \<and> foldE fsm_tick (take n (replicate 11 (\<lambda>_. False))) ex_orphan = Inr g \<and>
     campaigning ex_orphan ex_trio False 3 g"
proof -
  have v: "voters (conf_current ex_trio) = {1, 2, 3}" "conf_previous ex_trio = []"
    by (simp_all add: ex_trio_def ex_member_def voters_Cons)
  have "\<exists>n g. 0 < n \<and> n \<le> length (replicate 11 (\<lambda>_::server_id. False)) \<and>
      foldE fsm_tick (take n (replicate 11 (\<lambda>_. False))) ex_orphan = Inr g \<and>
      campaigning ex_orphan ex_trio (cfg_enable_prevoting (f_config ex_orphan)) (f_current_term ex_orphan + 1) g"
  proof (rule elections_start)
    show "fsm_get_configuration ex_orphan = Inr ex_trio"
      by (simp add: ex_orphan_def ex_follower_def fsm_get_configuration_def get_configuration_def ex_log_def)
    show "f_randomized_election_timeout ex_orphan - election_elapsed ex_orphan \<le> int (length (replicate 11 (\<lambda>_::server_id. False)))"
      by (simp add: ex_orphan_def ex_follower_def election_elapsed_def)
  qed (simp_all add: v leaderless_def is_leader_def ex_orphan_def ex_follower_def)
  then show ?thesis by (simp add: ex_orphan_def ex_follower_def)
qed

end
