(* ===== verification/Wrapping_Interval.thy ===== *)
theory Wrapping_Interval
  imports Prelude
begin

text \<open>
  Intervals with inclusive, exclusive or open bounds, from \<open>src/interval.hh\<close>: \<open>class wrapping_interval\<close>, whose
  end may be smaller than its start (it then goes around the ring of values), and \<open>class interval\<close>, whose
  end may not. Token ranges and clustering ranges are of these types.

  Every operation of the source takes a comparator and requires that it define a total ordering on \<open>T\<close> that
  returns \<open>std::strong_ordering\<close>; here the ordering is the one of the type \<open>'a\<close>. The assertions are those of
  the source: \<open>before\<close>, \<open>after\<close>, \<open>other_is_before\<close>, \<open>overlaps\<close> and \<open>split\<close> may fail with one.
\<close>

section \<open>Bounds\<close>

definition cmp :: "'a::linorder \<Rightarrow> 'a \<Rightarrow> strong_ordering" where
  "cmp a b = (if a < b then Ord_less else if a = b then Ord_equal else Ord_greater)"

definition require_ordering_and_on_equal_return ::
  "strong_ordering \<Rightarrow> strong_ordering \<Rightarrow> bool \<Rightarrow> bool" where
  "require_ordering_and_on_equal_return input match_to_return_true return_if_equal =
     (if input = match_to_return_true then True
      else if input = Ord_equal then return_if_equal
      else False)"

record 'a interval_bound =
  bound_value :: 'a
  is_inclusive :: bool

definition bound_equal :: "'a::linorder interval_bound \<Rightarrow> 'a interval_bound \<Rightarrow> bool" where
  "bound_equal b other \<longleftrightarrow> is_inclusive b = is_inclusive other \<and> cmp (bound_value b) (bound_value other) = Ord_equal"

text \<open>The static functions on bounds; \<open>None\<close> is an open end.\<close>

type_synonym 'a bound_ref = "'a interval_bound option"

definition end_ge_start :: "'a::linorder bound_ref \<Rightarrow> 'a bound_ref \<Rightarrow> bool" where
  "end_ge_start e s =
     (case (e, s) of
        (Some eb, Some sb) \<Rightarrow> require_ordering_and_on_equal_return (cmp (bound_value eb) (bound_value sb)) Ord_greater
                                (is_inclusive eb \<and> is_inclusive sb)
      | _ \<Rightarrow> True)"

definition end_less_start :: "'a::linorder bound_ref \<Rightarrow> 'a bound_ref \<Rightarrow> bool" where
  "end_less_start e s = (\<not> end_ge_start e s)"

definition start_le_start :: "'a::linorder bound_ref \<Rightarrow> 'a bound_ref \<Rightarrow> bool" where
  "start_le_start first second =
     (case first of
        None \<Rightarrow> True
      | Some fb \<Rightarrow>
          (case second of
             None \<Rightarrow> False
           | Some sb \<Rightarrow> require_ordering_and_on_equal_return (cmp (bound_value fb) (bound_value sb)) Ord_less
                          (is_inclusive fb \<or> \<not> is_inclusive sb)))"

definition start_less_start :: "'a::linorder bound_ref \<Rightarrow> 'a bound_ref \<Rightarrow> bool" where
  "start_less_start first second =
     (case second of
        None \<Rightarrow> False
      | Some sb \<Rightarrow>
          (case first of
             None \<Rightarrow> True
           | Some fb \<Rightarrow> require_ordering_and_on_equal_return (cmp (bound_value fb) (bound_value sb)) Ord_less
                          (is_inclusive fb \<and> \<not> is_inclusive sb)))"

definition end_ge_end :: "'a::linorder bound_ref \<Rightarrow> 'a bound_ref \<Rightarrow> bool" where
  "end_ge_end first second =
     (case first of
        None \<Rightarrow> True
      | Some fb \<Rightarrow>
          (case second of
             None \<Rightarrow> False
           | Some sb \<Rightarrow> require_ordering_and_on_equal_return (cmp (bound_value fb) (bound_value sb)) Ord_greater
                          (is_inclusive fb \<or> \<not> is_inclusive sb)))"

section \<open>Wrapping intervals\<close>

record 'a wrapping_interval =
  wi_start_field :: "'a bound_ref"
  wi_end_field :: "'a bound_ref"
  wi_singular :: bool

text \<open>The constructors: a singular interval has no end of its own.\<close>

definition make_wi :: "'a bound_ref \<Rightarrow> 'a bound_ref \<Rightarrow> bool \<Rightarrow> 'a wrapping_interval" where
  "make_wi s e singular =
     \<lparr>wi_start_field = s, wi_end_field = (if \<not> singular then e else None), wi_singular = singular\<rparr>"

definition wi_make_singular :: "'a \<Rightarrow> 'a wrapping_interval" where
  "wi_make_singular value =
     \<lparr>wi_start_field = Some \<lparr>bound_value = value, is_inclusive = True\<rparr>, wi_end_field = None, wi_singular = True\<rparr>"

definition wi_make :: "'a interval_bound \<Rightarrow> 'a interval_bound \<Rightarrow> 'a wrapping_interval" where
  "wi_make s e = make_wi (Some s) (Some e) False"

definition wi_make_open_ended_both_sides :: "'a wrapping_interval" where
  "wi_make_open_ended_both_sides = make_wi None None False"

definition wi_make_starting_with :: "'a interval_bound \<Rightarrow> 'a wrapping_interval" where
  "wi_make_starting_with b = make_wi (Some b) None False"

definition wi_make_ending_with :: "'a interval_bound \<Rightarrow> 'a wrapping_interval" where
  "wi_make_ending_with b = make_wi None (Some b) False"

definition wi_start :: "'a wrapping_interval \<Rightarrow> 'a bound_ref" where
  "wi_start w = wi_start_field w"

definition wi_end :: "'a wrapping_interval \<Rightarrow> 'a bound_ref" where
  "wi_end w = (if wi_singular w then wi_start_field w else wi_end_field w)"

definition wi_is_full :: "'a wrapping_interval \<Rightarrow> bool" where
  "wi_is_full w \<longleftrightarrow> wi_start_field w = None \<and> wi_end_field w = None"

definition wi_reverse :: "'a wrapping_interval \<Rightarrow> 'a wrapping_interval" where
  "wi_reverse w =
     (if \<not> wi_singular w then w\<lparr>wi_start_field := wi_end_field w, wi_end_field := wi_start_field w\<rparr> else w)"

definition is_wrap_around :: "'a::linorder wrapping_interval \<Rightarrow> bool" where
  "is_wrap_around w =
     (case (wi_end_field w, wi_start_field w) of
        (Some eb, Some sb) \<Rightarrow>
          (let r = cmp (bound_value eb) (bound_value sb)
           in r = Ord_less \<or> (r = Ord_equal \<and> (\<not> is_inclusive sb \<or> \<not> is_inclusive eb)))
      | _ \<Rightarrow> False)"

definition unwrap :: "'a wrapping_interval \<Rightarrow> 'a wrapping_interval \<times> 'a wrapping_interval" where
  "unwrap w = (make_wi None (wi_end w) False, make_wi (wi_start w) None False)"

definition wi_before :: "'a::linorder wrapping_interval \<Rightarrow> 'a \<Rightarrow> bool result" where
  "wi_before w point =
     bindE (assertE (\<not> is_wrap_around w)) (\<lambda>_.
     case wi_start w of
       None \<Rightarrow> Inr False
     | Some b \<Rightarrow>
         let r = cmp point (bound_value b)
         in if r = Ord_less then Inr True
            else if \<not> is_inclusive b \<and> r = Ord_equal then Inr True
            else Inr False)"

definition wi_other_is_before :: "'a::linorder wrapping_interval \<Rightarrow> 'a wrapping_interval \<Rightarrow> bool result" where
  "wi_other_is_before w other =
     bindE (assertE (\<not> is_wrap_around w)) (\<lambda>_.
     bindE (assertE (\<not> is_wrap_around other)) (\<lambda>_.
     case (wi_start w, wi_end other) of
       (Some sb, Some eb) \<Rightarrow>
         let r = cmp (bound_value eb) (bound_value sb)
         in if r = Ord_less then Inr True
            else if r = Ord_greater then Inr False
            else
              let ei = is_inclusive eb; si = is_inclusive sb
              in if \<not> ei \<and> \<not> si then Inr True
                 else if ei \<noteq> si then Inr True
                 else Inr False
     | _ \<Rightarrow> Inr False))"

definition wi_after :: "'a::linorder wrapping_interval \<Rightarrow> 'a \<Rightarrow> bool result" where
  "wi_after w point =
     bindE (assertE (\<not> is_wrap_around w)) (\<lambda>_.
     case wi_end w of
       None \<Rightarrow> Inr False
     | Some b \<Rightarrow>
         let r = cmp (bound_value b) point
         in if r = Ord_less then Inr True
            else if \<not> is_inclusive b \<and> r = Ord_equal then Inr True
            else Inr False)"

lemma unwrap_not_wrap_around [simp]:
  "\<not> is_wrap_around (fst (unwrap w))" "\<not> is_wrap_around (snd (unwrap w))"
  by (simp_all add: unwrap_def make_wi_def is_wrap_around_def split: option.splits)

function wi_overlaps :: "'a::linorder wrapping_interval \<Rightarrow> 'a wrapping_interval \<Rightarrow> bool result" where
  "wi_overlaps w other =
     (let this_wraps = is_wrap_around w; other_wraps = is_wrap_around other
      in if this_wraps \<and> other_wraps then Inr True
         else if this_wraps then
           bindE (wi_overlaps other (fst (unwrap w))) (\<lambda>b.
           if b then Inr True else wi_overlaps other (snd (unwrap w)))
         else if other_wraps then
           bindE (wi_overlaps w (fst (unwrap other))) (\<lambda>b.
           if b then Inr True else wi_overlaps w (snd (unwrap other)))
         else
           bindE (assertE (\<not> this_wraps)) (\<lambda>_.
           bindE (assertE (\<not> other_wraps)) (\<lambda>_.
           if wi_start w = None \<and> wi_start other = None then Inr True
           else Inr (end_ge_start (wi_end w) (wi_start other) \<and> end_ge_start (wi_end other) (wi_start w)))))"
  by pat_completeness auto
termination
  by (relation "measure (\<lambda>(w, other). of_bool (is_wrap_around w) + of_bool (is_wrap_around other))") auto

function wi_contains :: "'a::linorder wrapping_interval \<Rightarrow> 'a \<Rightarrow> bool result" where
  "wi_contains w point =
     (if is_wrap_around w
      then bindE (wi_contains (fst (unwrap w)) point) (\<lambda>b.
           if b then Inr True else wi_contains (snd (unwrap w)) point)
      else bindE (wi_before w point) (\<lambda>b.
           if b then Inr False
           else bindE (wi_after w point) (\<lambda>a. Inr (\<not> a))))"
  by pat_completeness auto
termination
  by (relation "measure (\<lambda>(w, point). of_bool (is_wrap_around w))") auto

declare wi_overlaps.simps [simp del] wi_contains.simps [simp del]

definition wi_contains_interval :: "'a::linorder wrapping_interval \<Rightarrow> 'a wrapping_interval \<Rightarrow> bool" where
  "wi_contains_interval w other =
     (let this_wraps = is_wrap_around w; other_wraps = is_wrap_around other;
          start_within = (case (wi_start w, wi_start other) of
            (Some sb, Some ob) \<Rightarrow> require_ordering_and_on_equal_return (cmp (bound_value sb) (bound_value ob)) Ord_less
                                    (is_inclusive sb \<or> \<not> is_inclusive ob)
          | _ \<Rightarrow> False);
          end_within = (case (wi_end w, wi_end other) of
            (Some eb, Some ob) \<Rightarrow> require_ordering_and_on_equal_return (cmp (bound_value eb) (bound_value ob)) Ord_greater
                                    (is_inclusive eb \<or> \<not> is_inclusive ob)
          | _ \<Rightarrow> False)
      in if this_wraps \<and> other_wraps then start_within \<and> end_within
         else if \<not> this_wraps \<and> \<not> other_wraps
         then start_le_start (wi_start w) (wi_start other) \<and> end_ge_end (wi_end w) (wi_end other)
         else if other_wraps then wi_start w = None \<and> wi_end w = None
         else start_within \<or> end_within)"

text \<open>The bound on the other side of the same value, as \<open>subtract\<close> makes it: \<open>bound(b.value(), !b.is_inclusive())\<close>.\<close>

definition flip_bound :: "'a bound_ref \<Rightarrow> 'a bound_ref" where
  "flip_bound = map_option (\<lambda>b. \<lparr>bound_value = bound_value b, is_inclusive = \<not> is_inclusive b\<rparr>)"

definition unwrapped_list :: "'a::linorder wrapping_interval \<Rightarrow> 'a wrapping_interval list" where
  "unwrapped_list w = (if is_wrap_around w then [fst (unwrap w), snd (unwrap w)] else [w])"

text \<open>What is left of \<open>tmp\<close> on both sides of \<open>r2\<close> goes back to the front of \<open>left\<close>.\<close>

definition cut_out :: "'a::linorder wrapping_interval \<Rightarrow> 'a wrapping_interval \<Rightarrow> 'a wrapping_interval list \<Rightarrow>
    'a wrapping_interval list" where
  "cut_out tmp r2 left =
     (let left1 = (if \<not> end_ge_end (wi_end r2) (wi_end tmp)
                   then make_wi (flip_bound (wi_end r2)) (wi_end tmp) False # left else left)
      in if \<not> start_le_start (wi_start r2) (wi_start tmp)
         then make_wi (wi_start tmp) (flip_bound (wi_start r2)) False # left1 else left1)"

definition meets :: "'a::linorder wrapping_interval \<Rightarrow> 'a wrapping_interval \<Rightarrow> bool" where
  "meets r r2 \<longleftrightarrow> end_ge_start (wi_end r2) (wi_start r) \<and> end_ge_start (wi_end r) (wi_start r2)"

lemma make_wi_sel [simp]: "wi_start (make_wi s e False) = s" "wi_end (make_wi s e False) = e"
  by (simp_all add: make_wi_def wi_start_def wi_end_def)

lemma flip_bound_apart:
  "s \<noteq> None \<Longrightarrow> \<not> end_ge_start (flip_bound s) s" "e \<noteq> None \<Longrightarrow> \<not> end_ge_start e (flip_bound e)"
  by (auto simp: end_ge_start_def flip_bound_def require_ordering_and_on_equal_return_def cmp_def)

lemma cut_out_meets: "length (filter (\<lambda>r. meets r r2) (cut_out tmp r2 left)) = length (filter (\<lambda>r. meets r r2) left)"
proof -
  have "\<not> start_le_start (wi_start r2) (wi_start tmp) \<Longrightarrow> wi_start r2 \<noteq> None"
    "\<not> end_ge_end (wi_end r2) (wi_end tmp) \<Longrightarrow> wi_end r2 \<noteq> None"
    by (auto simp: start_le_start_def end_ge_end_def split: option.splits)
  then show ?thesis by (auto simp: cut_out_def Let_def meets_def flip_bound_apart)
qed

function subtract_loop :: "'a::linorder wrapping_interval list \<Rightarrow> 'a wrapping_interval list \<Rightarrow>
    'a wrapping_interval list \<Rightarrow> 'a wrapping_interval list" where
  "subtract_loop [] right acc = acc"
| "subtract_loop (r1 # left) [] acc = acc @ r1 # left"
| "subtract_loop (r1 # left) (r2 # right) acc =
     (if end_less_start (wi_end r2) (wi_start r1) then subtract_loop (r1 # left) right acc
      else if end_less_start (wi_end r1) (wi_start r2) then subtract_loop left (r2 # right) (acc @ [r1])
      else subtract_loop (cut_out r1 r2 left) (r2 # right) acc)"
  by pat_completeness auto
termination
  by (relation "measures [\<lambda>(l, r, _). length r, \<lambda>(l, r, _). length (filter (\<lambda>x. meets x (hd r)) l), \<lambda>(l, r, _). length l]")
     (auto simp: cut_out_meets[unfolded meets_def] meets_def end_less_start_def)

definition wi_subtract :: "'a::linorder wrapping_interval \<Rightarrow> 'a wrapping_interval \<Rightarrow> 'a wrapping_interval list" where
  "wi_subtract w other = subtract_loop (unwrapped_list w) (unwrapped_list other) []"

definition wi_split :: "'a::linorder wrapping_interval \<Rightarrow> 'a \<Rightarrow> ('a wrapping_interval \<times> 'a wrapping_interval) result" where
  "wi_split w split_point =
     bindE (wi_contains w split_point) (\<lambda>c.
     bindE (assertE c) (\<lambda>_.
     Inr (make_wi (wi_start w) (Some \<lparr>bound_value = split_point, is_inclusive = True\<rparr>) False,
          make_wi (Some \<lparr>bound_value = split_point, is_inclusive = False\<rparr>) (wi_end w) False)))"

definition wi_split_after :: "'a::linorder wrapping_interval \<Rightarrow> 'a \<Rightarrow> 'a wrapping_interval option result" where
  "wi_split_after w split_point =
     bindE (wi_contains w split_point) (\<lambda>c.
     if c \<and> (case wi_end w of None \<Rightarrow> True | Some eb \<Rightarrow> cmp split_point (bound_value eb) \<noteq> Ord_equal)
     then Inr (Some (make_wi (Some \<lparr>bound_value = split_point, is_inclusive = False\<rparr>) (wi_end w) False))
     else if (case wi_end w of None \<Rightarrow> False | Some eb \<Rightarrow> cmp split_point (bound_value eb) \<noteq> Ord_less)
     then Inr None
     else Inr (Some w))"

definition transform_bound :: "('a \<Rightarrow> 'b) \<Rightarrow> 'a bound_ref \<Rightarrow> 'b bound_ref" where
  "transform_bound transformer b =
     (case b of
        Some x \<Rightarrow> Some \<lparr>bound_value = transformer (bound_value x), is_inclusive = is_inclusive x\<rparr>
      | None \<Rightarrow> None)"

definition wi_transform :: "('a \<Rightarrow> 'b) \<Rightarrow> 'a wrapping_interval \<Rightarrow> 'b wrapping_interval" where
  "wi_transform transformer w =
     make_wi (transform_bound transformer (wi_start_field w)) (transform_bound transformer (wi_end_field w)) (wi_singular w)"

definition wi_equal :: "'a::linorder wrapping_interval \<Rightarrow> 'a wrapping_interval \<Rightarrow> bool" where
  "wi_equal w other \<longleftrightarrow>
     (wi_start_field w = None) = (wi_start_field other = None) \<and>
     (wi_end_field w = None) = (wi_end_field other = None) \<and>
     (case (wi_start_field w, wi_start_field other) of (Some b, Some b') \<Rightarrow> bound_equal b b' | _ \<Rightarrow> True) \<and>
     (case (wi_end_field w, wi_end_field other) of (Some b, Some b') \<Rightarrow> bound_equal b b' | _ \<Rightarrow> True) \<and>
     wi_singular w = wi_singular other"

section \<open>Intervals that do not wrap\<close>

text \<open>\<open>class interval\<close> has one field, a \<open>wrapping_interval\<close>, and its constructors may be called only with one that
  does not wrap around. The operations that it only forwards are those of \<open>wrapping_interval\<close>.\<close>

type_synonym 'a interval = "'a wrapping_interval"

definition interval_overlaps :: "'a::linorder interval \<Rightarrow> 'a interval \<Rightarrow> bool" where
  "interval_overlaps r other =
     (if wi_start r = None \<and> wi_start other = None then True
      else end_ge_start (wi_end r) (wi_start other) \<and> end_ge_start (wi_end other) (wi_start r))"

definition interval_contains :: "'a::linorder interval \<Rightarrow> 'a \<Rightarrow> bool result" where
  "interval_contains r point =
     bindE (wi_before r point) (\<lambda>b. if b then Inr False else bindE (wi_after r point) (\<lambda>a. Inr (\<not> a)))"

definition interval_contains_interval :: "'a::linorder interval \<Rightarrow> 'a interval \<Rightarrow> bool" where
  "interval_contains_interval r other \<longleftrightarrow>
     start_le_start (wi_start r) (wi_start other) \<and> end_ge_end (wi_end r) (wi_end other)"

definition interval_subtract :: "'a::linorder interval \<Rightarrow> 'a interval \<Rightarrow> 'a interval list" where
  "interval_subtract r other = wi_subtract r other"

definition interval_split :: "'a::linorder interval \<Rightarrow> 'a \<Rightarrow> ('a interval \<times> 'a interval) result" where
  "interval_split r split_point =
     bindE (interval_contains r split_point) (\<lambda>c.
     bindE (assertE c) (\<lambda>_.
     Inr (make_wi (wi_start r) (Some \<lparr>bound_value = split_point, is_inclusive = True\<rparr>) False,
          make_wi (Some \<lparr>bound_value = split_point, is_inclusive = False\<rparr>) (wi_end r) False)))"

definition interval_split_after :: "'a::linorder interval \<Rightarrow> 'a \<Rightarrow> 'a interval option" where
  "interval_split_after r split_point =
     (if (case wi_end r of None \<Rightarrow> False | Some eb \<Rightarrow> cmp split_point (bound_value eb) \<noteq> Ord_less) then None
      else if (case wi_start r of None \<Rightarrow> False | Some sb \<Rightarrow> cmp split_point (bound_value sb) = Ord_less) then Some r
      else Some (make_wi (Some \<lparr>bound_value = split_point, is_inclusive = False\<rparr>) (wi_end r) False))"

text \<open>\<open>std::minmax\<close> and \<open>std::min\<close> with a comparison: the first argument is the smaller one on a tie.\<close>

definition std_minmax :: "('a \<Rightarrow> 'a \<Rightarrow> bool) \<Rightarrow> 'a \<Rightarrow> 'a \<Rightarrow> 'a \<times> 'a" where
  "std_minmax lt a b = (if lt b a then (b, a) else (a, b))"

definition std_min :: "('a \<Rightarrow> 'a \<Rightarrow> bool) \<Rightarrow> 'a \<Rightarrow> 'a \<Rightarrow> 'a" where
  "std_min lt a b = (if lt b a then b else a)"

definition interval_intersection :: "'a::linorder interval \<Rightarrow> 'a interval \<Rightarrow> 'a interval option" where
  "interval_intersection r other =
     (let (lo, hi) = std_minmax (\<lambda>a b. start_less_start (wi_start a) (wi_start b)) r other
      in if end_ge_start (wi_end lo) (wi_start hi)
         then Some (make_wi (wi_start hi) (std_min (\<lambda>a b. \<not> end_ge_end a b) (wi_end lo) (wi_end hi)) False)
         else None)"

definition trim_front :: "'a::linorder interval \<Rightarrow> 'a bound_ref \<Rightarrow> 'a interval option" where
  "trim_front r s = interval_intersection r (make_wi s None False)"

text \<open>\<open>std::sort\<close>: the elements in an order in which no element is less than an earlier one. The sort is an
  insertion sort here; the merging loop below is shown correct for every such order.\<close>

fun std_sort_insert :: "('a \<Rightarrow> 'a \<Rightarrow> bool) \<Rightarrow> 'a \<Rightarrow> 'a list \<Rightarrow> 'a list" where
  "std_sort_insert lt x [] = [x]"
| "std_sort_insert lt x (y # ys) = (if lt y x then y # std_sort_insert lt x ys else x # y # ys)"

definition std_sort :: "('a \<Rightarrow> 'a \<Rightarrow> bool) \<Rightarrow> 'a list \<Rightarrow> 'a list" where
  "std_sort lt xs = foldr (std_sort_insert lt) xs []"

fun deoverlap_loop :: "'a::linorder interval \<Rightarrow> 'a interval list \<Rightarrow> 'a interval list \<Rightarrow> 'a interval list" where
  "deoverlap_loop current [] out = out @ [current]"
| "deoverlap_loop current (r # rs) out =
     (let includes_end = (end_ge_start (wi_end r) (wi_start current) \<and> end_ge_end (wi_end current) (wi_end r))
      in if includes_end then deoverlap_loop current rs out
         else
           let includes_start = end_ge_start (wi_end current) (wi_start r)
           in if includes_start then deoverlap_loop (make_wi (wi_start current) (wi_end r) False) rs out
              else deoverlap_loop r rs (out @ [current]))"

definition deoverlap :: "'a::linorder interval list \<Rightarrow> 'a interval list" where
  "deoverlap intervals =
     (if length intervals \<le> 1 then intervals
      else case std_sort (\<lambda>r1 r2. start_less_start (wi_start r1) (wi_start r2)) intervals of
             current # rs \<Rightarrow> deoverlap_loop current rs []
           | [] \<Rightarrow> [])"

text \<open>\<open>std::lower_bound\<close> and \<open>std::upper_bound\<close>, and the built-in versions of a container: positions in a sorted
  sequence, counted from its beginning.\<close>

definition std_lower_bound :: "'a::linorder \<Rightarrow> 'a list \<Rightarrow> nat" where
  "std_lower_bound v xs = length (takeWhile (\<lambda>x. x < v) xs)"

definition std_upper_bound :: "'a::linorder \<Rightarrow> 'a list \<Rightarrow> nat" where
  "std_upper_bound v xs = length (takeWhile (\<lambda>x. \<not> v < x) xs)"

definition interval_lower_bound :: "'a::linorder interval \<Rightarrow> 'a list \<Rightarrow> nat" where
  "interval_lower_bound r xs =
     (case wi_start r of
        Some b \<Rightarrow> if is_inclusive b then std_lower_bound (bound_value b) xs else std_upper_bound (bound_value b) xs
      | None \<Rightarrow> 0)"

definition interval_upper_bound :: "'a::linorder interval \<Rightarrow> 'a list \<Rightarrow> nat" where
  "interval_upper_bound r xs =
     (case wi_end r of
        Some b \<Rightarrow> if is_inclusive b then std_upper_bound (bound_value b) xs else std_lower_bound (bound_value b) xs
      | None \<Rightarrow>
          (if wi_singular r
           then (case wi_start r of Some b \<Rightarrow> std_upper_bound (bound_value b) xs | None \<Rightarrow> length xs)
           else length xs))"

text \<open>The elements between the two positions.\<close>

definition interval_slice :: "'a::linorder interval \<Rightarrow> 'a list \<Rightarrow> 'a list" where
  "interval_slice r xs = drop (interval_lower_bound r xs) (take (interval_upper_bound r xs) xs)"

end
