(* ===== verification/Interval_Points.thy ===== *)
theory Interval_Points
  imports Wrapping_Interval Complex_Main
begin

text \<open>
  What an interval means and that its operations compute with it. A bound is a cut: a place between two
  values, just before or just after one of them. Cuts are linearly ordered, every test of the source on two
  bounds is a comparison of two cuts, and an interval is the set of values between two cuts, around the ring
  when it wraps.
\<close>

section \<open>Cuts\<close>

datatype 'a cut = Bottom | Cut 'a bool | Top

instantiation cut :: (linorder) linorder
begin

fun less_eq_cut :: "'a cut \<Rightarrow> 'a cut \<Rightarrow> bool" where
  "less_eq_cut Bottom _ = True"
| "less_eq_cut _ Top = True"
| "less_eq_cut (Cut v a) (Cut w b) = (v < w \<or> (v = w \<and> (a \<longrightarrow> b)))"
| "less_eq_cut _ _ = False"

definition less_cut :: "'a cut \<Rightarrow> 'a cut \<Rightarrow> bool" where
  "less_cut x y = (x \<le> y \<and> \<not> y \<le> x)"

instance
proof
  fix x y z :: "'a cut"
  show "x < y \<longleftrightarrow> x \<le> y \<and> \<not> y \<le> x" by (rule less_cut_def)
  show "x \<le> x" by (cases x) auto
  show "x \<le> y \<Longrightarrow> y \<le> z \<Longrightarrow> x \<le> z" by (cases x; cases y; cases z) auto
  show "x \<le> y \<Longrightarrow> y \<le> x \<Longrightarrow> x = y" by (cases x; cases y) auto
  show "x \<le> y \<or> y \<le> x" by (cases x; cases y) auto
qed

end

lemma cut_simps [simp]:
  "Bottom \<le> c" "c \<le> Top" "c \<le> Bottom \<longleftrightarrow> c = Bottom" "Top \<le> c \<longleftrightarrow> c = Top"
  "Cut v a < Cut w b \<longleftrightarrow> v < w \<or> (v = w \<and> \<not> a \<and> b)" "\<not> c < Bottom" "\<not> Top < c"
  "Bottom < c \<longleftrightarrow> c \<noteq> Bottom" "c < Top \<longleftrightarrow> c \<noteq> Top"
  by (cases c; auto simp: less_cut_def)+

text \<open>A start bound is the cut before its first value, an end bound the cut after its last one.\<close>

definition start_cut :: "'a bound_ref \<Rightarrow> 'a cut" where
  "start_cut b = (case b of None \<Rightarrow> Bottom | Some x \<Rightarrow> Cut (bound_value x) (\<not> is_inclusive x))"

definition end_cut :: "'a bound_ref \<Rightarrow> 'a cut" where
  "end_cut b = (case b of None \<Rightarrow> Top | Some x \<Rightarrow> Cut (bound_value x) (is_inclusive x))"

abbreviation from_cut :: "'a wrapping_interval \<Rightarrow> 'a cut" where
  "from_cut w \<equiv> start_cut (wi_start w)"

abbreviation to_cut :: "'a wrapping_interval \<Rightarrow> 'a cut" where
  "to_cut w \<equiv> end_cut (wi_end w)"

lemmas order_simps = require_ordering_and_on_equal_return_def cmp_def

lemma cut_iffs:
  "end_ge_start e s \<longleftrightarrow> start_cut s < end_cut e"
  "end_less_start e s \<longleftrightarrow> end_cut e \<le> start_cut s"
  "start_le_start s s' \<longleftrightarrow> start_cut s \<le> start_cut s'"
  "start_less_start s s' \<longleftrightarrow> start_cut s < start_cut s'"
  "end_ge_end e e' \<longleftrightarrow> end_cut e' \<le> end_cut e"
proof -
  show es: "end_ge_start e s \<longleftrightarrow> start_cut s < end_cut e" for e s :: "'a bound_ref"
    by (auto simp: end_ge_start_def start_cut_def end_cut_def order_simps split: option.splits)
  show "end_less_start e s \<longleftrightarrow> end_cut e \<le> start_cut s"
    by (simp add: end_less_start_def es not_less)
  show "start_le_start s s' \<longleftrightarrow> start_cut s \<le> start_cut s'"
    by (auto simp: start_le_start_def start_cut_def order_simps split: option.splits)
  show "start_less_start s s' \<longleftrightarrow> start_cut s < start_cut s'"
    by (auto simp: start_less_start_def start_cut_def order_simps split: option.splits)
  show "end_ge_end e e' \<longleftrightarrow> end_cut e' \<le> end_cut e"
    by (auto simp: end_ge_end_def end_cut_def order_simps split: option.splits)
qed

lemma flip_bound_cuts [simp]:
  "s \<noteq> None \<Longrightarrow> end_cut (flip_bound s) = start_cut s" "e \<noteq> None \<Longrightarrow> start_cut (flip_bound e) = end_cut e"
  by (auto simp: flip_bound_def start_cut_def end_cut_def)

text \<open>The constructors only make singular intervals that have a start, and then no end.\<close>

definition wi_ok :: "'a wrapping_interval \<Rightarrow> bool" where
  "wi_ok w \<longleftrightarrow> wi_singular w \<longrightarrow> (\<exists>v. wi_start_field w = Some \<lparr>bound_value = v, is_inclusive = True\<rparr>) \<and> wi_end_field w = None"

lemma wi_ok_make [simp]: "wi_ok (make_wi s e False)" "wi_ok (wi_make_singular v)"
  by (simp_all add: wi_ok_def make_wi_def wi_make_singular_def)

lemma wrap_iff: "wi_ok w \<Longrightarrow> is_wrap_around w \<longleftrightarrow> to_cut w \<le> from_cut w"
  by (auto simp: wi_ok_def is_wrap_around_def Let_def cmp_def wi_start_def wi_end_def start_cut_def end_cut_def
      split: option.splits)

text \<open>The values of an interval: the value \<open>x\<close> sits between the cuts \<open>Cut x False\<close> and \<open>Cut x True\<close>.\<close>

definition points :: "'a::linorder wrapping_interval \<Rightarrow> 'a set" where
  "points w = {x. if to_cut w \<le> from_cut w then from_cut w \<le> Cut x False \<or> Cut x True \<le> to_cut w
                  else from_cut w \<le> Cut x False \<and> Cut x True \<le> to_cut w}"

lemma cut_after_point [simp]: "Cut x True \<le> c \<longleftrightarrow> Cut x False < c"
  by (cases c) (auto simp: less_cut_def)

lemma cut_before_point [simp]: "c < Cut x True \<longleftrightarrow> c \<le> Cut x False"
  by (metis cut_after_point not_le)

lemma some_cuts [simp]:
  "start_cut (Some \<lparr>bound_value = v, is_inclusive = i\<rparr>) = Cut v (\<not> i)"
  "end_cut (Some \<lparr>bound_value = v, is_inclusive = i\<rparr>) = Cut v i"
  by (simp_all add: start_cut_def end_cut_def)

definition nonwrapping :: "'a::linorder wrapping_interval \<Rightarrow> bool" where
  "nonwrapping w \<longleftrightarrow> wi_ok w \<and> \<not> is_wrap_around w"

lemma nonwrapping_cuts: "nonwrapping w \<Longrightarrow> from_cut w < to_cut w"
  using wrap_iff[of w] by (simp add: nonwrapping_def)

lemma nonwrapping_make [simp]: "nonwrapping (make_wi s e False) \<longleftrightarrow> start_cut s < end_cut e"
  using wrap_iff[of "make_wi s e False"] by (auto simp: nonwrapping_def)

lemma points_nonwrapping: "nonwrapping w \<Longrightarrow> points w = {x. from_cut w \<le> Cut x False \<and> Cut x False < to_cut w}"
  using nonwrapping_cuts[of w] by (auto simp: points_def)

lemma points_wrapping:
  "wi_ok w \<Longrightarrow> is_wrap_around w \<Longrightarrow> points w = {x. from_cut w \<le> Cut x False \<or> Cut x False < to_cut w}"
  using wrap_iff[of w] by (auto simp: points_def)

lemma points_make [simp]:
  "start_cut s < end_cut e \<Longrightarrow> points (make_wi s e False) = {x. start_cut s \<le> Cut x False \<and> Cut x False < end_cut e}"
  by (simp add: points_nonwrapping)

lemma open_cuts [simp]: "start_cut None = Bottom" "end_cut None = Top"
  "start_cut s = Top \<longleftrightarrow> False" "end_cut e = Bottom \<longleftrightarrow> False"
  "start_cut s = Bottom \<longleftrightarrow> s = None" "end_cut e = Top \<longleftrightarrow> e = None"
  by (auto simp: start_cut_def end_cut_def split: option.splits)

lemma unwrap_sel [simp]:
  "fst (unwrap w) = make_wi None (wi_end w) False" "snd (unwrap w) = make_wi (wi_start w) None False"
  by (simp_all add: unwrap_def)

lemma points_unwrap:
  assumes "wi_ok w" "is_wrap_around w"
  shows "points w = points (fst (unwrap w)) \<union> points (snd (unwrap w))"
  using points_wrapping[OF assms] by auto

section \<open>Points\<close>

lemma wi_before_eq: "nonwrapping w \<Longrightarrow> wi_before w x = Inr (\<not> from_cut w \<le> Cut x False)"
  by (auto simp: wi_before_def nonwrapping_def start_cut_def cmp_def Let_def split: option.splits)

lemma wi_after_eq: "nonwrapping w \<Longrightarrow> wi_after w x = Inr (\<not> Cut x False < to_cut w)"
  by (auto simp: wi_after_def nonwrapping_def end_cut_def cmp_def Let_def split: option.splits)

lemma wi_other_is_before_eq:
  "nonwrapping w \<Longrightarrow> nonwrapping u \<Longrightarrow> wi_other_is_before w u = Inr (to_cut u \<le> from_cut w)"
  by (auto simp: wi_other_is_before_def nonwrapping_def end_cut_def start_cut_def cmp_def Let_def split: option.splits)

lemma interval_contains_eq: "nonwrapping w \<Longrightarrow> interval_contains w x = Inr (x \<in> points w)"
  by (simp add: interval_contains_def wi_before_eq wi_after_eq points_nonwrapping)

lemma wi_contains_nonwrapping: "nonwrapping w \<Longrightarrow> wi_contains w x = Inr (x \<in> points w)"
  using interval_contains_eq[of w x] by (simp add: wi_contains.simps interval_contains_def nonwrapping_def)

lemma wi_contains_eq:
  assumes "wi_ok w"
  shows "wi_contains w x = Inr (x \<in> points w)"
proof (cases "is_wrap_around w")
  case True
  then show ?thesis
    by (simp add: wi_contains.simps[of w] wi_contains_nonwrapping points_unwrap[OF assms])
next
  case False
  then show ?thesis using assms by (simp add: wi_contains_nonwrapping nonwrapping_def)
qed

section \<open>Subtraction\<close>

definition ordered_intervals :: "'a::linorder wrapping_interval list \<Rightarrow> bool" where
  "ordered_intervals ws \<longleftrightarrow> (\<forall>w \<in> set ws. nonwrapping w) \<and> sorted_wrt (\<lambda>a b. to_cut a \<le> from_cut b) ws"

abbreviation all_points :: "'a::linorder wrapping_interval list \<Rightarrow> 'a set" where
  "all_points ws \<equiv> (\<Union>w \<in> set ws. points w)"

lemma ordered_unwrapped_list:
  assumes "wi_ok w"
  shows "ordered_intervals (unwrapped_list w)" "all_points (unwrapped_list w) = points w"
proof -
  show "all_points (unwrapped_list w) = points w"
    using points_unwrap[OF assms] by (auto simp: unwrapped_list_def)
  show "ordered_intervals (unwrapped_list w)"
    using assms wrap_iff[OF assms] by (auto simp: unwrapped_list_def ordered_intervals_def nonwrapping_def[of w])
qed

lemma points_apart:
  assumes "nonwrapping a" "nonwrapping b" "to_cut a \<le> from_cut b"
  shows "points a \<inter> points b = {}"
  using assms by (auto simp: points_nonwrapping)

lemma cut_out_ordered:
  assumes "ordered_intervals (r1 # left)" "nonwrapping r2" "from_cut r1 < to_cut r2" "from_cut r2 < to_cut r1"
  shows "ordered_intervals (cut_out r1 r2 left)"
    "all_points (cut_out r1 r2 left) = (points r1 - points r2) \<union> all_points left"
    "u \<in> set (cut_out r1 r2 left) \<Longrightarrow> from_cut r1 \<le> from_cut u"
proof -
  have n: "nonwrapping r1" using assms(1) by (simp add: ordered_intervals_def)
  note c = nonwrapping_cuts[OF n] nonwrapping_cuts[OF assms(2)]
  have "wi_start r2 \<noteq> None" if "from_cut r1 < from_cut r2" using that by (cases "wi_start r2") simp_all
  moreover have "wi_end r2 \<noteq> None" if "to_cut r2 < to_cut r1" using that by (cases "wi_end r2") simp_all
  ultimately show "ordered_intervals (cut_out r1 r2 left)"
    "all_points (cut_out r1 r2 left) = (points r1 - points r2) \<union> all_points left"
    "u \<in> set (cut_out r1 r2 left) \<Longrightarrow> from_cut r1 \<le> from_cut u"
    using assms c
    by (auto simp: cut_out_def Let_def ordered_intervals_def cut_iffs not_le points_nonwrapping[OF n]
        points_nonwrapping[OF assms(2)] simp del: open_cuts split: if_splits)
qed

lemma ordered_apart:
  assumes "ordered_intervals (w # ws)"
  shows "to_cut v \<le> from_cut w \<Longrightarrow> nonwrapping v \<Longrightarrow> points v \<inter> all_points (w # ws) = {}"
    and "points w \<inter> all_points ws = {}"
proof -
  have tail: "u \<in> set ws \<Longrightarrow> to_cut w \<le> from_cut u \<and> nonwrapping u" for u
    using assms by (auto simp: ordered_intervals_def)
  have w: "nonwrapping w" using assms by (simp add: ordered_intervals_def)
  then show "points w \<inter> all_points ws = {}" using tail points_apart[of w] by blast
  assume v: "to_cut v \<le> from_cut w" "nonwrapping v"
  have "to_cut v \<le> from_cut u" if "u \<in> set ws" for u
    using tail[OF that] v(1) nonwrapping_cuts[OF w] by auto
  then show "points v \<inter> all_points (w # ws) = {}"
    using v w tail points_apart[OF v(2)] by (auto simp: Int_Un_distrib)
qed

lemma subtract_loop_correct:
  assumes "ordered_intervals (acc @ left)" "ordered_intervals right"
  shows "ordered_intervals (subtract_loop left right acc) \<and>
    all_points (subtract_loop left right acc) = all_points acc \<union> (all_points left - all_points right)"
  using assms
proof (induction left right acc rule: subtract_loop.induct)
  case (3 r1 left r2 right acc)
  have n: "nonwrapping r1" "nonwrapping r2" "ordered_intervals (r1 # left)" "ordered_intervals right"
    using "3.prems" by (auto simp: ordered_intervals_def sorted_wrt_append)
  show ?case
  proof (cases "to_cut r2 \<le> from_cut r1")
    case True
    then have "ordered_intervals (subtract_loop (r1 # left) right acc) \<and>
      all_points (subtract_loop (r1 # left) right acc) = all_points acc \<union> (all_points (r1 # left) - all_points right)"
      using "3.IH"(1) "3.prems"(1) n(4) by (simp add: cut_iffs)
    then show ?thesis using True ordered_apart(1)[OF n(3) True n(2)] by (auto simp: cut_iffs)
  next
    case r: False
    show ?thesis
    proof (cases "to_cut r1 \<le> from_cut r2")
      case True
      then have "ordered_intervals (subtract_loop left (r2 # right) (acc @ [r1])) \<and>
        all_points (subtract_loop left (r2 # right) (acc @ [r1])) =
          all_points (acc @ [r1]) \<union> (all_points left - all_points (r2 # right))"
        using "3.IH"(2) "3.prems" r by (simp add: cut_iffs)
      then show ?thesis using r True ordered_apart(1)[OF "3.prems"(2) True n(1)] by (auto simp: cut_iffs)
    next
      case False
      have c: "from_cut r1 < to_cut r2" "from_cut r2 < to_cut r1" using r False by auto
      have p: "all_points (cut_out r1 r2 left) = (points r1 - points r2) \<union> all_points left"
        and o: "ordered_intervals (cut_out r1 r2 left)"
        and lo: "\<And>u. u \<in> set (cut_out r1 r2 left) \<Longrightarrow> from_cut r1 \<le> from_cut u"
        using cut_out_ordered[OF n(3,2) c] by auto
      have "ordered_intervals (acc @ cut_out r1 r2 left)"
        using "3.prems"(1) o lo order_trans by (fastforce simp: ordered_intervals_def sorted_wrt_append)
      then have "ordered_intervals (subtract_loop (cut_out r1 r2 left) (r2 # right) acc) \<and>
        all_points (subtract_loop (cut_out r1 r2 left) (r2 # right) acc) =
          all_points acc \<union> (all_points (cut_out r1 r2 left) - all_points (r2 # right))"
        using "3.IH"(3) "3.prems"(2) r False by (simp add: cut_iffs)
      then show ?thesis using r False p by (auto simp: cut_iffs)
    qed
  qed
qed (auto simp: ordered_intervals_def)

section \<open>Overlap and containment\<close>

lemma interval_overlaps_cuts:
  "nonwrapping r \<Longrightarrow> nonwrapping u \<Longrightarrow> interval_overlaps r u \<longleftrightarrow> from_cut u < to_cut r \<and> from_cut r < to_cut u"
  by (auto simp: interval_overlaps_def cut_iffs)

lemma wi_overlaps_nonwrapping:
  "nonwrapping r \<Longrightarrow> nonwrapping u \<Longrightarrow> wi_overlaps r u = Inr (interval_overlaps r u)"
  by (simp add: wi_overlaps.simps interval_overlaps_def nonwrapping_def)

text \<open>A place of an interval is a cut in its stretch of the line, before the first value, after the last one or in between. On
  an order with gaps, such as the integers, an interval may have places but no value, as \<open>(1, 2)\<close> does. The tests of the
  source see places; values are the places \<open>Cut x False\<close>.

  The locale has what both have in common: a set \<open>P\<close> of cuts that meets every stretch between two cuts.\<close>

definition region :: "'a::linorder cut set \<Rightarrow> 'a wrapping_interval \<Rightarrow> 'a cut set" where
  "region P w = {p \<in> P. if to_cut w \<le> from_cut w then from_cut w \<le> p \<or> p < to_cut w else from_cut w \<le> p \<and> p < to_cut w}"

lemma region_simps:
  "nonwrapping w \<Longrightarrow> region P w = {p \<in> P. from_cut w \<le> p \<and> p < to_cut w}"
  "wi_ok w \<Longrightarrow> is_wrap_around w \<Longrightarrow> region P w = {p \<in> P. from_cut w \<le> p \<or> p < to_cut w}"
  using nonwrapping_cuts[of w] wrap_iff[of w] by (auto simp: region_def)

definition places :: "'a::linorder wrapping_interval \<Rightarrow> 'a cut set" where
  "places w = region (- {Top}) w"

definition value_cuts :: "'a::linorder cut set" where
  "value_cuts = range (\<lambda>x. Cut x False)"

lemma region_values: "region value_cuts w = (\<lambda>x. Cut x False) ` points w"
  by (auto simp: points_def region_def value_cuts_def)

lemma points_region: "x \<in> points w \<longleftrightarrow> Cut x False \<in> region value_cuts w"
  by (auto simp: region_values)

lemma points_meet: "(\<exists>x. x \<in> points w \<and> x \<in> points u) \<longleftrightarrow> region value_cuts w \<inter> region value_cuts u \<noteq> {}"
  by (auto simp: region_values)

lemma points_included: "(\<forall>x. x \<in> points u \<longrightarrow> x \<in> points w) \<longleftrightarrow> region value_cuts u \<subseteq> region value_cuts w"
  by (auto simp: region_values)

locale cut_places =
  fixes P :: "'a::linorder cut set"
  assumes inhabited: "c < d \<Longrightarrow> \<exists>p \<in> P. c \<le> p \<and> p < d" and not_Top: "Top \<notin> P"
begin

abbreviation stretch :: "'a cut \<Rightarrow> 'a cut \<Rightarrow> 'a cut set" where
  "stretch c d \<equiv> {p \<in> P. c \<le> p \<and> p < d}"

lemma stretch_disjoint: "stretch c d \<inter> stretch c' d' = {} \<longleftrightarrow> min d d' \<le> max c c'"
proof -
  have eq: "stretch c d \<inter> stretch c' d' = stretch (max c c') (min d d')" by auto
  have "stretch a b = {} \<longleftrightarrow> b \<le> a" for a b using inhabited[of a b] by fastforce
  then show ?thesis unfolding eq by blast
qed

lemma stretch_subset:
  assumes "c' < d'"
  shows "stretch c' d' \<subseteq> stretch c d \<longleftrightarrow> c \<le> c' \<and> d' \<le> d"
proof
  assume s: "stretch c' d' \<subseteq> stretch c d"
  have "stretch c' d' \<inter> stretch Bottom c = {}" "stretch c' d' \<inter> stretch d Top = {}" using s by auto
  then show "c \<le> c' \<and> d' \<le> d" using assms unfolding stretch_disjoint by (auto simp: min_def max_def split: if_splits)
qed auto

lemma region_unwrap:
  assumes "wi_ok w" "is_wrap_around w"
  shows "region P w = region P (fst (unwrap w)) \<union> region P (snd (unwrap w))"
  unfolding region_simps(2)[OF assms] using not_Top by (auto simp: region_simps)

lemma interval_overlaps_region:
  assumes "nonwrapping r" "nonwrapping u"
  shows "interval_overlaps r u \<longleftrightarrow> region P r \<inter> region P u \<noteq> {}"
  using nonwrapping_cuts[OF assms(1)] nonwrapping_cuts[OF assms(2)] assms
  unfolding region_simps(1)[OF assms(1)] region_simps(1)[OF assms(2)] stretch_disjoint
  by (auto simp: interval_overlaps_cuts min_def max_def not_le)

lemma wi_overlaps_one_wraps:
  assumes "nonwrapping r" "wi_ok u" "is_wrap_around u"
  shows "wi_overlaps r u = Inr (region P r \<inter> region P u \<noteq> {})" "wi_overlaps u r = Inr (region P r \<inter> region P u \<noteq> {})"
proof -
  have n: "nonwrapping (make_wi None (wi_end u) False)" "nonwrapping (make_wi (wi_start u) None False)" by auto
  note parts = wi_overlaps_nonwrapping[OF assms(1) n(1)] wi_overlaps_nonwrapping[OF assms(1) n(2)]
    interval_overlaps_region[OF assms(1) n(1)] interval_overlaps_region[OF assms(1) n(2)]
  have "\<not> is_wrap_around r" using assms(1) by (simp add: nonwrapping_def)
  then show "wi_overlaps r u = Inr (region P r \<inter> region P u \<noteq> {})" "wi_overlaps u r = Inr (region P r \<inter> region P u \<noteq> {})"
    using assms(3) parts unfolding region_unwrap[OF assms(2,3)]
    by (simp_all add: wi_overlaps.simps[of r u] wi_overlaps.simps[of u r] Int_Un_distrib)
qed

lemma wi_overlaps_region:
  assumes "wi_ok w" "wi_ok u"
  shows "wi_overlaps w u = Inr (region P w \<inter> region P u \<noteq> {})"
proof (cases "is_wrap_around w"; cases "is_wrap_around u")
  assume wr: "is_wrap_around w" "is_wrap_around u"
  have "stretch Bottom (to_cut w) \<inter> stretch Bottom (to_cut u) \<noteq> {}" unfolding stretch_disjoint by (simp add: min_def)
  then have "region P w \<inter> region P u \<noteq> {}"
    unfolding region_simps(2)[OF assms(1) wr(1)] region_simps(2)[OF assms(2) wr(2)] by auto
  then show ?thesis using wr by (simp add: wi_overlaps.simps)
next
  assume "\<not> is_wrap_around w" "\<not> is_wrap_around u"
  then have "nonwrapping w" "nonwrapping u" using assms by (simp_all add: nonwrapping_def)
  then show ?thesis by (simp add: wi_overlaps_nonwrapping interval_overlaps_region)
next
  assume "is_wrap_around w" "\<not> is_wrap_around u"
  then show ?thesis using wi_overlaps_one_wraps(2)[of u w] assms by (simp add: nonwrapping_def Int_commute)
next
  assume "\<not> is_wrap_around w" "is_wrap_around u"
  then show ?thesis using wi_overlaps_one_wraps(1)[of w u] assms by (simp add: nonwrapping_def)
qed

end

text \<open>The tests of \<open>contains\<close> on two starts and on two ends, where both exist.\<close>

lemma within_cuts:
  "(case (s, s') of (Some sb, Some ob) \<Rightarrow> require_ordering_and_on_equal_return (cmp (bound_value sb) (bound_value ob)) Ord_less
      (is_inclusive sb \<or> \<not> is_inclusive ob) | _ \<Rightarrow> False) \<longleftrightarrow> s \<noteq> None \<and> start_cut s \<le> start_cut s'"
  "(case (e, e') of (Some eb, Some ob) \<Rightarrow> require_ordering_and_on_equal_return (cmp (bound_value eb) (bound_value ob)) Ord_greater
      (is_inclusive eb \<or> \<not> is_inclusive ob) | _ \<Rightarrow> False) \<longleftrightarrow> e \<noteq> None \<and> end_cut e' \<le> end_cut e"
  by (auto simp: start_cut_def end_cut_def order_simps split: option.splits)

lemma wraps_bounded: "wi_ok w \<Longrightarrow> is_wrap_around w \<Longrightarrow> wi_start w \<noteq> None \<and> wi_end w \<noteq> None"
  by (auto simp: is_wrap_around_def wi_ok_def wi_start_def wi_end_def split: option.splits)

lemma wi_contains_interval_cuts:
  assumes "wi_ok w" "wi_ok u"
  shows "wi_contains_interval w u \<longleftrightarrow>
    (if is_wrap_around w \<and> \<not> is_wrap_around u then from_cut w \<le> from_cut u \<or> to_cut u \<le> to_cut w
     else if \<not> is_wrap_around w \<and> is_wrap_around u then from_cut w = Bottom \<and> to_cut w = Top
     else from_cut w \<le> from_cut u \<and> to_cut u \<le> to_cut w)"
  using assms wraps_bounded[of w]
  unfolding wi_contains_interval_def Let_def within_cuts cut_iffs by auto

text \<open>An interval goes around the whole ring when it wraps and ends where it starts, as \<open>(5, 5]\<close> does.\<close>

definition whole_ring :: "'a::linorder wrapping_interval \<Rightarrow> bool" where
  "whole_ring w \<longleftrightarrow> is_wrap_around w \<and> to_cut w = from_cut w"

lemma whole_ring_points: "wi_ok w \<Longrightarrow> whole_ring w \<Longrightarrow> points w = UNIV"
  unfolding whole_ring_def by (simp add: points_wrapping) (auto simp: not_le)

context cut_places
begin

lemma wi_contains_interval_sound:
  assumes "wi_ok w" "wi_ok u" "wi_contains_interval w u"
  shows "region P u \<subseteq> region P w"
proof (cases "is_wrap_around w"; cases "is_wrap_around u")
  assume wr: "is_wrap_around w" "is_wrap_around u"
  then show ?thesis
    using assms(3) unfolding wi_contains_interval_cuts[OF assms(1,2)] region_simps(2)[OF assms(1) wr(1)]
      region_simps(2)[OF assms(2) wr(2)] by auto
next
  assume wr: "is_wrap_around w" "\<not> is_wrap_around u"
  then have "nonwrapping u" using assms by (simp add: nonwrapping_def)
  then show ?thesis
    using assms(3) wr unfolding wi_contains_interval_cuts[OF assms(1,2)] region_simps(2)[OF assms(1) wr(1)]
    by (auto simp: region_simps)
next
  assume wr: "\<not> is_wrap_around w" "is_wrap_around u"
  then have "nonwrapping w" using assms by (simp add: nonwrapping_def)
  then show ?thesis
    using assms(3) wr not_Top unfolding wi_contains_interval_cuts[OF assms(1,2)] region_simps(2)[OF assms(2) wr(2)]
    by (auto simp: region_simps)
next
  assume wr: "\<not> is_wrap_around w" "\<not> is_wrap_around u"
  then have "nonwrapping w" "nonwrapping u" using assms by (simp_all add: nonwrapping_def)
  then show ?thesis
    using assms(3) wr unfolding wi_contains_interval_cuts[OF assms(1,2)] by (auto simp: region_simps)
qed

lemma region_gap: "wi_ok w \<Longrightarrow> is_wrap_around w \<Longrightarrow> region P w = P - stretch (to_cut w) (from_cut w)"
  by (auto simp: region_simps)

lemma wi_contains_interval_complete:
  assumes "wi_ok w" "wi_ok u" "region P u \<subseteq> region P w" "\<not> whole_ring w"
  shows "wi_contains_interval w u"
proof (cases "is_wrap_around w")
  case w: True
  then have gap: "to_cut w < from_cut w" "stretch (to_cut w) (from_cut w) \<inter> region P u = {}"
    using assms wrap_iff[OF assms(1)] region_gap[OF assms(1)] by (auto simp: whole_ring_def)
  show ?thesis
  proof (cases "is_wrap_around u")
    case True
    then have "stretch (to_cut w) (from_cut w) \<subseteq> stretch (to_cut u) (from_cut u)"
      using gap(2) region_gap[OF assms(2)] by auto
    then show ?thesis using w True stretch_subset[OF gap(1)] by (simp add: wi_contains_interval_cuts assms)
  next
    case False
    then have n: "nonwrapping u" using assms by (simp add: nonwrapping_def)
    show ?thesis
      using gap nonwrapping_cuts[OF n] w False unfolding region_simps(1)[OF n] stretch_disjoint
      by (auto simp: wi_contains_interval_cuts assms min_def max_def split: if_splits)
  qed
next
  case w: False
  then have nw: "nonwrapping w" using assms by (simp add: nonwrapping_def)
  show ?thesis
  proof (cases "is_wrap_around u")
    case True
    have "stretch Bottom (to_cut u) \<subseteq> region P w" "stretch (from_cut u) Top \<subseteq> region P w"
      using assms(3) region_simps(2)[OF assms(2) True] by auto
    then have "from_cut w \<le> Bottom" "Top \<le> to_cut w"
      unfolding region_simps(1)[OF nw] using stretch_subset[of Bottom "to_cut u" "from_cut w" "to_cut w"]
        stretch_subset[of "from_cut u" Top "from_cut w" "to_cut w"] by (simp_all only: cut_simps open_cuts) auto
    then show ?thesis using w True by (simp add: wi_contains_interval_cuts assms)
  next
    case False
    then have n: "nonwrapping u" using assms by (simp add: nonwrapping_def)
    show ?thesis
      using w False assms(3) stretch_subset[OF nonwrapping_cuts[OF n]]
      unfolding region_simps(1)[OF nw] region_simps(1)[OF n] by (simp add: wi_contains_interval_cuts assms)
  qed
qed

end

text \<open>All places, on every order, and the values on an order without gaps and without ends.\<close>

interpretation all_places: cut_places "- {Top :: 'a::linorder cut}"
proof
  fix c d :: "'a cut"
  assume "c < d"
  then have "c \<in> - {Top}" by (cases c) auto
  then show "\<exists>p \<in> - {Top}. c \<le> p \<and> p < d" using \<open>c < d\<close> by blast
qed simp

interpretation dense_values: cut_places "value_cuts :: 'a::unbounded_dense_linorder cut set"
proof
  fix c d :: "'a cut"
  assume "c < d"
  have "\<exists>x. c \<le> Cut x False \<and> Cut x False < d"
  proof (cases c)
    case Bottom
    then show ?thesis using \<open>c < d\<close> lt_ex by (cases d) fastforce+
  next
    case (Cut v a)
    then show ?thesis using \<open>c < d\<close> gt_ex dense by (cases d) fastforce+
  qed (use \<open>c < d\<close> in simp)
  then show "\<exists>p \<in> value_cuts. c \<le> p \<and> p < d" by (auto simp: value_cuts_def)
qed (auto simp: value_cuts_def)

section \<open>Intersection, splitting and slices\<close>

lemma interval_intersection_points:
  assumes "nonwrapping r" "nonwrapping u"
  shows "case interval_intersection r u of
      None \<Rightarrow> points r \<inter> points u = {}
    | Some i \<Rightarrow> nonwrapping i \<and> points i = points r \<inter> points u"
  using nonwrapping_cuts[OF assms(1)] nonwrapping_cuts[OF assms(2)]
  unfolding points_nonwrapping[OF assms(1)] points_nonwrapping[OF assms(2)]
  by (auto simp: interval_intersection_def std_minmax_def std_min_def cut_iffs)

lemma cut_mono:
  "x < y \<Longrightarrow> Cut y False < c \<Longrightarrow> Cut x False < c" "x < y \<Longrightarrow> c \<le> Cut x False \<Longrightarrow> c \<le> Cut y False"
  "Cut x True < c \<Longrightarrow> c \<le> Cut y False \<Longrightarrow> x < y" "c \<le> Cut x True \<Longrightarrow> x < y \<Longrightarrow> c \<le> Cut y False"
  by (cases c; auto simp: less_cut_def)+

lemma cut_tight: "c \<le> Cut x True \<Longrightarrow> Cut x False < c \<Longrightarrow> c = Cut x True"
  by (metis antisym cut_after_point)

lemma interval_split_points:
  assumes "nonwrapping r" "p \<in> points r"
  shows "\<exists>a b. interval_split r p = Inr (a, b) \<and> nonwrapping a \<and> points a = {x \<in> points r. x \<le> p} \<and>
    (if Cut p True < to_cut r then nonwrapping b \<and> points b = {x \<in> points r. p < x} else whole_ring b)"
proof -
  define a where "a = make_wi (wi_start r) (Some \<lparr>bound_value = p, is_inclusive = True\<rparr>) False"
  define b where "b = make_wi (Some \<lparr>bound_value = p, is_inclusive = False\<rparr>) (wi_end r) False"
  note r = points_nonwrapping[OF assms(1)]
  have "interval_split r p = Inr (a, b)"
    using assms by (simp add: interval_split_def interval_contains_eq a_def b_def)
  moreover have "nonwrapping a \<and> points a = {x \<in> points r. x \<le> p}"
    using assms(2) unfolding r a_def by (auto dest: cut_mono)
  moreover have "nonwrapping b \<and> points b = {x \<in> points r. p < x}" if "Cut p True < to_cut r"
    using assms(2) that unfolding r b_def by (auto dest: cut_mono)
  moreover have "whole_ring b" if "\<not> Cut p True < to_cut r"
    using assms(2) that wrap_iff[of b] unfolding r b_def whole_ring_def by (auto dest: cut_tight)
  ultimately show ?thesis by auto
qed

lemma interval_split_after_points:
  assumes "nonwrapping r"
  shows "case interval_split_after r p of
      None \<Rightarrow> {x \<in> points r. p < x} = {}
    | Some u \<Rightarrow> nonwrapping u \<and> points u = {x \<in> points r. p < x}"
proof -
  note r = points_nonwrapping[OF assms(1)]
  have e: "(case wi_end r of None \<Rightarrow> False | Some eb \<Rightarrow> cmp p (bound_value eb) \<noteq> Ord_less) \<longleftrightarrow> to_cut r \<le> Cut p True"
    by (auto simp: cmp_def end_cut_def split: option.splits)
  have s: "(case wi_start r of None \<Rightarrow> False | Some sb \<Rightarrow> cmp p (bound_value sb) = Ord_less) \<longleftrightarrow> Cut p True < from_cut r"
    by (auto simp: cmp_def start_cut_def split: option.splits)
  show ?thesis unfolding interval_split_after_def e s r
    by (auto simp: not_le not_less assms r dest: cut_mono)
qed

text \<open>In a sorted sequence the elements that satisfy a test that holds below come first.\<close>

lemma takeWhile_sorted:
  "sorted xs \<Longrightarrow> (\<And>x y. x \<le> y \<Longrightarrow> Q y \<Longrightarrow> Q x) \<Longrightarrow> takeWhile Q xs = filter Q xs \<and> dropWhile Q xs = filter (\<lambda>x. \<not> Q x) xs"
proof (induction xs)
  case (Cons x xs)
  have "filter Q xs = [] \<and> filter (\<lambda>x. \<not> Q x) xs = xs" if "\<not> Q x"
    using Cons.prems that by (auto simp: filter_empty_conv filter_id_conv)
  then show ?case using Cons by auto
qed simp

lemma takeWhile_const [simp]: "takeWhile (\<lambda>x. False) xs = []" "takeWhile (\<lambda>x. True) xs = xs"
  by (induction xs) auto

lemma interval_bounds_cuts:
  "interval_lower_bound r xs = length (takeWhile (\<lambda>x. Cut x False < from_cut r) xs)"
  "interval_upper_bound r xs = length (takeWhile (\<lambda>x. Cut x False < to_cut r) xs)"
proof -
  show "interval_lower_bound r xs = length (takeWhile (\<lambda>x. Cut x False < from_cut r) xs)"
    by (auto simp: interval_lower_bound_def std_lower_bound_def std_upper_bound_def start_cut_def not_less le_less
        split: option.splits)
  show "interval_upper_bound r xs = length (takeWhile (\<lambda>x. Cut x False < to_cut r) xs)"
    by (auto simp: interval_upper_bound_def std_lower_bound_def std_upper_bound_def end_cut_def not_less le_less
        wi_end_def wi_start_def split: option.splits)
qed

lemma interval_slice_filter:
  assumes "nonwrapping r" "sorted xs"
  shows "interval_slice r xs = filter (\<lambda>x. x \<in> points r) xs"
proof -
  let ?P = "\<lambda>x. Cut x False < from_cut r" and ?Q = "\<lambda>x. Cut x False < to_cut r"
  have m: "Cut x False < c" if "x \<le> y" "Cut y False < c" for x y :: 'a and c
    using that cut_mono(1)[of x y c] by (cases "x = y") auto
  have pq: "?P x \<Longrightarrow> ?Q x" for x using order.strict_trans[OF _ nonwrapping_cuts[OF assms(1)]] .
  have "interval_slice r xs = drop (length (takeWhile ?P xs)) (takeWhile ?Q xs)"
    by (simp add: interval_slice_def interval_bounds_cuts takeWhile_eq_take[symmetric])
  also have "takeWhile ?P xs = takeWhile ?P (takeWhile ?Q xs)"
    using pq by (induction xs) auto
  also have "drop (length (takeWhile ?P (takeWhile ?Q xs))) (takeWhile ?Q xs) = dropWhile ?P (takeWhile ?Q xs)"
    by (rule dropWhile_eq_drop[symmetric])
  also have "\<dots> = filter (\<lambda>x. \<not> ?P x) (filter ?Q xs)"
    using takeWhile_sorted[of xs ?Q, OF assms(2) m] takeWhile_sorted[of "filter ?Q xs" ?P, OF _ m] assms(2)
    by (simp add: sorted_wrt_filter)
  finally show ?thesis using assms(1) by (simp add: points_nonwrapping not_less conj_commute)
qed

section \<open>Merging overlapping intervals\<close>

lemma deoverlap_loop_correct:
  assumes "ordered_intervals (out @ [current])" "\<forall>r \<in> set rs. nonwrapping r"
    "sorted_wrt (\<lambda>a b. from_cut a \<le> from_cut b) (current # rs)"
  shows "ordered_intervals (deoverlap_loop current rs out) \<and>
    all_points (deoverlap_loop current rs out) = all_points out \<union> points current \<union> all_points rs"
  using assms
proof (induction rs arbitrary: current out)
  case (Cons r rs)
  have n: "nonwrapping current" "nonwrapping r" using Cons.prems by (auto simp: ordered_intervals_def)
  note c = nonwrapping_cuts[OF n(1)] nonwrapping_cuts[OF n(2)]
  note pts = points_nonwrapping[OF n(1)] points_nonwrapping[OF n(2)]
  have le: "from_cut current \<le> from_cut r" using Cons.prems(3) by simp
  then have e: "from_cut current < to_cut r" using c(2) by (rule order.strict_trans1)
  consider (inside) "to_cut r \<le> to_cut current"
    | (joins) "\<not> to_cut r \<le> to_cut current" "from_cut r < to_cut current"
    | (apart) "\<not> to_cut r \<le> to_cut current" "\<not> from_cut r < to_cut current" by blast
  then show ?case
  proof cases
    case inside
    have "points r \<subseteq> points current" using le inside unfolding pts by auto
    moreover have "deoverlap_loop current (r # rs) out = deoverlap_loop current rs out"
      using inside e by (simp add: cut_iffs)
    ultimately show ?thesis using Cons.IH[of out current] Cons.prems by auto
  next
    case joins
    define u where "u = make_wi (wi_start current) (wi_end r) False"
    have "points u = points current \<union> points r"
      using le e joins unfolding u_def pts by auto
    moreover have "ordered_intervals (out @ [u])"
      using Cons.prems(1) e by (auto simp: ordered_intervals_def sorted_wrt_append u_def)
    moreover have "deoverlap_loop current (r # rs) out = deoverlap_loop u rs out"
      using joins e by (simp add: cut_iffs u_def)
    moreover have "sorted_wrt (\<lambda>a b. from_cut a \<le> from_cut b) (u # rs)" using Cons.prems(3) by (simp add: u_def)
    ultimately show ?thesis using Cons.IH[of out u] Cons.prems(2) by auto
  next
    case apart
    have "to_cut x \<le> from_cut r" if "x \<in> set out" for x
      using that Cons.prems(1) le by (auto simp: ordered_intervals_def sorted_wrt_append)
    then have "ordered_intervals ((out @ [current]) @ [r])"
      using Cons.prems(1) n(2) apart by (auto simp: ordered_intervals_def sorted_wrt_append)
    moreover have "deoverlap_loop current (r # rs) out = deoverlap_loop r rs (out @ [current])"
      using apart e by (simp add: cut_iffs)
    ultimately show ?thesis using Cons.IH[of "out @ [current]" r] Cons.prems by auto
  qed
qed auto

lemma std_sort_insert_correct:
  assumes "sorted_wrt (\<lambda>a b. k a \<le> k b) xs"
  shows "set (std_sort_insert (\<lambda>a b. k a < (k b :: 'k::linorder)) x xs) = insert x (set xs) \<and>
    sorted_wrt (\<lambda>a b. k a \<le> k b) (std_sort_insert (\<lambda>a b. k a < k b) x xs)"
  using assms by (induction xs) auto

lemma std_sort_correct:
  "set (std_sort (\<lambda>a b. k a < (k b :: 'k::linorder)) xs) = set xs \<and>
   sorted_wrt (\<lambda>a b. k a \<le> k b) (std_sort (\<lambda>a b. k a < k b) xs)"
proof (induction xs)
  case (Cons x xs)
  then show ?case using std_sort_insert_correct[of k "std_sort (\<lambda>a b. k a < k b) xs" x] by (simp add: std_sort_def)
qed (simp add: std_sort_def)

lemma deoverlap_points:
  assumes "\<forall>r \<in> set rs. nonwrapping r"
  shows "ordered_intervals (deoverlap rs) \<and> all_points (deoverlap rs) = all_points rs"
proof (cases "length rs \<le> 1")
  case True
  then show ?thesis using assms by (cases rs) (auto simp: deoverlap_def ordered_intervals_def)
next
  case False
  let ?s = "std_sort (\<lambda>a b. from_cut a < from_cut b) rs"
  have s: "set ?s = set rs" "sorted_wrt (\<lambda>a b. from_cut a \<le> from_cut b) ?s"
    using std_sort_correct[of from_cut rs] by auto
  then obtain c cs where cs: "?s = c # cs" using False by (cases ?s) auto
  then have "deoverlap rs = deoverlap_loop c cs []" using False by (simp add: deoverlap_def cut_iffs)
  moreover have "points c \<union> all_points cs = all_points rs" using s(1)[symmetric] cs by auto
  moreover have "nonwrapping c" "\<forall>r \<in> set cs. nonwrapping r" using assms s(1)[symmetric] cs by auto
  ultimately show ?thesis
    using deoverlap_loop_correct[of "[]" c cs] s(2) cs by (simp add: ordered_intervals_def)
qed

section \<open>Properties\<close>

text \<open>The order in which \<open>subtract\<close> and \<open>deoverlap\<close> return intervals, by the tests of the source.\<close>

lemma ordered_intervals_iff:
  "ordered_intervals ws \<longleftrightarrow>
    (\<forall>w \<in> set ws. nonwrapping w) \<and> sorted_wrt (\<lambda>a b. wi_other_is_before b a = Inr True) ws"
proof -
  have "sorted_wrt (\<lambda>a b. wi_other_is_before b a = Inr True) ws \<longleftrightarrow> sorted_wrt (\<lambda>a b. to_cut a \<le> from_cut b) ws"
    if "\<forall>w \<in> set ws. nonwrapping w"
    using that by (induction ws) (auto simp: wi_other_is_before_eq)
  then show ?thesis by (auto simp: ordered_intervals_def)
qed

definition ex_bound :: "'a \<Rightarrow> bool \<Rightarrow> 'a interval_bound" where
  "ex_bound v i = \<lparr>bound_value = v, is_inclusive = i\<rparr>"

definition ex_interval :: "'a \<Rightarrow> bool \<Rightarrow> 'a \<Rightarrow> bool \<Rightarrow> 'a wrapping_interval" where
  "ex_interval s i e j = wi_make (ex_bound s i) (ex_bound e j)"

lemma ex_bound_cuts [simp]: "start_cut (Some (ex_bound v i)) = Cut v (\<not> i)" "end_cut (Some (ex_bound v i)) = Cut v i"
  by (simp_all add: ex_bound_def)

lemma ex_interval_simps [simp]:
  "wi_ok (ex_interval s i e j)" "wi_start (ex_interval s i e j) = Some (ex_bound s i)"
  "wi_end (ex_interval s i e j) = Some (ex_bound e j)"
  "from_cut (ex_interval s i e j) = Cut s (\<not> i)" "to_cut (ex_interval s i e j) = Cut e j"
  "nonwrapping (ex_interval s i e j) \<longleftrightarrow> Cut s (\<not> i) < Cut e j"
  "is_wrap_around (ex_interval s i e j) \<longleftrightarrow> Cut e j \<le> Cut s (\<not> i)"
  using wrap_iff[of "ex_interval s i e j"] by (auto simp: ex_interval_def wi_make_def ex_bound_def nonwrapping_def)

text \<open>\<open>contains\<close> of a point never fails an assertion, also for an interval that wraps around, and answers
  whether the point is one of the interval's values.\<close>

theorem wi_contains_correct: "wi_ok w \<Longrightarrow> wi_contains w x = Inr (x \<in> points w)"
  by (rule wi_contains_eq)

lemma wi_contains_correct_witness: "wi_contains (ex_interval (8::int) True 3 True) 9 = Inr True"
  using wi_contains_correct[of "ex_interval (8::int) True 3 True" 9] by (simp add: points_def)

text \<open>An order in which there is a value in every stretch, as in the rationals.\<close>

definition gapless :: "'a::linorder itself \<Rightarrow> bool" where
  "gapless T \<longleftrightarrow> (\<forall>(c::'a cut) d. c < d \<longrightarrow> (\<exists>x. c \<le> Cut x False \<and> Cut x False < d))"

lemma gapless_values: "gapless (TYPE('a::linorder)) \<Longrightarrow> cut_places (value_cuts :: 'a cut set)"
  by unfold_locales (auto simp: gapless_def value_cuts_def)

lemma gapless_rat: "gapless (TYPE(rat))"
  using dense_values.inhabited by (fastforce simp: gapless_def value_cuts_def)

lemma value_places: "x \<in> points w \<longleftrightarrow> Cut x False \<in> places w"
  by (simp add: points_def places_def region_def)

text \<open>C20: \<open>overlaps\<close> never fails an assertion and holds, on every order and in every combination of wrapping and
  non-wrapping intervals, exactly when the two intervals have a place in common, that is, when their stretches of the line
  overlap. So it holds whenever they have a value in common, and on an order without gaps and ends only then; on the
  integers \<open>(1, 2)\<close> overlaps itself although it has no value.\<close>

theorem wi_overlaps_correct:
  fixes w u :: "'a::linorder wrapping_interval"
  assumes "wi_ok w" "wi_ok u"
  shows "wi_overlaps w u = Inr (\<exists>p. p \<in> places w \<and> p \<in> places u) \<and>
    ((\<exists>x. x \<in> points w \<and> x \<in> points u) \<longrightarrow> wi_overlaps w u = Inr True) \<and>
    (gapless (TYPE('a)) \<longrightarrow> wi_overlaps w u = Inr (\<exists>x. x \<in> points w \<and> x \<in> points u))"
proof -
  have p: "wi_overlaps w u = Inr (\<exists>p. p \<in> places w \<and> p \<in> places u)"
    using all_places.wi_overlaps_region[OF assms] by (auto simp: places_def)
  moreover have "wi_overlaps w u = Inr (\<exists>x. x \<in> points w \<and> x \<in> points u)" if "gapless (TYPE('a))"
    unfolding points_meet by (rule cut_places.wi_overlaps_region[OF gapless_values[OF that] assms])
  moreover have "\<exists>p. p \<in> places w \<and> p \<in> places u" if "\<exists>x. x \<in> points w \<and> x \<in> points u" using that value_places by blast
  ultimately show ?thesis by simp
qed

lemma wi_overlaps_correct_witness:
  "wi_overlaps (ex_interval (8::rat) True 3 False) (ex_interval 3 True 7 True) = Inr False \<and>
   wi_overlaps (ex_interval (1::int) False 2 False) (ex_interval 1 False 2 False) = Inr True \<and>
   points (ex_interval (1::int) False 2 False) = {}"
proof -
  have "wi_overlaps (ex_interval (8::rat) True 3 False) (ex_interval 3 True 7 True) =
    Inr (\<exists>x. x \<in> points (ex_interval (8::rat) True 3 False) \<and> x \<in> points (ex_interval 3 True 7 True))"
    using wi_overlaps_correct[of "ex_interval (8::rat) True 3 False" "ex_interval 3 True 7 True"] gapless_rat ex_interval_simps(1) by blast
  moreover have "wi_overlaps (ex_interval (1::int) False 2 False) (ex_interval 1 False 2 False) =
    Inr (\<exists>p. p \<in> places (ex_interval (1::int) False 2 False))"
    using wi_overlaps_correct[of "ex_interval (1::int) False 2 False" "ex_interval 1 False 2 False"] by simp
  moreover have "Cut 1 True \<in> places (ex_interval (1::int) False 2 False)"
    by (simp add: places_def region_def)
  ultimately show ?thesis by (auto simp: points_def)
qed

text \<open>C19: \<open>contains\<close> of another interval, unless this interval goes around the whole ring, holds on every order exactly when
  all places of the other interval are places of this one. Then all values of the other interval are values of this one,
  also when this one goes around the whole ring; on an order without gaps and ends the converse is true as well.\<close>

theorem wi_contains_interval_correct:
  fixes w u :: "'a::linorder wrapping_interval"
  assumes "wi_ok w" "wi_ok u"
  shows "(wi_contains_interval w u \<longrightarrow> (\<forall>x. x \<in> points u \<longrightarrow> x \<in> points w)) \<and>
    (\<not> whole_ring w \<longrightarrow> (wi_contains_interval w u \<longleftrightarrow> (\<forall>p. p \<in> places u \<longrightarrow> p \<in> places w))) \<and>
    (\<not> whole_ring w \<and> gapless (TYPE('a)) \<longrightarrow> (wi_contains_interval w u \<longleftrightarrow> (\<forall>x. x \<in> points u \<longrightarrow> x \<in> points w)))"
proof -
  have p: "wi_contains_interval w u \<longleftrightarrow> region P u \<subseteq> region P w" if "\<not> whole_ring w" "cut_places P" for P
    using cut_places.wi_contains_interval_sound[OF that(2) assms] cut_places.wi_contains_interval_complete[OF that(2) assms _ that(1)] by blast
  have "\<forall>x. x \<in> points u \<longrightarrow> x \<in> points w" if "wi_contains_interval w u"
    using cut_places.wi_contains_interval_sound[OF all_places.cut_places_axioms assms that] unfolding value_places places_def by blast
  moreover have "wi_contains_interval w u \<longleftrightarrow> (\<forall>p. p \<in> places u \<longrightarrow> p \<in> places w)" if "\<not> whole_ring w"
    using p[OF that all_places.cut_places_axioms] by (auto simp: places_def)
  moreover have "wi_contains_interval w u \<longleftrightarrow> (\<forall>x. x \<in> points u \<longrightarrow> x \<in> points w)" if "\<not> whole_ring w" "gapless (TYPE('a))"
    unfolding points_included by (rule p[OF that(1) gapless_values[OF that(2)]])
  ultimately show ?thesis by blast
qed

lemma wi_contains_interval_correct_witness:
  "wi_contains_interval (ex_interval (8::rat) True 3 False) (ex_interval 9 True 2 True)"
proof -
  have "\<not> whole_ring (ex_interval (8::rat) True 3 False)" by (simp add: whole_ring_def)
  then have "wi_contains_interval (ex_interval (8::rat) True 3 False) (ex_interval 9 True 2 True) \<longleftrightarrow>
    (\<forall>x. x \<in> points (ex_interval 9 True 2 True) \<longrightarrow> x \<in> points (ex_interval (8::rat) True 3 False))"
    using wi_contains_interval_correct[of "ex_interval (8::rat) True 3 False" "ex_interval 9 True 2 True"] gapless_rat ex_interval_simps(1) by blast
  then show ?thesis by (auto simp: points_def)
qed

text \<open>C23: An interval such as \<open>(v, v]\<close>, which wraps and covers every value, does not contain the intervals that
  lie across \<open>v\<close> by the test of the source, although all their values are among its values.\<close>

theorem whole_ring_contains_incomplete:
  fixes v s e :: "'a::linorder"
  assumes "s < v" "v < e"
  defines "ring \<equiv> wi_make \<lparr>bound_value = v, is_inclusive = False\<rparr> \<lparr>bound_value = v, is_inclusive = True\<rparr>"
    and "across \<equiv> wi_make \<lparr>bound_value = s, is_inclusive = True\<rparr> \<lparr>bound_value = e, is_inclusive = True\<rparr>"
  shows "(\<forall>x. wi_contains ring x = Inr True) \<and> wi_contains across v = Inr True \<and> \<not> wi_contains_interval ring across"
proof -
  have r: "ring = ex_interval v False v True" and a: "across = ex_interval s True e True"
    by (simp_all add: ring_def across_def ex_interval_def ex_bound_def)
  have "points ring = UNIV" using whole_ring_points[of ring] by (simp add: r whole_ring_def)
  then have "wi_contains ring x = Inr True" for x using wi_contains_eq[of ring x] by (simp add: r)
  moreover have "wi_contains across v = Inr True"
    using wi_contains_eq[of across v] assms(1,2) by (simp add: a points_def)
  moreover have "\<not> wi_contains_interval ring across"
    using assms(1,2) by (auto simp: r a wi_contains_interval_cuts)
  ultimately show ?thesis by blast
qed

lemma whole_ring_contains_incomplete_witness:
  "\<not> wi_contains_interval (wi_make \<lparr>bound_value = 5, is_inclusive = False\<rparr> \<lparr>bound_value = 5, is_inclusive = True\<rparr>)
     (wi_make \<lparr>bound_value = 1, is_inclusive = True\<rparr> \<lparr>bound_value = (10::int), is_inclusive = True\<rparr>)"
  using whole_ring_contains_incomplete[of 1 5 "10::int"] by simp

text \<open>C17: \<open>subtract\<close> returns intervals that together have exactly the values of this interval that the other one
  does not have; none of them wraps around and each lies before the next one.\<close>

theorem wi_subtract_correct:
  assumes "wi_ok w" "wi_ok u"
  shows "(\<Union>r \<in> set (wi_subtract w u). points r) = points w - points u \<and>
    (\<forall>r \<in> set (wi_subtract w u). wi_ok r \<and> \<not> is_wrap_around r) \<and>
    sorted_wrt (\<lambda>a b. wi_other_is_before b a = Inr True) (wi_subtract w u)"
proof -
  have "ordered_intervals (wi_subtract w u)" "all_points (wi_subtract w u) = points w - points u"
    using subtract_loop_correct[of "[]" "unwrapped_list w" "unwrapped_list u"] ordered_unwrapped_list[OF assms(1)]
      ordered_unwrapped_list[OF assms(2)] by (simp_all add: wi_subtract_def)
  then show ?thesis unfolding ordered_intervals_iff nonwrapping_def by blast
qed

lemma wi_subtract_correct_witness:
  "(\<Union>r \<in> set (wi_subtract (ex_interval (8::int) True 3 True) (ex_interval 9 True 2 False)). points r) = {2, 3, 8}"
proof -
  have "(\<Union>r \<in> set (wi_subtract (ex_interval (8::int) True 3 True) (ex_interval 9 True 2 False)). points r) =
    points (ex_interval 8 True 3 True) - points (ex_interval 9 True 2 False)"
    by (rule wi_subtract_correct[THEN conjunct1]) simp_all
  moreover have "points (ex_interval (8::int) True 3 True) = {x. 8 \<le> x \<or> x \<le> 3}"
    "points (ex_interval (9::int) True 2 False) = {x. 9 \<le> x \<or> x < 2}" by (auto simp: points_def)
  ultimately show ?thesis by auto
qed

text \<open>C21: \<open>intersection\<close> of two intervals that do not wrap around is an interval that does not wrap around and has
  exactly the values they share, and is absent only when they share none. \<open>trim_front\<close> keeps exactly the values
  from the given start on.\<close>

theorem interval_intersection_correct:
  assumes "wi_ok r" "\<not> is_wrap_around r" "wi_ok u" "\<not> is_wrap_around u"
  shows "(case interval_intersection r u of
      None \<Rightarrow> points r \<inter> points u = {}
    | Some i \<Rightarrow> \<not> is_wrap_around i \<and> points i = points r \<inter> points u) \<and>
   (case trim_front r s of
      None \<Rightarrow> points r \<inter> points (make_wi s None False) = {}
    | Some i \<Rightarrow> \<not> is_wrap_around i \<and> points i = points r \<inter> points (make_wi s None False))"
proof -
  have "nonwrapping r" "nonwrapping u" "nonwrapping (make_wi s None False)"
    using assms by (simp_all add: nonwrapping_def[of r] nonwrapping_def[of u])
  then show ?thesis
    using interval_intersection_points[of r u] interval_intersection_points[of r "make_wi s None False"]
    unfolding trim_front_def nonwrapping_def by (auto split: option.splits)
qed

lemma interval_intersection_correct_witness:
  "case interval_intersection (ex_interval (1::int) True 5 False) (ex_interval 2 False 9 True) of
     None \<Rightarrow> False | Some i \<Rightarrow> points i = {3, 4}"
proof -
  have p: "points (ex_interval (1::int) True 5 False) \<inter> points (ex_interval 2 False 9 True) = {3, 4}"
    by (auto simp: points_def)
  show ?thesis
    using interval_intersection_correct[of "ex_interval (1::int) True 5 False" "ex_interval 2 False 9 True" None]
    unfolding p by (auto split: option.splits)
qed

text \<open>C18: \<open>deoverlap\<close> of any intervals that do not wrap around returns intervals that cover exactly the same values;
  none of them wraps around and each lies before the next one, so that no two of them share a value.\<close>

theorem deoverlap_correct:
  assumes "\<forall>r \<in> set rs. wi_ok r \<and> \<not> is_wrap_around r"
  shows "(\<Union>r \<in> set (deoverlap rs). points r) = (\<Union>r \<in> set rs. points r) \<and>
    (\<forall>r \<in> set (deoverlap rs). wi_ok r \<and> \<not> is_wrap_around r) \<and>
    sorted_wrt (\<lambda>a b. wi_other_is_before b a = Inr True \<and> points a \<inter> points b = {}) (deoverlap rs)"
proof -
  have d: "ordered_intervals (deoverlap rs)" "all_points (deoverlap rs) = all_points rs"
    using deoverlap_points[of rs] assms by (auto simp: nonwrapping_def)
  have "sorted_wrt (\<lambda>a b. wi_other_is_before b a = Inr True \<and> points a \<inter> points b = {}) ws"
    if "ordered_intervals ws" for ws :: "'a wrapping_interval list"
    using that by (induction ws) (auto simp: ordered_intervals_def wi_other_is_before_eq dest: points_apart)
  then show ?thesis using d by (auto simp: ordered_intervals_def nonwrapping_def)
qed

lemma deoverlap_correct_witness:
  "(\<Union>r \<in> set (deoverlap [ex_interval (4::int) True 6 True, ex_interval 1 True 4 True, ex_interval 2 True 3 True]). points r)
    = {1..6}"
proof -
  have "(\<Union>r \<in> set (deoverlap [ex_interval (4::int) True 6 True, ex_interval 1 True 4 True, ex_interval 2 True 3 True]). points r)
    = (\<Union>r \<in> set [ex_interval (4::int) True 6 True, ex_interval 1 True 4 True, ex_interval 2 True 3 True]. points r)"
    by (rule deoverlap_correct[THEN conjunct1]) simp
  moreover have "points (ex_interval a True b True) = {a..b}" if "a \<le> b" for a b :: int
    using that by (auto simp: points_def)
  ultimately show ?thesis by auto
qed

text \<open>C22: \<open>split\<close> at a value of the interval separates the values up to the split point from those after it, and
  \<open>split_after\<close> keeps those after it. When the split point is the last value of an interval with an inclusive
  end, the second half that \<open>split\<close> returns is \<open>(p, p]\<close>, which wraps around and has every value instead of
  none, so callers must not split there.\<close>

theorem interval_split_correct:
  assumes "wi_ok r" "\<not> is_wrap_around r" "p \<in> points r"
  shows "\<exists>a b. interval_split r p = Inr (a, b) \<and> \<not> is_wrap_around a \<and> points a = {x \<in> points r. x \<le> p} \<and>
      (if wi_end r = Some \<lparr>bound_value = p, is_inclusive = True\<rparr> then is_wrap_around b \<and> points b = UNIV
       else \<not> is_wrap_around b \<and> points b = {x \<in> points r. p < x}) \<and>
    (case interval_split_after r p of
       None \<Rightarrow> {x \<in> points r. p < x} = {}
     | Some u \<Rightarrow> \<not> is_wrap_around u \<and> points u = {x \<in> points r. p < x})"
proof -
  have n: "nonwrapping r" using assms by (simp add: nonwrapping_def)
  have "to_cut r \<le> Cut p True \<longleftrightarrow> wi_end r = Some \<lparr>bound_value = p, is_inclusive = True\<rparr>"
    using assms(3) n by (auto simp: points_nonwrapping end_cut_def split: option.splits)
  moreover have "whole_ring b \<Longrightarrow> is_wrap_around b \<and> points b = UNIV" if "wi_ok b" for b :: "'a interval"
    using that whole_ring_points[of b] by (simp add: whole_ring_def)
  moreover obtain a b where "interval_split r p = Inr (a, b)" "wi_ok b"
    using assms n by (simp add: interval_split_def interval_contains_eq)
  moreover have "case interval_split_after r p of None \<Rightarrow> {x \<in> points r. p < x} = {}
      | Some u \<Rightarrow> \<not> is_wrap_around u \<and> points u = {x \<in> points r. p < x}"
    using interval_split_after_points[OF n, of p] by (simp add: nonwrapping_def split: option.splits)
  ultimately show ?thesis
    using interval_split_points[OF n assms(3)] by (simp add: nonwrapping_def not_less[symmetric] split: if_splits)
qed

lemma interval_split_correct_witness:
  "\<exists>a b. interval_split (ex_interval (1::int) True 5 True) 3 = Inr (a, b) \<and> points a = {1, 2, 3} \<and> points b = {4, 5}"
proof -
  have "3 \<in> points (ex_interval (1::int) True 5 True)" by (simp add: points_def)
  moreover have "{x \<in> points (ex_interval (1::int) True 5 True). x \<le> 3} = {1, 2, 3}"
    "{x \<in> points (ex_interval (1::int) True 5 True). 3 < x} = {4, 5}" by (auto simp: points_def)
  ultimately show ?thesis
    using interval_split_correct[of "ex_interval (1::int) True 5 True" 3] by (auto simp: ex_bound_def)
qed

text \<open>\<open>slice\<close> of a sorted sequence returns exactly the elements that are values of the interval, in order.\<close>

theorem interval_slice_correct:
  assumes "wi_ok r" "\<not> is_wrap_around r" "sorted xs"
  shows "interval_slice r xs = filter (\<lambda>x. interval_contains r x = Inr True) xs"
  using interval_slice_filter[of r xs] assms by (simp add: nonwrapping_def interval_contains_eq)

lemma interval_slice_correct_witness: "interval_slice (ex_interval (2::int) False 5 True) [1, 2, 3, 5, 8] = [3, 5]"
proof -
  have "interval_slice (ex_interval (2::int) False 5 True) [1, 2, 3, 5, 8] =
    filter (\<lambda>x. interval_contains (ex_interval (2::int) False 5 True) x = Inr True) [1, 2, 3, 5, 8]"
    by (rule interval_slice_correct) simp_all
  then show ?thesis by (simp add: interval_contains_eq points_def)
qed

end
