(* ===== verification/Byte_Order.thy ===== *)
theory Byte_Order
  imports Prelude "HOL-Library.Word"
begin

text \<open>
  Words as sequences of bytes, for the components that read and write serialized data. A byte is an 8-bit word,
  read as signed by \<^term>\<open>sint\<close> where the code has \<open>int8_t\<close>. Integers in network order are what
  \<open>read_simple\<close> and \<open>write\<close> of \<open>src/utils/fragment_range.hh\<close> read and write on every machine, whatever
  fragments the bytes are stored in.
\<close>

unbundle bit_operations_syntax

type_synonym byte = "8 word"
type_synonym u64 = "64 word"

section \<open>Words in memory\<close>

text \<open>The word whose bytes in memory are \<open>bs\<close>, on a little-endian machine, and the number they are in network order.\<close>

definition le_word :: "byte list \<Rightarrow> u64" where
  "le_word bs = foldr (\<lambda>b w. push_bit 8 w OR ucast b) bs 0"

definition be_word :: "byte list \<Rightarrow> u64" where
  "be_word bs = le_word (rev bs)"

text \<open>The low \<open>n\<close> bytes of a word, the most significant one first.\<close>

definition be_bytes :: "nat \<Rightarrow> 'a::len word \<Rightarrow> byte list" where
  "be_bytes n w = map (\<lambda>j. ucast (drop_bit (8 * (n - 1 - j)) w)) [0..<n]"

lemma length_be_bytes [simp]: "length (be_bytes n w) = n"
  by (simp add: be_bytes_def)

lemma bit_le_word: "bit (le_word bs) k \<longleftrightarrow> k < 64 \<and> k div 8 < length bs \<and> bit (bs ! (k div 8)) (k mod 8)"
proof (induction bs arbitrary: k)
  case Nil
  then show ?case by (simp add: le_word_def)
next
  case (Cons b bs)
  have "bit (le_word (b # bs)) k \<longleftrightarrow> k < 64 \<and> (8 \<le> k \<and> bit (le_word bs) (k - 8) \<or> bit b k)"
    by (auto simp: le_word_def bit_simps)
  then show ?case
    by (cases "k < 8") (auto simp: Cons le_div_geq le_mod_geq dest: bit_imp_le_length)
qed

lemma bit_be_word:
  "bit (be_word bs) k \<longleftrightarrow> k < 64 \<and> k div 8 < length bs \<and> bit (bs ! (length bs - 1 - k div 8)) (k mod 8)"
  by (auto simp: be_word_def bit_le_word rev_nth)

lemma be_word_zeros: "be_word (replicate n 0 @ xs) = be_word xs"
  by (rule bit_word_eqI) (auto simp: bit_be_word nth_append)

lemma be_word_snoc: "be_word (bs @ [b]) = push_bit 8 (be_word bs) OR ucast b"
  by (simp add: be_word_def le_word_def)

lemma bit_ff: "bit (0xff :: u64) k \<longleftrightarrow> k < 8"
proof -
  have "(0xff :: u64) = mask 8" by (simp add: mask_eq_exp_minus_1)
  then show ?thesis unfolding bit_mask_iff by (auto simp only: bit_mask_iff) simp
qed


lemma be_word_bytes: "n \<le> 8 \<Longrightarrow> be_word (be_bytes n v) = ucast (take_bit (8 * n) v)"
proof (rule bit_word_eqI)
  fix k assume "n \<le> 8" "k < LENGTH(64)"
  have "8 * (n - Suc (n - Suc (k div 8))) + k mod 8 = k" if "k div 8 < n" using that by simp
  then show "bit (be_word (be_bytes n v)) k = bit (ucast (take_bit (8 * n) v) :: u64) k"
    using \<open>k < LENGTH(64)\<close> by (auto simp: bit_be_word be_bytes_def bit_simps less_mult_imp_div_less)
qed

section \<open>Signed integers in network order\<close>

definition int_range :: "nat \<Rightarrow> int \<Rightarrow> bool" where
  "int_range n x \<longleftrightarrow> - (2 ^ (n - 1)) \<le> x \<and> x < 2 ^ (n - 1)"

definition write_int64 :: "int \<Rightarrow> byte list" where
  "write_int64 x = be_bytes 8 (word_of_int x :: 64 word)"

definition write_int32 :: "int \<Rightarrow> byte list" where
  "write_int32 x = be_bytes 4 (word_of_int x :: 32 word)"

definition read_int64 :: "byte list \<Rightarrow> int" where
  "read_int64 bs = sint (be_word bs)"

definition read_int32 :: "byte list \<Rightarrow> int" where
  "read_int32 bs = sint (ucast (be_word bs) :: 32 word)"

lemma length_write_int [simp]: "length (write_int64 x) = 8" "length (write_int32 x) = 4"
  by (simp_all add: write_int64_def write_int32_def)

lemma read_write_int64 [simp]: "int_range 64 x \<Longrightarrow> read_int64 (write_int64 x) = x"
proof -
  assume x: "int_range 64 x"
  have "be_word (write_int64 x) = (word_of_int x :: 64 word)"
    by (rule bit_word_eqI) (simp add: write_int64_def be_word_bytes bit_simps)
  then show ?thesis using x by (simp add: read_int64_def int_range_def sint_sbintrunc' signed_take_bit_int_eq_self)
qed

lemma read_write_int32 [simp]: "int_range 32 x \<Longrightarrow> read_int32 (write_int32 x) = x"
proof -
  assume x: "int_range 32 x"
  have "ucast (be_word (write_int32 x)) = (word_of_int x :: 32 word)"
    by (rule bit_word_eqI) (simp add: write_int32_def be_word_bytes bit_simps)
  then show ?thesis using x by (simp add: read_int32_def int_range_def sint_sbintrunc' signed_take_bit_int_eq_self)
qed

end
