(* ===== verification/Token.thy ===== *)
theory Token
  imports Interval_Points Byte_Order
begin

text \<open>
  Tokens, the positions of partition keys on the ring (\<open>src/dht/token.hh\<close>, \<open>src/dht/token.cc\<close>): their order, their
  unsigned form, their bytes, midpoints, and the compaction groups that the leading bits of tokens make. Tokens are linearly
  ordered, so that the intervals of \<open>Interval_Points\<close> apply to them.
\<close>

section \<open>Tokens\<close>

datatype token_kind = Before_all_keys | Key | After_all_keys

datatype token = Token (tok_kind: token_kind) (tok_data: u64)

definition int64_min :: u64 where
  "int64_min = push_bit 63 1"

definition int64_max :: u64 where
  "int64_max = int64_min - 1"

definition normalize_token :: "u64 \<Rightarrow> u64" where
  "normalize_token t = (if t = int64_min then int64_max else t)"

definition default_token :: token where
  "default_token = Token Before_all_keys 0"

definition make_token :: "u64 \<Rightarrow> token" where
  "make_token d = Token Key (normalize_token d)"

text \<open>The constructors from bytes; the number of bytes is checked for keys only.\<close>

definition token_of_bytes :: "token_kind \<Rightarrow> bytes \<Rightarrow> token result" where
  "token_of_bytes k b =
     (if k \<noteq> Key then Inr (Token k int64_min)
      else if length b \<noteq> 8 then Inl Runtime_error
      else Inr (Token k (be_word b)))"

definition minimum_token :: token where
  "minimum_token = Token Before_all_keys int64_min"

definition maximum_token :: token where
  "maximum_token = Token After_all_keys int64_min"

definition first_token :: token where
  "first_token = Token Key (int64_min + 1)"

definition last_token :: token where
  "last_token = Token Key int64_max"

definition next_token :: "token \<Rightarrow> token" where
  "next_token t = Token Key (tok_data t + 1)"

definition is_minimum :: "token \<Rightarrow> bool" where
  "is_minimum t \<longleftrightarrow> tok_kind t = Before_all_keys"

definition is_maximum :: "token \<Rightarrow> bool" where
  "is_maximum t \<longleftrightarrow> tok_kind t = After_all_keys"

definition is_first :: "token \<Rightarrow> bool" where
  "is_first t \<longleftrightarrow> tok_kind t = Key \<and> tok_data t = int64_min + 1"

definition is_last :: "token \<Rightarrow> bool" where
  "is_last t \<longleftrightarrow> tok_kind t = Key \<and> tok_data t = int64_max"

definition token_bytes :: "token \<Rightarrow> bytes" where
  "token_bytes t = be_bytes 8 (tok_data t)"

definition token_from_bytes :: "bytes \<Rightarrow> token result" where
  "token_from_bytes b =
     (if length b \<noteq> 8 then Inl Runtime_error
      else let tok = be_word b in Inr (if tok = int64_min then minimum_token else Token Key tok))"

definition token_to_int64 :: "token \<Rightarrow> u64" where
  "token_to_int64 t = tok_data t"

definition token_from_int64 :: "u64 \<Rightarrow> token" where
  "token_from_int64 i = Token Key i"

definition midpoint :: "token \<Rightarrow> token \<Rightarrow> token" where
  "midpoint t1 t2 = (let l1 = tok_data t1; l2 = tok_data t2 in Token Key (l1 + (l2 - l1) div 2))"

definition token_raw :: "token \<Rightarrow> u64" where
  "token_raw t = (if is_maximum t then int64_max else tok_data t)"

definition unbias :: "token \<Rightarrow> u64" where
  "unbias t = tok_data t + int64_min"

definition bias :: "u64 \<Rightarrow> token" where
  "bias n = Token Key (n - int64_min)"

text \<open>The comparison \<open><=>\<close> looks at the kind, and at the number of keys only; \<open>tri_compare_raw\<close> compares raw numbers.\<close>

definition kind_rank :: "token_kind \<Rightarrow> nat" where
  "kind_rank k = (case k of Before_all_keys \<Rightarrow> 0 | Key \<Rightarrow> 1 | After_all_keys \<Rightarrow> 2)"

definition token_compare :: "token \<Rightarrow> token \<Rightarrow> strong_ordering" where
  "token_compare t u =
     (if kind_rank (tok_kind t) < kind_rank (tok_kind u) then Ord_less
      else if kind_rank (tok_kind u) < kind_rank (tok_kind t) then Ord_greater
      else if tok_kind t = Key then cmp (sint (tok_data t)) (sint (tok_data u))
      else Ord_equal)"

definition tri_compare_raw :: "u64 \<Rightarrow> u64 \<Rightarrow> strong_ordering" where
  "tri_compare_raw l1 l2 = (if l1 = l2 then Ord_equal else if sint l1 < sint l2 then Ord_less else Ord_greater)"

section \<open>The order of tokens\<close>

lemma sint_inject: "sint a = sint b \<longleftrightarrow> a = b"
  by (auto intro: signed_word_eqI)

text \<open>
  The linear order of the type is lexicographic. It is the order of the code for the tokens that the code uses: the two ends
  of the ring carry the reserved number, and keys never do.
\<close>

instantiation token :: linorder
begin

definition less_eq_token :: "token \<Rightarrow> token \<Rightarrow> bool" where
  "less_eq_token t u \<longleftrightarrow> kind_rank (tok_kind t) < kind_rank (tok_kind u) \<or>
     (tok_kind t = tok_kind u \<and> sint (tok_data t) \<le> sint (tok_data u))"

definition less_token :: "token \<Rightarrow> token \<Rightarrow> bool" where
  "less_token t u \<longleftrightarrow> t \<le> u \<and> \<not> u \<le> t"

instance
proof
  have rank: "kind_rank k = kind_rank l \<longleftrightarrow> k = l" for k l by (cases k; cases l) (simp_all add: kind_rank_def)
  fix x y z :: token
  show "x < y \<longleftrightarrow> x \<le> y \<and> \<not> y \<le> x" by (rule less_token_def)
  show "x \<le> x" by (simp add: less_eq_token_def)
  show "x \<le> y \<Longrightarrow> y \<le> z \<Longrightarrow> x \<le> z" by (auto simp: less_eq_token_def)
  show "x \<le> y \<Longrightarrow> y \<le> x \<Longrightarrow> x = y" by (cases x; cases y) (auto simp: less_eq_token_def sint_inject)
  show "x \<le> y \<or> y \<le> x" using rank[of "tok_kind x" "tok_kind y"] by (auto simp: less_eq_token_def)
qed

end

definition legal :: "token \<Rightarrow> bool" where
  "legal t \<longleftrightarrow> (tok_kind t = Key \<longleftrightarrow> tok_data t \<noteq> int64_min)"

abbreviation is_key :: "token \<Rightarrow> bool" where
  "is_key t \<equiv> tok_kind t = Key"

lemma token_compare_legal: "legal t \<Longrightarrow> legal u \<Longrightarrow> token_compare t u = cmp t u"
  by (cases t; cases u; cases "tok_kind t"; cases "tok_kind u")
    (auto simp: token_compare_def cmp_def legal_def less_token_def less_eq_token_def kind_rank_def sint_inject)

lemma uint_int64 [simp]: "uint int64_min = 2 ^ 63" "uint int64_max = 2 ^ 63 - 1" "sint int64_min = - (2 ^ 63)" "sint int64_max = 2 ^ 63 - 1"
  by (simp_all add: int64_min_def int64_max_def)

lemma uint_unbias: "uint (unbias t) = sint (tok_data t) + 2 ^ 63"
proof -
  have "sint (tok_data t) = (uint (tok_data t) + 2 ^ 63) mod 2 ^ 64 - 2 ^ 63"
    using int_word_sint[where 'a = 64, of "uint (tok_data t)"] by simp
  then show ?thesis by (simp add: unbias_def uint_word_ariths)
qed

lemma unbias_bias [simp]: "unbias (bias n) = n"
  by (simp add: unbias_def bias_def)

lemma bias_unbias [simp]: "is_key t \<Longrightarrow> bias (unbias t) = t"
  by (cases t) (simp add: unbias_def bias_def)

lemma bias_key [simp]: "is_key (bias n)"
  by (simp add: bias_def)

lemma key_le_iff: "is_key t \<Longrightarrow> is_key u \<Longrightarrow> t \<le> u \<longleftrightarrow> unat (unbias t) \<le> unat (unbias u)"
  by (simp add: less_eq_token_def word_le_nat_alt[symmetric] word_le_def uint_unbias)

lemma key_less_iff: "is_key t \<Longrightarrow> is_key u \<Longrightarrow> t < u \<longleftrightarrow> unat (unbias t) < unat (unbias u)"
  using key_le_iff[of u t] by (simp add: not_le[symmetric])

lemma legal_key: "is_key t \<Longrightarrow> legal t \<longleftrightarrow> 0 < unat (unbias t)"
proof -
  have "tok_data t = int64_min \<longleftrightarrow> uint (unbias t) = 0" unfolding uint_unbias using sint_inject[of "tok_data t" int64_min] by auto
  then have "unbias t = 0 \<longleftrightarrow> tok_data t = int64_min" by (simp add: uint_0_iff)
  then show "is_key t \<Longrightarrow> ?thesis" by (simp add: legal_def unat_gt_0)
qed

lemma token_ends [simp]:
  "is_key t \<Longrightarrow> minimum_token < t" "is_key t \<Longrightarrow> t < maximum_token" "minimum_token < maximum_token"
  "\<not> is_key minimum_token" "\<not> is_key maximum_token" "is_maximum maximum_token" "\<not> is_maximum minimum_token"
  "is_key t \<Longrightarrow> \<not> is_maximum t" "legal minimum_token" "legal maximum_token"
  by (auto simp: minimum_token_def maximum_token_def less_token_def less_eq_token_def kind_rank_def is_maximum_def legal_def)

lemma legal_cases:
  assumes "legal t"
  obtains "t = minimum_token" | "t = maximum_token" | "is_key t" "0 < unat (unbias t)"
  using assms legal_key[of t]
  by (cases t; cases "tok_kind t") (auto simp: legal_def minimum_token_def maximum_token_def)

lemma next_token_unbias: "unbias (next_token t) = unbias t + 1"
  by (simp add: next_token_def unbias_def)

section \<open>Bytes and midpoints\<close>

lemma token_bytes_read: "be_word (token_bytes t) = tok_data t"
  by (rule bit_word_eqI) (simp add: token_bytes_def be_word_bytes bit_simps)

lemma length_token_bytes [simp]: "length (token_bytes t) = 8"
  by (simp add: token_bytes_def)

text \<open>A legal token is read back from its bytes and its kind; the bytes alone do for every token but the maximum.\<close>

lemma token_bytes_round_trip: "legal t \<Longrightarrow> token_of_bytes (tok_kind t) (token_bytes t) = Inr t"
  by (cases t) (auto simp: token_of_bytes_def token_bytes_read legal_def)

lemma token_from_bytes_round_trip: "legal t \<Longrightarrow> \<not> is_maximum t \<Longrightarrow> token_from_bytes (token_bytes t) = Inr t"
  by (cases t; cases "tok_kind t")
    (auto simp: token_from_bytes_def token_bytes_read legal_def is_maximum_def minimum_token_def Let_def)

lemma u64_less: "unat (w :: u64) < 2 ^ 64"
  using unsigned_less[of w] by simp

lemma half_way: "a \<le> b \<Longrightarrow> a + (b - a) div 2 = (a + b) div (2::nat)"
  by presburger

lemma midpoint_between:
  assumes "unat (unbias t1) \<le> unat (unbias t2)"
  shows "unat (unbias (midpoint t1 t2)) = (unat (unbias t1) + unat (unbias t2)) div 2"
proof -
  let ?a = "unbias t1" and ?b = "unbias t2"
  have eq: "unbias (midpoint t1 t2) = ?a + (?b - ?a) div 2"
    by (simp add: midpoint_def unbias_def Let_def)
  have d: "unat ((?b - ?a) div 2) = (unat ?b - unat ?a) div 2"
    using assms by (simp add: unat_div unat_sub word_le_nat_alt)
  have "unat ?a + (unat ?b - unat ?a) div 2 < 2 ^ 64" using u64_less[of ?b] assms by simp
  then have "unat (?a + (?b - ?a) div 2) = unat ?a + (unat ?b - unat ?a) div 2"
    using d by (subst unat_add_lem[THEN iffD1]) simp_all
  then show ?thesis using half_way[OF assms] by (simp only: eq)
qed

text \<open>The midpoint of the range that wraps around from the last token to the first is the reserved number.\<close>

lemma midpoint_reserved: "legal last_token \<and> legal first_token \<and> \<not> legal (midpoint last_token first_token)"
  by (simp add: legal_def last_token_def first_token_def midpoint_def int64_max_def int64_min_def Let_def)

section \<open>Compaction groups\<close>

definition compaction_group_of :: "nat \<Rightarrow> token \<Rightarrow> u64" where
  "compaction_group_of most_significant_bits t =
     (if most_significant_bits = 0 then 0
      else case tok_kind t of
        Before_all_keys \<Rightarrow> 0
      | After_all_keys \<Rightarrow> scast (push_bit most_significant_bits 1 - 1 :: 32 word)
      | Key \<Rightarrow> drop_bit (64 - most_significant_bits) (unbias t))"

definition last_token_of_compaction_group :: "nat \<Rightarrow> u64 \<Rightarrow> token" where
  "last_token_of_compaction_group most_significant_bits grp =
     bias (if grp = push_bit most_significant_bits 1 - 1 then - 1
           else push_bit (64 - most_significant_bits) (grp + 1) - 1)"

text \<open>
  \<open>split_token_range_msb\<close> of \<open>src/dht/i_partitioner.cc\<close>: one range for every group, each starting after the last token of the
  group before it.
\<close>

fun split_msb_loop :: "nat \<Rightarrow> nat list \<Rightarrow> token \<Rightarrow> token interval list result" where
  "split_msb_loop msb [] prev_last_token = Inr []"
| "split_msb_loop msb (i # is) prev_last_token =
     (let start_bound = (if i = 0 then \<lparr>bound_value = minimum_token, is_inclusive = True\<rparr>
                         else \<lparr>bound_value = prev_last_token, is_inclusive = False\<rparr>);
          last = last_token_of_compaction_group msb (of_nat i)
      in if i \<noteq> 0 \<and> compaction_group_of msb (next_token prev_last_token) \<noteq> of_nat i then Inl Internal_error
         else bindE (split_msb_loop msb is last) (\<lambda>ret.
              Inr (wi_make start_bound \<lparr>bound_value = last, is_inclusive = True\<rparr> # ret)))"

definition split_token_range_msb :: "nat \<Rightarrow> token interval list result" where
  "split_token_range_msb most_significant_bits =
     (if most_significant_bits = 0
      then Inr [wi_make \<lparr>bound_value = minimum_token, is_inclusive = True\<rparr> \<lparr>bound_value = maximum_token, is_inclusive = True\<rparr>]
      else bindE (assertE (most_significant_bits < 64)) (\<lambda>_.
           split_msb_loop most_significant_bits
             [0..<unat (scast (push_bit most_significant_bits 1 :: 32 word) :: u64)] default_token))"

text \<open>The tokens of group \<open>g\<close> are those with \<open>g\<close> in their leading bits, and the last of them is the one with ones in the others.\<close>

lemma unat_shift_right: "unat (drop_bit n w) = unat w div 2 ^ n"
  unfolding unat_drop_bit_eq by (rule drop_bit_eq_div)

lemma unat_shift_left: "unat (push_bit n (w :: 'a::len word)) = unat w * 2 ^ n mod 2 ^ LENGTH('a)"
  unfolding unsigned_push_bit_eq by (simp add: take_bit_eq_mod push_bit_eq_mult)

lemma unat_shift_left_fits: "unat w * 2 ^ n < 2 ^ LENGTH('a) \<Longrightarrow> unat (push_bit n (w :: 'a::len word)) = unat w * 2 ^ n"
  by (simp add: unat_shift_left)

lemma unat_of_nat_fits: "n < 2 ^ LENGTH('a) \<Longrightarrow> unat (of_nat n :: 'a::len word) = n"
  by (simp add: unat_of_nat)

lemma div_eq_between: "0 < (d::nat) \<Longrightarrow> x div d = i \<longleftrightarrow> i * d \<le> x \<and> x < (i + 1) * d"
  using dividend_less_times_div[of d x] by (auto simp: algebra_simps intro!: div_nat_eqI)

lemma unat_nonzero: "unat w = k \<Longrightarrow> 0 < k \<Longrightarrow> w \<noteq> 0"
  by auto

lemma unat_compaction_group_of: "is_key t \<Longrightarrow> 0 < m \<Longrightarrow> unat (compaction_group_of m t) = unat (unbias t) div 2 ^ (64 - m)"
  by (simp add: compaction_group_of_def unat_shift_right)

lemma shift_fits: "m \<le> 64 \<Longrightarrow> g < 2 ^ m \<Longrightarrow> (g + 1) * 2 ^ (64 - m) \<le> (2::nat) ^ 64"
proof -
  assume m: "m \<le> 64" "g < (2::nat) ^ m"
  then have "(g + 1) * 2 ^ (64 - m) \<le> 2 ^ m * (2::nat) ^ (64 - m)" by (intro mult_right_mono) simp_all
  then show ?thesis using m(1) by (simp flip: power_add)
qed

lemma pow_64: "m < 64 \<Longrightarrow> (2::nat) ^ m < 2 ^ LENGTH(64)"
  by (rule power_strict_increasing) simp_all

lemma unat_last_token_of_group:
  assumes "0 < m" "m < 64" "g < 2 ^ m"
  shows "unat (unbias (last_token_of_compaction_group m (of_nat g))) = (g + 1) * 2 ^ (64 - m) - 1"
proof -
  have b: "unat (push_bit m 1 :: u64) = 2 ^ m" using unat_shift_left_fits[of "1 :: u64" m] pow_64[OF assms(2)] by simp
  then have n: "push_bit m 1 \<noteq> (0 :: u64)" by (rule unat_nonzero) simp
  have p: "unat (push_bit m 1 - 1 :: u64) = 2 ^ m - 1" using unat_minus_one[OF n] b by simp
  have g: "unat (of_nat g :: u64) = g" by (rule unat_of_nat_fits) (rule less_trans[OF assms(3) pow_64[OF assms(2)]])
  have all: "of_nat g = (push_bit m 1 - 1 :: u64) \<longleftrightarrow> g + 1 = 2 ^ m"
    unfolding word_unat_eq_iff p g using assms(3) by auto
  show ?thesis
  proof (cases "g + 1 = 2 ^ m")
    case True
    have "(2::nat) ^ m * 2 ^ (64 - m) = 2 ^ 64" using assms(2) by (metis le_add_diff_inverse less_imp_le power_add)
    then have "(g + 1) * 2 ^ (64 - m) - 1 = (2::nat) ^ 64 - 1" by (simp only: True)
    moreover have "unat (- 1 :: u64) = 2 ^ 64 - 1" by (simp add: unsigned_minus_1_eq_mask mask_eq_exp_minus_1)
    moreover have "last_token_of_compaction_group m (of_nat g) = bias (- 1)" using all True
      by (simp only: last_token_of_compaction_group_def simp_thms if_True)
    ultimately show ?thesis by (simp only: unbias_bias)
  next
    case False
    let ?k = "(g + 1) * (2::nat) ^ (64 - m)"
    have "?k < (g + 1 + 1) * 2 ^ (64 - m)" by simp
    also have "\<dots> \<le> 2 ^ LENGTH(64)" using shift_fits[of m "g + 1"] assms False by simp
    finally have k: "?k < 2 ^ LENGTH(64)" .
    have "g + 1 < 2 ^ LENGTH(64)" using pow_64[OF assms(2)] assms(3) by linarith
    then have g1: "unat (of_nat g + 1 :: u64) = g + 1" using unat_of_nat_fits[where 'a = 64, of "g + 1"] by (simp only: of_nat_add of_nat_1 simp_thms)
    then have r: "unat (push_bit (64 - m) (of_nat g + 1) :: u64) = ?k" using unat_shift_left_fits[of "of_nat g + 1 :: u64" "64 - m"] k by (simp only:)
    then have nz: "push_bit (64 - m) (of_nat g + 1) \<noteq> (0 :: u64)" by (rule unat_nonzero) simp
    have "unat (push_bit (64 - m) (of_nat g + 1) - 1 :: u64) = ?k - 1" using unat_minus_one[OF nz] by (simp only: r)
    moreover have "last_token_of_compaction_group m (of_nat g) = bias (push_bit (64 - m) (of_nat g + 1) - 1)" using all False
      by (simp only: last_token_of_compaction_group_def simp_thms if_False)
    ultimately show ?thesis by (simp only: unbias_bias)
  qed
qed

text \<open>The ranges of a split, and the groups of the tokens in them.\<close>

definition group_range :: "nat \<Rightarrow> nat \<Rightarrow> token interval" where
  "group_range m i =
     wi_make (if i = 0 then \<lparr>bound_value = minimum_token, is_inclusive = True\<rparr>
              else \<lparr>bound_value = last_token_of_compaction_group m (of_nat (i - 1)), is_inclusive = False\<rparr>)
       \<lparr>bound_value = last_token_of_compaction_group m (of_nat i), is_inclusive = True\<rparr>"

lemma group_starts:
  assumes "0 < m" "m < 64" "0 < i" "i < 2 ^ m"
  shows "compaction_group_of m (next_token (last_token_of_compaction_group m (of_nat (i - 1)))) = of_nat i"
proof -
  let ?t = "last_token_of_compaction_group m (of_nat (i - 1))"
  have u: "unat (unbias ?t) = i * 2 ^ (64 - m) - 1" using unat_last_token_of_group[of m "i - 1"] assms by simp
  have "i * 2 ^ (64 - m) < (i + 1) * (2::nat) ^ (64 - m)" by simp
  also have "\<dots> \<le> 2 ^ LENGTH(64)" using shift_fits[of m i] assms by simp
  finally have "unat (unbias ?t) + 1 < 2 ^ LENGTH(64)" using u assms(3) by simp
  then have "unat (unbias ?t + 1) = unat (unbias ?t) + 1" using unat_add_lem[of "unbias ?t" 1] by simp
  then have "unat (unbias (next_token ?t)) = i * 2 ^ (64 - m)" using u assms(3) by (simp add: next_token_unbias)
  then have "unat (compaction_group_of m (next_token ?t)) = i"
    using unat_compaction_group_of[of "next_token ?t" m] assms(1) by (simp add: next_token_def)
  moreover have "unat (of_nat i :: u64) = i" by (rule unat_of_nat_fits) (rule less_trans[OF assms(4) pow_64[OF assms(2)]])
  ultimately show ?thesis by (simp add: word_unat_eq_iff)
qed

lemma split_msb_loop_eq:
  assumes "0 < m" "m < 64" "n \<le> 2 ^ m" "0 < i \<Longrightarrow> prev = last_token_of_compaction_group m (of_nat (i - 1))"
  shows "split_msb_loop m [i..<n] prev = Inr (map (group_range m) [i..<n])"
  using assms(4)
proof (induction "n - i" arbitrary: i prev)
  case (Suc k)
  then have i: "[i..<n] = i # [Suc i..<n]" "i < 2 ^ m" using assms(3) by (simp_all add: upt_conv_Cons)
  have "split_msb_loop m [Suc i..<n] (last_token_of_compaction_group m (of_nat i)) = Inr (map (group_range m) [Suc i..<n])"
    by (rule Suc.hyps(1)) (use Suc.hyps(2) in simp_all)
  moreover have "compaction_group_of m (next_token prev) = of_nat i" if "0 < i" using group_starts[OF assms(1,2) that i(2)] Suc.prems that by simp
  ultimately show ?case using Suc.prems unfolding i(1) by (cases "i = 0") (simp_all add: group_range_def Let_def)
qed simp

lemma group_range_points:
  assumes "0 < m" "m < 64" "i < 2 ^ m" "is_key t"
  shows "t \<in> points (group_range m i) \<longleftrightarrow> unat (compaction_group_of m t) = i"
proof -
  let ?d = "(2::nat) ^ (64 - m)" and ?x = "unat (unbias t)"
  have k: "is_key (last_token_of_compaction_group m g)" for g by (simp add: last_token_of_compaction_group_def)
  have last: "t \<le> last_token_of_compaction_group m (of_nat g) \<longleftrightarrow> ?x < (g + 1) * ?d" if "g < 2 ^ m" for g
  proof -
    have "0 < (g + 1) * ?d" by simp
    then show ?thesis unfolding key_le_iff[OF assms(4) k] unat_last_token_of_group[OF assms(1,2) that] by linarith
  qed
  have "unat (compaction_group_of m t) = i \<longleftrightarrow> i * ?d \<le> ?x \<and> ?x < (i + 1) * ?d"
    unfolding unat_compaction_group_of[OF assms(4,1)] by (rule div_eq_between) simp
  moreover have "t \<in> points (group_range m i) \<longleftrightarrow>
    (i = 0 \<or> \<not> t \<le> last_token_of_compaction_group m (of_nat (i - 1))) \<and> t \<le> last_token_of_compaction_group m (of_nat i)"
  proof -
    have a: "start_cut (Some (if i = 0 then \<lparr>bound_value = minimum_token, is_inclusive = True\<rparr>
        else \<lparr>bound_value = last_token_of_compaction_group m (of_nat (i - 1)), is_inclusive = False\<rparr>)) =
      (if i = 0 then Cut minimum_token False else Cut (last_token_of_compaction_group m (of_nat (i - 1))) True)" by simp
    have "last_token_of_compaction_group m (of_nat (i - 1)) < last_token_of_compaction_group m (of_nat i)" if "0 < i"
    proof -
      have "i - 1 < 2 ^ m" using assms(3) by simp
      note u = unat_last_token_of_group[OF assms(1,2) this] unat_last_token_of_group[OF assms(1-3)]
      have "0 < (i - 1 + 1) * ?d" "(i - 1 + 1) * ?d < (i + 1) * ?d" using that by simp_all
      then show ?thesis unfolding key_less_iff[OF k k] u by linarith
    qed
    then show ?thesis using assms(4) token_ends(1)[OF k[of "of_nat i"]] unfolding group_range_def wi_make_def
      by (subst points_make; simp only: a) (auto simp: not_le less_imp_le)
  qed
  moreover have "t \<le> last_token_of_compaction_group m (of_nat (i - 1)) \<longleftrightarrow> ?x < i * ?d" if "i \<noteq> 0"
    using last[of "i - 1"] assms(3) that by (simp only: le_add_diff_inverse2[OF Suc_leI] neq0_conv One_nat_def)
  ultimately show ?thesis using last[OF assms(3)] by (cases "i = 0") (simp_all only: simp_thms not_less mult_0 le0)
qed

lemma one_shifted: "m < 31 \<Longrightarrow> unat (scast (push_bit m 1 :: 32 word) :: u64) = 2 ^ m"
proof -
  assume m: "m < 31"
  have "scast (push_bit m 1 :: 32 word) = (push_bit m 1 :: u64)"
    by (rule bit_word_eqI) (use m in \<open>auto simp: bit_simps\<close>)
  then show ?thesis using m unat_shift_left_fits[of "1 :: u64" m] pow_64[of m] by simp
qed

lemma split_token_range_msb_eq:
  assumes "0 < m" "m < 31"
  shows "split_token_range_msb m = Inr (map (group_range m) [0..<2 ^ m])"
  using assms split_msb_loop_eq[of m "2 ^ m" 0 default_token] one_shifted[of m]
  by (simp only: split_token_range_msb_def assertE_def) simp

text \<open>
  Splitting the ring by leading bits never fails and returns a range for every compaction group, in order, and a key is in
  the range of its group and in no other one.
\<close>

theorem split_token_range_msb_correct:
  assumes "m < 31"
  shows "\<exists>rs. split_token_range_msb m = Inr rs \<and> length rs = 2 ^ m \<and>
    (\<forall>i < length rs. \<forall>t. is_key t \<longrightarrow> (t \<in> points (rs ! i) \<longleftrightarrow> unat (compaction_group_of m t) = i))"
proof (cases "m = 0")
  case True
  then show ?thesis by (auto simp: split_token_range_msb_def compaction_group_of_def wi_make_def less_imp_le)
next
  case False
  then show ?thesis using assms group_range_points[of m] by (simp add: split_token_range_msb_eq)
qed

lemma split_token_range_msb_correct_witness:
  "\<exists>rs. split_token_range_msb 2 = Inr rs \<and> length rs = 4 \<and> make_token 5 \<in> points (rs ! 2)"
proof -
  have "unat (compaction_group_of 2 (make_token 5)) = 2" "is_key (make_token 5)"
    by (simp_all add: make_token_def compaction_group_of_def unbias_def normalize_token_def int64_min_def)
  then show ?thesis using split_token_range_msb_correct[of 2] by auto
qed

end
