(* ===== verification/Vint.thy ===== *)
theory Vint
  imports Byte_Order "HOL-Library.Signed_Division"
begin

text \<open>
  Variable-length integers, from \<open>src/vint-serialization.cc\<close>. \<open>uint64_t\<close> and \<open>int64_t\<close> are 64-bit words.

  Two functions come from the Seastar library and are parameters of the definitions that call them:
  \<open>clz\<close> is \<open>count_leading_zeros\<close>, for arguments other than 0, and \<open>be\<close> is \<open>be_to_cpu\<close> on a little-endian
  machine. What is known of them are the predicates \<open>leading_zeros\<close> and \<open>big_endian\<close>.
\<close>

unbundle bit_operations_syntax

section \<open>Functions of Seastar\<close>

definition leading_zeros :: "(u64 \<Rightarrow> nat) \<Rightarrow> bool" where
  "leading_zeros clz \<longleftrightarrow> (\<forall>n. n \<noteq> 0 \<longrightarrow> clz n < 64 \<and> bit n (63 - clz n) \<and> (\<forall>k. 63 - clz n < k \<longrightarrow> \<not> bit n k))"

definition big_endian :: "(u64 \<Rightarrow> u64) \<Rightarrow> bool" where
  "big_endian be \<longleftrightarrow> (\<forall>bs. length bs = 8 \<longrightarrow> be (le_word bs) = be_word bs)"

section \<open>Model\<close>

definition count_leading_zero_bits :: "(u64 \<Rightarrow> nat) \<Rightarrow> u64 \<Rightarrow> nat" where
  "count_leading_zero_bits clz n = (if n = 0 then 64 else clz n)"

definition encode_zigzag :: "u64 \<Rightarrow> u64" where
  "encode_zigzag n = push_bit 1 n XOR signed_drop_bit 63 n"

definition decode_zigzag :: "u64 \<Rightarrow> u64" where
  "decode_zigzag n = drop_bit 1 n XOR - (n AND 1)"

definition first_byte_value_mask :: "nat \<Rightarrow> u64" where
  "first_byte_value_mask extra_bytes_size = drop_bit extra_bytes_size 0xff"

definition count_extra_bytes :: "(u64 \<Rightarrow> nat) \<Rightarrow> byte \<Rightarrow> nat" where
  "count_extra_bytes clz first_byte =
     (let v = scast first_byte :: u64 in count_leading_zero_bits clz (NOT v) - (64 - 8))"

function encode_loop :: "nat \<Rightarrow> nat \<Rightarrow> u64 \<Rightarrow> byte list \<Rightarrow> byte list" where
  "encode_loop extra_bytes_size i value buffer =
     (if i \<le> extra_bytes_size
      then encode_loop extra_bytes_size (i + 1) (drop_bit 8 value)
             (buffer[extra_bytes_size - i := ucast (value AND 0xff)])
      else buffer)"
  by pat_completeness auto
termination by (relation "measure (\<lambda>(e, i, _). e + 1 - i)") auto

declare encode_loop.simps [simp del]

text \<open>The bytes that are copied to \<open>out\<close>.\<close>

definition encode :: "u64 \<Rightarrow> nat \<Rightarrow> byte list" where
  "encode value sz =
     (let extra_bytes_size = sz - 1;
          buffer = encode_loop extra_bytes_size 0 value (replicate 9 0);
          buffer = buffer[0 := buffer ! 0 OR ucast (NOT (first_byte_value_mask extra_bytes_size))]
      in take sz buffer)"

definition unsigned_serialized_size :: "(u64 \<Rightarrow> nat) \<Rightarrow> u64 \<Rightarrow> nat" where
  "unsigned_serialized_size clz value =
     (let magnitude = int (clz (value OR 1)) in 9 - nat ((magnitude - 1) sdiv 7))"

text \<open>The size and the bytes written.\<close>

definition unsigned_serialize :: "(u64 \<Rightarrow> nat) \<Rightarrow> u64 \<Rightarrow> nat \<times> byte list" where
  "unsigned_serialize clz value =
     (let sz = unsigned_serialized_size clz value
      in if sz = 1 then (1, [ucast (value AND 0xff)]) else (sz, encode value sz))"

text \<open>\<open>None\<close> is a read beyond the end of the view. \<open>copied\<close> is what \<open>std::copy_n\<close> puts into \<open>value\<close>.\<close>

definition copied :: "byte list \<Rightarrow> nat \<Rightarrow> byte list option" where
  "copied v extra_bytes_size =
     (if 9 \<le> length v then Some (take 8 (tl v))
      else if extra_bytes_size + 1 \<le> length v then Some (take extra_bytes_size (tl v) @ replicate (8 - extra_bytes_size) 0)
      else None)"

definition unsigned_deserialize :: "(u64 \<Rightarrow> nat) \<Rightarrow> (u64 \<Rightarrow> u64) \<Rightarrow> byte list \<Rightarrow> u64 option" where
  "unsigned_deserialize clz be v =
     (case v of [] \<Rightarrow> None
      | first_byte # _ \<Rightarrow>
          if 0 \<le> sint first_byte then Some (scast first_byte)
          else
            let extra_bytes_size = count_extra_bytes clz first_byte;
                result = scast first_byte AND first_byte_value_mask extra_bytes_size
            in case copied v extra_bytes_size of
                 None \<Rightarrow> None
               | Some bs \<Rightarrow>
                   let value = be (push_bit (64 - extra_bytes_size * 8) (le_word bs));
                       result = push_bit ((extra_bytes_size * 8) mod 64) result
                   in Some (result OR value))"

text \<open>The variant for other machines.\<close>

definition deserialize_bytewise :: "(u64 \<Rightarrow> nat) \<Rightarrow> byte list \<Rightarrow> u64 option" where
  "deserialize_bytewise clz v =
     (case v of [] \<Rightarrow> None
      | first_byte # _ \<Rightarrow>
          if 0 \<le> sint first_byte then Some (scast first_byte)
          else
            let extra_bytes_size = count_extra_bytes clz first_byte;
                result = scast first_byte AND first_byte_value_mask extra_bytes_size
            in if length v < extra_bytes_size + 1 then None
               else Some (foldl (\<lambda>result index. push_bit 8 result OR (scast (v ! (index + 1)) AND 0xff))
                            result [0..<extra_bytes_size]))"

definition unsigned_size_from_first_byte :: "(u64 \<Rightarrow> nat) \<Rightarrow> byte \<Rightarrow> nat" where
  "unsigned_size_from_first_byte clz first_byte =
     1 + (if 0 \<le> sint first_byte then 0 else count_extra_bytes clz first_byte)"

definition signed_serialize :: "(u64 \<Rightarrow> nat) \<Rightarrow> u64 \<Rightarrow> nat \<times> byte list" where
  "signed_serialize clz value = unsigned_serialize clz (encode_zigzag value)"

definition signed_serialized_size :: "(u64 \<Rightarrow> nat) \<Rightarrow> u64 \<Rightarrow> nat" where
  "signed_serialized_size clz value = unsigned_serialized_size clz (encode_zigzag value)"

definition signed_deserialize :: "(u64 \<Rightarrow> nat) \<Rightarrow> (u64 \<Rightarrow> u64) \<Rightarrow> byte list \<Rightarrow> u64 option" where
  "signed_deserialize clz be v = map_option decode_zigzag (unsigned_deserialize clz be v)"

definition signed_size_from_first_byte :: "(u64 \<Rightarrow> nat) \<Rightarrow> byte \<Rightarrow> nat" where
  "signed_size_from_first_byte clz first_byte = unsigned_size_from_first_byte clz first_byte"

section \<open>Bits\<close>

lemma bit_encode_zigzag:
  "bit (encode_zigzag n) k \<longleftrightarrow> k < 64 \<and> (if k = 0 then bit n 63 else bit n (k - 1) \<noteq> bit n 63)"
  unfolding encode_zigzag_def bit_xor_iff bit_push_bit_iff bit_signed_drop_bit_iff
  by (auto simp: min_def dest: bit_imp_le_length)

lemma bit_decode_zigzag:
  "bit (decode_zigzag n) k \<longleftrightarrow> k < 64 \<and> bit n (k + 1) \<noteq> bit n 0"
proof -
  have "n AND 1 = (if bit n 0 then 1 else 0)" by (rule bit_word_eqI) (auto simp: bit_simps intro: gr0I)
  then show ?thesis
    by (auto simp: decode_zigzag_def bit_simps dest: bit_imp_le_length)
qed

lemma zigzag_inverse: "decode_zigzag (encode_zigzag n) = n"
proof (rule bit_word_eqI)
  fix k assume "k < LENGTH(64)"
  then consider "k < 63" | "k = 63" by fastforce
  then show "bit (decode_zigzag (encode_zigzag n)) k = bit n k"
    by cases (auto simp: bit_decode_zigzag bit_encode_zigzag)
qed

lemma encode_zigzag_inverse: "encode_zigzag (decode_zigzag n) = n"
  by (rule bit_word_eqI) (auto simp: bit_decode_zigzag bit_encode_zigzag split: if_splits dest: bit_imp_le_length)

section \<open>Sizes\<close>

lemma bit_bounds:
  fixes v :: u64
  shows "(\<And>k. n \<le> k \<Longrightarrow> \<not> bit v k) \<Longrightarrow> unat v < 2 ^ n" "bit v k \<Longrightarrow> 2 ^ k \<le> unat v"
proof -
  assume "\<And>k. n \<le> k \<Longrightarrow> \<not> bit v k"
  then have "take_bit n v = v" by (intro bit_word_eqI) (auto simp: bit_simps not_less[symmetric])
  then have "take_bit n (unat v) = unat v" by (metis unsigned_take_bit_eq)
  then show "unat v < 2 ^ n" by (simp add: take_bit_nat_eq_self_iff)
next
  assume "bit v k"
  then have "bit (unat v) k" by (simp add: bit_unsigned_iff)
  then have "unat v div 2 ^ k \<noteq> 0" by (metis bit_iff_odd dvd_0_right)
  then show "2 ^ k \<le> unat v" by (simp add: div_eq_0_iff)
qed

text \<open>The size that is written, by the highest bit of the value.\<close>

lemma size_by_top_bit:
  assumes "leading_zeros clz"
  shows "\<exists>m < 64. (\<forall>k. 0 < k \<and> 63 - m < k \<longrightarrow> \<not> bit v k) \<and> (0 < 63 - m \<longrightarrow> bit v (63 - m)) \<and>
    unsigned_serialized_size clz v = (if m = 0 then 9 else 9 - (m - 1) div 7)"
proof -
  have "bit (v OR 1) 0" by (simp add: bit_simps)
  then have "v OR 1 \<noteq> 0" by fastforce
  then have m: "clz (v OR 1) < 64" "bit (v OR 1) (63 - clz (v OR 1))" "\<forall>k. 63 - clz (v OR 1) < k \<longrightarrow> \<not> bit (v OR 1) k"
    using assms by (auto simp: leading_zeros_def)
  have "unsigned_serialized_size clz v = (if clz (v OR 1) = 0 then 9 else 9 - (clz (v OR 1) - 1) div 7)"
    by (cases "clz (v OR 1)") (auto simp: unsigned_serialized_size_def signed_divide_int_def nat_div_distrib)
  then show ?thesis using m by (intro exI[of _ "clz (v OR 1)"]) (auto simp: bit_simps)
qed

lemma serialized_size_range:
  assumes "leading_zeros clz"
  shows "1 \<le> unsigned_serialized_size clz v" "unsigned_serialized_size clz v \<le> 9"
    "unsigned_serialized_size clz v < 9 \<Longrightarrow> 7 * unsigned_serialized_size clz v \<le> k \<Longrightarrow> \<not> bit v k"
    "1 < unsigned_serialized_size clz v \<Longrightarrow> \<exists>k. 7 * (unsigned_serialized_size clz v - 1) \<le> k \<and> bit v k"
proof -
  obtain m where m: "m < 64" "\<forall>k. 0 < k \<and> 63 - m < k \<longrightarrow> \<not> bit v k" "0 < 63 - m \<longrightarrow> bit v (63 - m)"
    "unsigned_serialized_size clz v = (if m = 0 then 9 else 9 - (m - 1) div 7)"
    using size_by_top_bit[OF assms, of v] by (elim exE conjE)
  define q r where "q = (m - 1) div 7" and "r = (m - 1) mod 7"
  have "m - 1 = 7 * q + r" "r < 7" by (simp_all add: q_def r_def)
  then have q: "q \<le> 8" "7 * q \<le> m - 1" "m - 1 \<le> 7 * q + 6" using m(1) by linarith+
  have s: "unsigned_serialized_size clz v = (if m = 0 then 9 else 9 - q)" by (simp add: m(4) q_def)
  show "1 \<le> unsigned_serialized_size clz v" "unsigned_serialized_size clz v \<le> 9" using q by (auto simp: s)
  show "\<not> bit v k" if "unsigned_serialized_size clz v < 9" "7 * unsigned_serialized_size clz v \<le> k"
  proof -
    have "0 < k \<and> 63 - m < k" using that q m(1) by (auto simp: s split: if_splits)
    then show ?thesis using m(2) by blast
  qed
  show "\<exists>k. 7 * (unsigned_serialized_size clz v - 1) \<le> k \<and> bit v k" if "1 < unsigned_serialized_size clz v"
  proof -
    have "7 * (unsigned_serialized_size clz v - 1) \<le> 63 - m \<and> 0 < 63 - m" using that q m(1) by (auto simp: s split: if_splits)
    then show ?thesis using m(3) by blast
  qed
qed

section \<open>Bytes\<close>

lemma low_byte: "ucast (v AND 0xff :: u64) = (ucast v :: byte)"
  by (rule bit_word_eqI) (simp only: bit_ucast_iff bit_and_iff bit_ff, simp)

lemma length_encode_loop [simp]: "length (encode_loop e i v buffer) = length buffer"
proof (induction e i v buffer rule: encode_loop.induct)
  case (1 e i v buffer)
  then show ?case by (subst encode_loop.simps) auto
qed

lemma encode_loop_nth:
  "e < length buffer \<Longrightarrow> j < length buffer \<Longrightarrow>
   encode_loop e i v buffer ! j = (if j + i \<le> e then ucast (drop_bit (8 * (e - i - j)) v) else buffer ! j)"
proof (induction e i v buffer rule: encode_loop.induct)
  case (1 e i v buffer)
  show ?case
  proof (cases "i \<le> e")
    case True
    have "8 * (e - Suc i - j) + 8 = 8 * (e - i - j)" if "Suc (j + i) \<le> e" using that by simp
    then show ?thesis using 1 True
      by (subst encode_loop.simps) (auto simp: nth_list_update low_byte drop_bit_drop_bit)
  next
    case False
    then show ?thesis by (subst encode_loop.simps) auto
  qed
qed

definition head_byte :: "u64 \<Rightarrow> nat \<Rightarrow> byte" where
  "head_byte v e = ucast (drop_bit (8 * e) v) OR ucast (NOT (first_byte_value_mask e))"

lemma encode_bytes: "e \<le> 8 \<Longrightarrow> encode v (e + 1) = head_byte v e # be_bytes e v"
proof (rule nth_equalityI)
  assume "e \<le> 8"
  then show "length (encode v (e + 1)) = length (head_byte v e # be_bytes e v)"
    by (simp add: encode_def be_bytes_def Let_def)
  fix j assume "j < length (encode v (e + 1))"
  then have "j \<le> e" by (auto simp: encode_def Let_def)
  then show "encode v (e + 1) ! j = (head_byte v e # be_bytes e v) ! j"
    using \<open>e \<le> 8\<close>
    by (cases j) (auto simp: encode_def Let_def encode_loop_nth head_byte_def be_bytes_def)
qed

lemma bit_value_mask: "bit (first_byte_value_mask e) k \<longleftrightarrow> k + e < 8"
  by (simp only: first_byte_value_mask_def bit_drop_bit_eq comp_def bit_ff add.commute)

lemma bit_head_byte: "e \<le> 8 \<Longrightarrow> bit (head_byte v e) k \<longleftrightarrow> k < 8 \<and> (bit v (8 * e + k) \<or> 8 \<le> k + e)"
  by (auto simp: head_byte_def bit_simps bit_value_mask)

section \<open>Reading\<close>

lemma negative_byte: "0 \<le> sint b \<longleftrightarrow> \<not> bit b 7" for b :: byte
  using bit_last_iff[of b] by auto

lemma leading_zeros_top:
  assumes "leading_zeros clz" "bit n j" "\<And>k. j < k \<Longrightarrow> \<not> bit n k"
  shows "clz n = 63 - j" "j < 64"
proof -
  have "n \<noteq> 0" using assms(2) by auto
  then have c: "clz n < 64" "bit n (63 - clz n)" "\<forall>k. 63 - clz n < k \<longrightarrow> \<not> bit n k"
    using assms(1) by (auto simp: leading_zeros_def)
  have "63 - clz n = j" using c(2,3) assms(2,3) by (metis linorder_neqE_nat)
  then show "clz n = 63 - j" "j < 64" using c(1) by auto
qed

lemma bit_not_scast: "bit (NOT (scast b :: u64)) k \<longleftrightarrow> k < 64 \<and> \<not> bit b (min 7 k)" for b :: byte
  by (auto simp: bit_simps min_def)

lemma count_extra_bytes_ones:
  assumes "leading_zeros clz" "e \<le> 8" "\<And>k. 8 - e \<le> k \<Longrightarrow> k < 8 \<Longrightarrow> bit b k" "0 < e" "e < 8 \<Longrightarrow> \<not> bit b (7 - e)"
  shows "count_extra_bytes clz b = e"
proof (cases "e = 8")
  case True
  then have "NOT (scast b :: u64) = 0"
    by (intro bit_word_eqI) (use assms(3) in \<open>auto simp: bit_not_scast min_def\<close>)
  then show ?thesis using True by (simp add: count_extra_bytes_def count_leading_zero_bits_def)
next
  case False
  let ?n = "NOT (scast b :: u64)"
  have b: "bit ?n (7 - e)" using False assms(2,4,5) by (auto simp: bit_not_scast min_def)
  moreover have "\<not> bit ?n k" if "7 - e < k" for k
  proof -
    have "8 - e \<le> min 7 k" "min 7 k < 8" using assms(4) that by auto
    then show ?thesis using assms(3) by (auto simp: bit_not_scast)
  qed
  ultimately have "clz ?n = 63 - (7 - e)" by (rule leading_zeros_top[OF assms(1)])
  moreover have "?n \<noteq> 0" using b by auto
  ultimately show ?thesis using assms(2) False by (simp add: count_extra_bytes_def count_leading_zero_bits_def)
qed

lemma count_extra_bytes_range:
  assumes "leading_zeros clz" "bit b 7"
  shows "1 \<le> count_extra_bytes clz b" "count_extra_bytes clz b \<le> 8"
proof -
  let ?n = "NOT (scast b :: u64)"
  have "57 \<le> count_leading_zero_bits clz ?n \<and> count_leading_zero_bits clz ?n \<le> 64"
  proof (cases "?n = 0")
    case False
    then have "clz ?n < 64" "bit ?n (63 - clz ?n)" using assms(1) by (auto simp: leading_zeros_def)
    then have "63 - clz ?n < 7" using assms(2) by (auto simp: bit_not_scast min_def split: if_splits)
    then show ?thesis using False \<open>clz ?n < 64\<close> by (simp add: count_leading_zero_bits_def)
  qed (simp add: count_leading_zero_bits_def)
  then show "1 \<le> count_extra_bytes clz b" "count_extra_bytes clz b \<le> 8" by (auto simp: count_extra_bytes_def)
qed

lemma shifted_le_word:
  assumes "length bs = 8" "e \<le> 8"
  shows "push_bit (64 - e * 8) (le_word bs) = le_word (replicate (8 - e) 0 @ take e bs)"
proof (rule bit_word_eqI)
  fix k assume k: "k < LENGTH(64)"
  define q r where "q = k div 8" and "r = k mod 8"
  have kq: "k = 8 * q + r" "r < 8" "q < 8" using k by (simp_all add: q_def r_def)
  have "(k - (64 - e * 8)) div 8 = q - (8 - e) \<and> (k - (64 - e * 8)) mod 8 = r" if "8 - e \<le> q"
  proof -
    have "k - (64 - e * 8) = 8 * (q - (8 - e)) + r" using that kq assms(2) by (simp add: algebra_simps)
    then show ?thesis using kq(2) by simp
  qed
  moreover have "64 - e * 8 \<le> k \<longleftrightarrow> 8 - e \<le> q" using kq assms(2) by linarith
  ultimately show "bit (push_bit (64 - e * 8) (le_word bs)) k = bit (le_word (replicate (8 - e) 0 @ take e bs)) k"
    using k kq(3) assms
    by (auto simp: bit_push_bit_iff bit_le_word nth_append q_def[symmetric] r_def[symmetric] not_less)
qed

text \<open>The number that \<open>deserialize\<close> reads from a first byte with the top bit set and the bytes after it.\<close>

definition vint_value :: "(u64 \<Rightarrow> nat) \<Rightarrow> byte \<Rightarrow> byte list \<Rightarrow> u64" where
  "vint_value clz b bs =
     (let e = count_extra_bytes clz b in push_bit (8 * e) (scast b AND first_byte_value_mask e) OR be_word (take e bs))"

lemma mask_8: "first_byte_value_mask 8 = 0"
  by (rule bit_word_eqI) (simp add: bit_value_mask)

lemma deserialize_value:
  assumes "leading_zeros clz" "big_endian be"
  shows "unsigned_deserialize clz be (b # bs) =
    (if \<not> bit b 7 then Some (scast b)
     else if length bs < count_extra_bytes clz b then None else Some (vint_value clz b bs))"
proof (cases "bit b 7")
  case True
  define e where "e = count_extra_bytes clz b"
  have e: "1 \<le> e" "e \<le> 8" using count_extra_bytes_range[OF assms(1) True] by (simp_all add: e_def)
  have c: "if length bs < e then copied (b # bs) e = None
    else \<exists>xs. copied (b # bs) e = Some xs \<and> length xs = 8 \<and> take e xs = take e bs"
    using e by (auto simp: copied_def min_def)
  have m: "push_bit (e * 8 mod 64) (scast b AND first_byte_value_mask e) = push_bit (8 * e) (scast b AND first_byte_value_mask e :: u64)"
    using e by (cases "e = 8") (auto simp: mask_8 mult.commute)
  have "be (push_bit (64 - e * 8) (le_word xs)) = be_word (take e xs)" if "length xs = 8" for xs
    using assms(2) that e unfolding shifted_le_word[OF that e(2)] by (simp add: big_endian_def be_word_zeros)
  then show ?thesis using True c m
    by (auto simp: unsigned_deserialize_def negative_byte vint_value_def e_def[symmetric] Let_def split: if_splits)
qed (simp add: unsigned_deserialize_def negative_byte)

lemma bytewise_loop:
  "n \<le> length bs \<Longrightarrow>
   foldl (\<lambda>result index. push_bit 8 result OR (scast (bs ! index) AND 0xff)) r [0..<n] =
   push_bit (8 * n) r OR be_word (take n bs)"
proof (induction n)
  case 0
  then show ?case by (simp add: be_word_def le_word_def)
next
  case (Suc n)
  have "scast c AND 0xff = (ucast c :: u64)" for c :: byte
  proof (rule bit_word_eqI)
    fix k :: nat
    show "bit (scast c AND 0xff :: u64) k = bit (ucast c :: u64) k"
      using bit_imp_le_length[of c k] unfolding bit_and_iff bit_ff bit_signed_iff bit_unsigned_iff
      by (cases "k < 7"; cases "k = 7") auto
  qed
  moreover have "take (Suc n) bs = take n bs @ [bs ! n]" using Suc.prems by (simp add: take_Suc_conv_app_nth)
  ultimately show ?case using Suc
    by (simp add: be_word_snoc push_bit_or or.assoc mult.commute[of 8])
qed

lemma bytewise_value:
  assumes "leading_zeros clz"
  shows "deserialize_bytewise clz (b # bs) =
    (if \<not> bit b 7 then Some (scast b)
     else if length bs < count_extra_bytes clz b then None else Some (vint_value clz b bs))"
  by (auto simp: deserialize_bytewise_def negative_byte Let_def vint_value_def bytewise_loop)

text \<open>The bytes that \<open>serialize\<close> writes for \<open>v\<close> and what the first of them tells.\<close>

lemma serialized_bytes:
  assumes "leading_zeros clz"
  obtains e where "e \<le> 8" "unsigned_serialized_size clz v = e + 1"
    "snd (unsigned_serialize clz v) = head_byte v e # be_bytes e v"
    "fst (unsigned_serialize clz v) = e + 1"
    "e < 8 \<longrightarrow> (\<forall>k. 7 * (e + 1) \<le> k \<longrightarrow> \<not> bit v k)"
proof -
  define s where "s = unsigned_serialized_size clz v"
  have s: "1 \<le> s" "s \<le> 9" "s < 9 \<longrightarrow> (\<forall>k. 7 * s \<le> k \<longrightarrow> \<not> bit v k)"
    using serialized_size_range[OF assms, of v] by (auto simp: s_def)
  obtain e where e: "s = e + 1" using s(1) by (cases s) auto
  have "ucast v = head_byte v 0" by (rule bit_word_eqI) (auto simp: bit_head_byte bit_ucast_iff)
  then have "snd (unsigned_serialize clz v) = head_byte v e # be_bytes e v"
    using encode_bytes[of e v] s(2) e
    by (auto simp: unsigned_serialize_def s_def[symmetric] Let_def low_byte be_bytes_def)
  moreover have "fst (unsigned_serialize clz v) = s" by (auto simp: unsigned_serialize_def s_def[symmetric] Let_def)
  ultimately show thesis using that[of e] s e by (simp add: s_def)
qed

lemma head_byte_count:
  assumes "leading_zeros clz" "e \<le> 8" "e < 8 \<longrightarrow> (\<forall>k. 7 * (e + 1) \<le> k \<longrightarrow> \<not> bit v k)"
  shows "unsigned_size_from_first_byte clz (head_byte v e) = e + 1" "bit (head_byte v e) 7 \<longleftrightarrow> 0 < e"
    "0 < e \<Longrightarrow> count_extra_bytes clz (head_byte v e) = e"
proof -
  show c: "count_extra_bytes clz (head_byte v e) = e" if "0 < e"
    by (rule count_extra_bytes_ones[OF assms(1,2) _ that]) (use assms(2,3) that in \<open>auto simp: bit_head_byte\<close>)
  show h: "bit (head_byte v e) 7 \<longleftrightarrow> 0 < e" using assms(2,3) by (auto simp: bit_head_byte)
  show "unsigned_size_from_first_byte clz (head_byte v e) = e + 1"
    using c h by (auto simp: unsigned_size_from_first_byte_def negative_byte)
qed

lemma vint_value_written:
  assumes "leading_zeros clz" "e \<le> 8" "e < 8 \<longrightarrow> (\<forall>k. 7 * (e + 1) \<le> k \<longrightarrow> \<not> bit v k)" "0 < e"
  shows "vint_value clz (head_byte v e) (be_bytes e v @ rest) = v"
proof (rule bit_word_eqI)
  fix k assume k: "k < LENGTH(64)"
  have "take e (be_bytes e v @ rest) = be_bytes e v" by (simp add: be_bytes_def)
  then have v: "vint_value clz (head_byte v e) (be_bytes e v @ rest) =
      push_bit (8 * e) (scast (head_byte v e) AND first_byte_value_mask e) OR take_bit (8 * e) v"
    using head_byte_count(3)[OF assms] be_word_bytes[OF assms(2), of v] by (simp add: vint_value_def Let_def)
  show "bit (vint_value clz (head_byte v e) (be_bytes e v @ rest)) k = bit v k"
  proof (cases "8 * e \<le> k")
    case True
    then obtain j where j: "k = 8 * e + j" using le_Suc_ex by blast
    have e7: "e \<le> 7" using k j by simp
    have "\<not> bit v k" if "8 \<le> j + e"
    proof -
      have "7 * (e + 1) \<le> k" using that j by simp
      then show ?thesis using assms(3) e7 by simp
    qed
    moreover have "min 7 j = j" if "j + e < 8" using that assms(4) by simp
    ultimately show ?thesis
      unfolding v bit_or_iff bit_push_bit_iff bit_and_iff bit_value_mask bit_signed_iff bit_take_bit_iff j
      using k assms(2) by (cases "j + e < 8") (simp_all add: j bit_head_byte)
  next
    case False
    then show ?thesis
      unfolding v bit_or_iff bit_push_bit_iff bit_and_iff bit_value_mask bit_signed_iff bit_take_bit_iff by simp
  qed
qed

section \<open>Properties\<close>

lemma unsigned_round_trip:
  assumes "leading_zeros clz" "big_endian be"
  shows "unsigned_deserialize clz be (snd (unsigned_serialize clz v) @ rest) = Some v"
proof -
  obtain e where e: "e \<le> 8" "snd (unsigned_serialize clz v) = head_byte v e # be_bytes e v"
    "e < 8 \<longrightarrow> (\<forall>k. 7 * (e + 1) \<le> k \<longrightarrow> \<not> bit v k)"
    by (rule serialized_bytes[OF assms(1)])
  note h = head_byte_count[OF assms(1) e(1,3)]
  show ?thesis
  proof (cases "e = 0")
    case True
    then have "scast (head_byte v e) = v"
      by (intro bit_word_eqI) (use e(3) in \<open>auto simp: bit_signed_iff bit_head_byte min_def\<close>)
    then show ?thesis using True h e by (simp add: deserialize_value[OF assms] be_bytes_def)
  next
    case False
    then show ?thesis
      using h e vint_value_written[OF assms(1) e(1,3)] by (simp add: deserialize_value[OF assms])
  qed
qed

text \<open>C24: Whatever bytes follow it, a serialized number is read back, unsigned and signed.\<close>

theorem vint_round_trip:
  assumes "leading_zeros clz" "big_endian be"
  shows "unsigned_deserialize clz be (snd (unsigned_serialize clz v) @ rest) = Some v \<and>
    signed_deserialize clz be (snd (signed_serialize clz n) @ rest) = Some n"
  using unsigned_round_trip[OF assms]
  by (simp add: signed_deserialize_def signed_serialize_def zigzag_inverse)

text \<open>C25: The size of a serialized number: \<open>serialize\<close> writes as many bytes as it returns, as \<open>serialized_size\<close>
  predicts and as the first byte tells a reader, at least one and at most \<open>max_vint_length\<close>; a number of less
  than nine bytes fits seven bits for each, and one byte less would not have done.\<close>

theorem vint_size_bounds:
  assumes "leading_zeros clz"
  shows "\<exists>s. fst (unsigned_serialize clz v) = s \<and> length (snd (unsigned_serialize clz v)) = s \<and>
    unsigned_serialized_size clz v = s \<and> unsigned_size_from_first_byte clz (hd (snd (unsigned_serialize clz v))) = s \<and>
    1 \<le> s \<and> s \<le> 9 \<and> (s = 9 \<or> unat v < 2 ^ (7 * s)) \<and> (s = 1 \<or> 2 ^ (7 * (s - 1)) \<le> unat v)"
proof -
  obtain e where e: "e \<le> 8" "unsigned_serialized_size clz v = e + 1" "fst (unsigned_serialize clz v) = e + 1"
    "snd (unsigned_serialize clz v) = head_byte v e # be_bytes e v"
    "e < 8 \<longrightarrow> (\<forall>k. 7 * (e + 1) \<le> k \<longrightarrow> \<not> bit v k)"
    by (rule serialized_bytes[OF assms])
  have "2 ^ (7 * e) \<le> unat v" if pos: "0 < e"
  proof -
    obtain k where "7 * e \<le> k" "bit v k" using serialized_size_range(4)[OF assms, of v] pos by (auto simp: e(2))
    then show ?thesis using bit_bounds(2)[of v k] power_increasing[of "7 * e" k "2 :: nat"] by linarith
  qed
  moreover have "unat v < 2 ^ (7 * (e + 1))" if "e \<noteq> 8" using e(1,5) that by (intro bit_bounds) auto
  ultimately show ?thesis
    using e head_byte_count(1)[OF assms e(1,5)] by (intro exI[of _ "e + 1"]) (auto simp: be_bytes_def)
qed

text \<open>C26: The variant of \<open>deserialize\<close> that reads eight bytes at once, even beyond the number, is equivalent to the one
  that reads byte by byte: on every view both return the same number, and both stay within the view or neither does.\<close>

theorem deserialize_variants_agree:
  assumes "leading_zeros clz" "big_endian be"
  shows "unsigned_deserialize clz be v = deserialize_bytewise clz v"
proof (cases v)
  case Nil
  then show ?thesis by (simp add: unsigned_deserialize_def deserialize_bytewise_def)
qed (simp add: deserialize_value[OF assms] bytewise_value[OF assms(1)])

text \<open>Zig-zag encoding is a bijection that maps numbers close to zero, negative ones too, to small unsigned
  ones: a non-negative \<open>n\<close> to \<open>2 * n\<close> and a negative one to \<open>- 2 * n - 1\<close>.\<close>

theorem zigzag_correct:
  "decode_zigzag (encode_zigzag n) = n \<and> encode_zigzag (decode_zigzag m) = m \<and>
   uint (encode_zigzag n) = (if 0 \<le> sint n then 2 * sint n else - 2 * sint n - 1)"
proof -
  have "uint (encode_zigzag n) = (if 0 \<le> sint n then 2 * sint n else - 2 * sint n - 1)"
  proof (rule bit_eqI)
    fix k
    have "- 2 * sint n - 1 = NOT (2 * sint n)" by (simp add: not_int_def)
    moreover have "0 \<le> sint n \<longleftrightarrow> \<not> bit n 63" using bit_last_iff[of n] by auto
    ultimately show "bit (uint (encode_zigzag n)) k = bit (if 0 \<le> sint n then 2 * sint n else - 2 * sint n - 1) k"
      by (cases "k < 64"; cases "k = 64") (auto simp: bit_uint_iff bit_encode_zigzag bit_not_int_iff bit_double_iff bit_sint_iff min_def
        dest: bit_imp_le_length split: if_splits)
  qed
  then show ?thesis by (simp add: zigzag_inverse encode_zigzag_inverse)
qed

section \<open>Witnesses\<close>

text \<open>Functions with the behaviour of the two of Seastar, and the bytes of an example.\<close>

fun top_bit :: "nat \<Rightarrow> u64 \<Rightarrow> nat" where
  "top_bit 0 n = 0"
| "top_bit (Suc j) n = (if bit n j then j else top_bit j n)"

definition clz64 :: "u64 \<Rightarrow> nat" where
  "clz64 n = 63 - top_bit 64 n"

definition bswap64 :: "u64 \<Rightarrow> u64" where
  "bswap64 w = be_word (map (\<lambda>i. ucast (drop_bit (8 * i) w)) [0..<8])"

lemma top_bit_correct:
  "j < J \<Longrightarrow> bit n j \<Longrightarrow> top_bit J n < J \<and> bit n (top_bit J n) \<and> (\<forall>k. top_bit J n < k \<and> k < J \<longrightarrow> \<not> bit n k)"
proof (induction J)
  case (Suc J)
  then show ?case by (cases "j = J") (auto simp: less_Suc_eq)
qed simp

lemma clz64_leading_zeros: "leading_zeros clz64"
  unfolding leading_zeros_def
proof (intro allI impI)
  fix n :: u64 assume "n \<noteq> 0"
  then obtain j where j: "bit n j" by (auto simp: bit_eq_iff)
  have "j < 64" using bit_imp_le_length[OF j] by simp
  note t = top_bit_correct[OF this j]
  have "\<not> bit n k" if "top_bit 64 n < k" for k
    using t that bit_imp_le_length[of n k] by (cases "k < 64") auto
  then show "clz64 n < 64 \<and> bit n (63 - clz64 n) \<and> (\<forall>k. 63 - clz64 n < k \<longrightarrow> \<not> bit n k)"
    using t by (auto simp: clz64_def)
qed

lemma bswap64_big_endian: "big_endian bswap64"
proof -
  have "map (\<lambda>i. ucast (drop_bit (8 * i) (le_word bs))) [0..<8] = bs" if "length bs = 8" for bs
  proof (rule nth_equalityI)
    fix i assume "i < length (map (\<lambda>i. ucast (drop_bit (8 * i) (le_word bs)) :: byte) [0..<8])"
    then have i: "i < 8" by simp
    have "bit (ucast (drop_bit (8 * i) (le_word bs)) :: byte) k = bit (bs ! i) k" if "k < 8" for k
      using i that \<open>length bs = 8\<close> by (simp add: bit_unsigned_iff bit_drop_bit_eq bit_le_word)
    then show "map (\<lambda>i. ucast (drop_bit (8 * i) (le_word bs)) :: byte) [0..<8] ! i = bs ! i"
      using i by (simp add: bit_eq_iff)
  qed (simp add: that)
  then show ?thesis by (simp add: big_endian_def bswap64_def)
qed

text \<open>The example of the protocol's documentation: 256 000 takes three bytes.\<close>

lemma vint_round_trip_witness:
  "snd (unsigned_serialize clz64 256000) = [0xc3, 0xe8, 0] \<and>
   unsigned_deserialize clz64 bswap64 ([0xc3, 0xe8, 0] @ [7]) = Some 256000 \<and>
   signed_deserialize clz64 bswap64 (snd (signed_serialize clz64 (- 5)) @ [7]) = Some (- 5)"
proof -
  have "snd (unsigned_serialize clz64 256000) = [0xc3, 0xe8, 0]" by code_simp
  then show ?thesis
    using vint_round_trip[OF clz64_leading_zeros bswap64_big_endian, of 256000 "[7]" "- 5"] by simp
qed

lemma vint_size_bounds_witness:
  "unsigned_serialized_size clz64 256000 = 3 \<and> length (snd (unsigned_serialize clz64 256000)) = 3"
proof -
  have "unsigned_serialized_size clz64 256000 = 3" by code_simp
  then show ?thesis using vint_size_bounds[OF clz64_leading_zeros, of 256000] by auto
qed

lemma deserialize_variants_agree_witness:
  "unsigned_deserialize clz64 bswap64 [0xc3, 0xe8, 0] = Some 256000 \<and>
   deserialize_bytewise clz64 [0xc3, 0xe8, 0] = Some 256000 \<and>
   unsigned_deserialize clz64 bswap64 [0xc3, 0xe8] = deserialize_bytewise clz64 [0xc3, 0xe8]"
proof -
  have "deserialize_bytewise clz64 [0xc3, 0xe8, 0] = Some 256000" by code_simp
  then show ?thesis using deserialize_variants_agree[OF clz64_leading_zeros bswap64_big_endian] by simp
qed

end
