(* ===== verification/Merge_Order.thy ===== *)
theory Merge_Order
  imports Prelude "HOL-Library.Product_Lexorder" "HOL-Library.List_Lexorder"
begin

text \<open>
  What the parts of a mutation have in common: writes are merged by keeping the greater one of two. The three-way
  comparisons of the code are values of \<open>strong_ordering\<close>, and \<open>keeps_greatest\<close> is the contract of a merge: it keeps
  the argument with the greater key, the first one of two equals. Its lemmas say that a merge of many writes depends
  neither on their order nor on how often each of them arrives.
\<close>

definition three_way :: "'a::linorder \<Rightarrow> 'a \<Rightarrow> strong_ordering" where
  "three_way x y = (if x < y then Ord_less else if x = y then Ord_equal else Ord_greater)"

lemma three_way_simps [simp]:
  "three_way x y = Ord_less \<longleftrightarrow> x < y" "three_way x y = Ord_equal \<longleftrightarrow> x = y" "three_way x y = Ord_greater \<longleftrightarrow> y < x"
  by (auto simp: three_way_def)

text \<open>A comparison that goes on with the next attribute if the first one is equal.\<close>

lemma three_way_pair: "three_way (a, b) (c, d) = (if a \<noteq> c then three_way a c else three_way b d)"
  by (auto simp: three_way_def)

locale keeps_greatest =
  fixes key :: "'a \<Rightarrow> 'k::linorder" and merge :: "'a \<Rightarrow> 'a \<Rightarrow> 'a"
  assumes merge_def: "merge a b = (if key a < key b then b else a)"
begin

lemma merge_idem [simp]: "merge a a = a"
  by (simp add: merge_def)

lemma key_merge: "key (merge a b) = max (key a) (key b)"
  by (auto simp: merge_def max_def)

lemma merge_assoc: "merge (merge a b) c = merge a (merge b c)"
  by (auto simp: merge_def)

lemma merge_commute: "key a = key b \<longrightarrow> a = b \<Longrightarrow> merge a b = merge b a"
  by (auto simp: merge_def)

lemma merge_absorb: "key b \<le> key a \<Longrightarrow> merge a b = a"
  by (auto simp: merge_def)

lemma key_foldl: "key (foldl merge a ws) = Max (key ` set (a # ws))"
proof (induction ws arbitrary: a)
  case (Cons w ws)
  show ?case
  proof (cases "ws = []")
    case False
    then show ?thesis by (simp add: Cons key_merge ac_simps)
  qed (simp add: key_merge)
qed simp

lemma foldl_mem: "foldl merge a ws \<in> set (a # ws)"
proof (induction ws arbitrary: a)
  case (Cons w ws)
  have "foldl merge (merge a w) ws \<in> set (merge a w # ws)" by (rule Cons)
  moreover have "merge a w = a \<or> merge a w = w" by (simp add: merge_def)
  ultimately show ?case by auto
qed simp

text \<open>Replicas that have seen the same writes, in any order and any number of times, agree.\<close>

lemma convergence:
  assumes "set (a # ws) = set (b # vs)" "inj_on key (set (a # ws))"
  shows "foldl merge a ws = foldl merge b vs"
proof -
  have "key (foldl merge a ws) = key (foldl merge b vs)" using assms(1) by (simp only: key_foldl)
  moreover have "foldl merge a ws \<in> set (a # ws)" "foldl merge b vs \<in> set (a # ws)"
    using foldl_mem[of a ws] foldl_mem[of b vs] assms(1) by auto
  ultimately show ?thesis by (rule inj_onD[OF assms(2)])
qed

end

end
