(* ===== verification/Atomic_Cell.thy ===== *)
theory Atomic_Cell
  imports Byte_Order Merge_Order "HOL-Library.Monad_Syntax"
begin

text \<open>
  Tombstones and cells: \<open>src/mutation/tombstone.hh\<close>, \<open>src/mutation/atomic_cell.hh\<close> and
  \<open>src/mutation/atomic_cell.cc\<close>. A cell is kept in serialized form and every access reads the bytes. The theory
  has both levels: the functions on bytes, where \<open>None\<close> is a failed \<open>SCYLLA_ASSERT\<close>, a \<open>marshal_exception\<close> or
  an access to an empty buffer, and a datatype of what the bytes mean. The components built on cells use the
  datatype, and the refinement lemmas here justify it.

  Timestamps, points in time and durations are \<open>int64_t\<close> counts; they are integers here, within \<open>int_range 64\<close>
  where they are written.
\<close>

section \<open>Tombstones\<close>

definition missing_timestamp :: int where
  "missing_timestamp = - (2 ^ 63)"

definition max_timestamp :: int where
  "max_timestamp = 2 ^ 63 - 1"

record tombstone =
  tomb_timestamp :: int
  tomb_deletion_time :: int

definition no_tombstone :: tombstone where
  "no_tombstone = \<lparr>tomb_timestamp = missing_timestamp, tomb_deletion_time = 0\<rparr>"

definition tomb_bool :: "tombstone \<Rightarrow> bool" where
  "tomb_bool t \<longleftrightarrow> tomb_timestamp t \<noteq> missing_timestamp"

text \<open>The defaulted three-way comparison compares the members in turn.\<close>

definition tomb_key :: "tombstone \<Rightarrow> int \<times> int" where
  "tomb_key t = (tomb_timestamp t, tomb_deletion_time t)"

definition tomb_compare :: "tombstone \<Rightarrow> tombstone \<Rightarrow> strong_ordering" where
  "tomb_compare a b =
     (if tomb_timestamp a \<noteq> tomb_timestamp b then three_way (tomb_timestamp a) (tomb_timestamp b)
      else three_way (tomb_deletion_time a) (tomb_deletion_time b))"

definition tomb_apply :: "tombstone \<Rightarrow> tombstone \<Rightarrow> tombstone" where
  "tomb_apply a t = (if tomb_compare a t = Ord_less then t else a)"

text \<open>The reversible pair of \<open>reversibly_mergeable.hh\<close>; both arguments are updated.\<close>

definition tomb_apply_reversibly :: "tombstone \<Rightarrow> tombstone \<Rightarrow> tombstone \<times> tombstone" where
  "tomb_apply_reversibly a t = (tomb_apply t a, a)"

definition tomb_revert :: "tombstone \<Rightarrow> tombstone \<Rightarrow> tombstone \<times> tombstone" where
  "tomb_revert a t = (t, a)"

section \<open>Cells as bytes\<close>

definition LIVE_FLAG :: byte where "LIVE_FLAG = 0x01"
definition EXPIRY_FLAG :: byte where "EXPIRY_FLAG = 0x02"
definition COUNTER_UPDATE_FLAG :: byte where "COUNTER_UPDATE_FLAG = 0x08"

abbreviation (input) flags_size :: nat where "flags_size \<equiv> 1"
abbreviation (input) timestamp_offset :: nat where "timestamp_offset \<equiv> 1"
abbreviation (input) timestamp_size :: nat where "timestamp_size \<equiv> 8"
abbreviation (input) expiry_offset :: nat where "expiry_offset \<equiv> 9"
abbreviation (input) expiry_size :: nat where "expiry_size \<equiv> 8"
abbreviation (input) deletion_time_offset :: nat where "deletion_time_offset \<equiv> 9"
abbreviation (input) deletion_time_size :: nat where "deletion_time_size \<equiv> 8"
abbreviation (input) ttl_offset :: nat where "ttl_offset \<equiv> 17"
abbreviation (input) ttl_size :: nat where "ttl_size \<equiv> 4"

text \<open>\<open>get_field\<close> and \<open>set_field\<close> for the two field types in use.\<close>

definition field_bytes :: "nat \<Rightarrow> bytes \<Rightarrow> nat \<Rightarrow> bytes option" where
  "field_bytes n b offset = (if length b < offset + n then None else Some (take n (drop offset b)))"

definition get_int64 :: "bytes \<Rightarrow> nat \<Rightarrow> int option" where
  "get_int64 b offset = map_option read_int64 (field_bytes 8 b offset)"

definition get_int32 :: "bytes \<Rightarrow> nat \<Rightarrow> int option" where
  "get_int32 b offset = map_option read_int32 (field_bytes 4 b offset)"

definition set_field :: "bytes \<Rightarrow> nat \<Rightarrow> bytes \<Rightarrow> bytes" where
  "set_field b offset val = take offset b @ val @ drop (offset + length val) b"

definition has_flag :: "byte \<Rightarrow> bytes \<Rightarrow> bool option" where
  "has_flag flag b = (case b of [] \<Rightarrow> None | x # _ \<Rightarrow> Some (x AND flag \<noteq> 0))"

definition raw_is_counter_update :: "bytes \<Rightarrow> bool option" where
  "raw_is_counter_update = has_flag COUNTER_UPDATE_FLAG"

definition raw_is_live :: "bytes \<Rightarrow> bool option" where
  "raw_is_live = has_flag LIVE_FLAG"

definition raw_is_live_and_has_ttl :: "bytes \<Rightarrow> bool option" where
  "raw_is_live_and_has_ttl = has_flag EXPIRY_FLAG"

definition raw_is_dead :: "bytes \<Rightarrow> bool option" where
  "raw_is_dead b = map_option Not (raw_is_live b)"

definition raw_timestamp :: "bytes \<Rightarrow> int option" where
  "raw_timestamp b = get_int64 b timestamp_offset"

definition raw_set_timestamp :: "bytes \<Rightarrow> int \<Rightarrow> bytes" where
  "raw_set_timestamp b ts = set_field b timestamp_offset (write_int64 ts)"

definition raw_value :: "bytes \<Rightarrow> bytes option" where
  "raw_value b = do {
     e \<leftarrow> has_flag EXPIRY_FLAG b;
     let value_offset = flags_size + timestamp_size + (if e then expiry_size + ttl_size else 0);
     if length b < value_offset then None else Some (drop value_offset b) }"

definition raw_counter_update_value :: "bytes \<Rightarrow> int option" where
  "raw_counter_update_value b = get_int64 b (flags_size + timestamp_size)"

definition assertO :: "bool \<Rightarrow> unit option" where
  "assertO P = (if P then Some () else None)"

definition raw_deletion_time :: "bytes \<Rightarrow> int option" where
  "raw_deletion_time b = do { d \<leftarrow> raw_is_dead b; assertO d; get_int64 b deletion_time_offset }"

definition raw_expiry :: "bytes \<Rightarrow> int option" where
  "raw_expiry b = do { e \<leftarrow> raw_is_live_and_has_ttl b; assertO e; get_int64 b expiry_offset }"

definition raw_ttl :: "bytes \<Rightarrow> int option" where
  "raw_ttl b = do { e \<leftarrow> raw_is_live_and_has_ttl b; assertO e; get_int32 b ttl_offset }"

text \<open>\<open>mem\<close> is what a buffer created with \<open>initialized_later\<close> holds.\<close>

definition initialized_later :: "(nat \<Rightarrow> byte) \<Rightarrow> nat \<Rightarrow> bytes" where
  "initialized_later mem n = map mem [0..<n]"

definition raw_make_dead :: "(nat \<Rightarrow> byte) \<Rightarrow> int \<Rightarrow> int \<Rightarrow> bytes" where
  "raw_make_dead mem timestamp deletion_time =
     (let b = initialized_later mem (flags_size + timestamp_size + deletion_time_size);
          b = b[0 := 0];
          b = set_field b timestamp_offset (write_int64 timestamp)
      in set_field b deletion_time_offset (write_int64 deletion_time))"

definition raw_make_live :: "(nat \<Rightarrow> byte) \<Rightarrow> int \<Rightarrow> bytes \<Rightarrow> bytes" where
  "raw_make_live mem timestamp value =
     (let value_offset = flags_size + timestamp_size;
          b = initialized_later mem (value_offset + length value);
          b = b[0 := LIVE_FLAG];
          b = set_field b timestamp_offset (write_int64 timestamp)
      in set_field b value_offset value)"

definition raw_make_live_counter_update :: "(nat \<Rightarrow> byte) \<Rightarrow> int \<Rightarrow> int \<Rightarrow> bytes" where
  "raw_make_live_counter_update mem timestamp value =
     (let value_offset = flags_size + timestamp_size;
          b = initialized_later mem (value_offset + 8);
          b = b[0 := LIVE_FLAG OR COUNTER_UPDATE_FLAG];
          b = set_field b timestamp_offset (write_int64 timestamp)
      in set_field b value_offset (write_int64 value))"

definition raw_make_live_expiring :: "(nat \<Rightarrow> byte) \<Rightarrow> int \<Rightarrow> bytes \<Rightarrow> int \<Rightarrow> int \<Rightarrow> bytes" where
  "raw_make_live_expiring mem timestamp value expiry ttl =
     (let value_offset = flags_size + timestamp_size + expiry_size + ttl_size;
          b = initialized_later mem (value_offset + length value);
          b = b[0 := EXPIRY_FLAG OR LIVE_FLAG];
          b = set_field b timestamp_offset (write_int64 timestamp);
          b = set_field b expiry_offset (write_int64 expiry);
          b = set_field b ttl_offset (write_int32 ttl)
      in set_field b value_offset value)"

definition raw_make_live_uninitialized :: "(nat \<Rightarrow> byte) \<Rightarrow> int \<Rightarrow> nat \<Rightarrow> bytes" where
  "raw_make_live_uninitialized mem timestamp sz =
     (let value_offset = flags_size + timestamp_size;
          b = initialized_later mem (value_offset + sz);
          b = b[0 := LIVE_FLAG]
      in set_field b timestamp_offset (write_int64 timestamp))"

definition to_u64 :: "int \<Rightarrow> int" where
  "to_u64 x = x mod 2 ^ 64"

text \<open>\<open>compare_unsigned\<close> of \<open>src/utils/fragment_range.hh\<close>, on the bytes of both views.\<close>

fun compare_unsigned :: "bytes \<Rightarrow> bytes \<Rightarrow> strong_ordering" where
  "compare_unsigned (x # xs) (y # ys) =
     (if x < y then Ord_less else if y < x then Ord_greater else compare_unsigned xs ys)"
| "compare_unsigned xs ys = three_way (length xs) (length ys)"

definition raw_cell_deletion_time :: "bytes \<Rightarrow> int option" where
  "raw_cell_deletion_time b = do {
     l \<leftarrow> raw_is_live b;
     if \<not> l then raw_deletion_time b else do { e \<leftarrow> raw_expiry b; t \<leftarrow> raw_ttl b; Some (e - t) } }"

definition raw_compare_live :: "bytes \<Rightarrow> bytes \<Rightarrow> strong_ordering option" where
  "raw_compare_live left right = do {
     le \<leftarrow> raw_is_live_and_has_ttl left;
     re \<leftarrow> raw_is_live_and_has_ttl right;
     if le \<noteq> re then Some (if le then Ord_greater else Ord_less)
     else do {
       tie \<leftarrow> (if le then do {
           lx \<leftarrow> raw_expiry left;
           rx \<leftarrow> raw_expiry right;
           lt \<leftarrow> raw_ttl left;
           rt \<leftarrow> raw_ttl right;
           Some (if lx \<noteq> rx then three_way lx rx else three_way rt lt) }
         else Some Ord_equal);
       if tie \<noteq> Ord_equal then Some tie
       else do { lv \<leftarrow> raw_value left; rv \<leftarrow> raw_value right; Some (compare_unsigned lv rv) } } }"

definition raw_compare_for_merge :: "bytes \<Rightarrow> bytes \<Rightarrow> strong_ordering option" where
  "raw_compare_for_merge left right = do {
     lts \<leftarrow> raw_timestamp left;
     rts \<leftarrow> raw_timestamp right;
     if lts \<noteq> rts then Some (three_way lts rts)
     else do {
       ll \<leftarrow> raw_is_live left;
       rl \<leftarrow> raw_is_live right;
       if ll \<noteq> rl then Some (if ll then Ord_less else Ord_greater)
       else if ll then raw_compare_live left right
       else do {
         ld \<leftarrow> raw_cell_deletion_time left;
         rd \<leftarrow> raw_cell_deletion_time right;
         Some (three_way (to_u64 ld) (to_u64 rd)) } } }"

section \<open>Cells by their meaning\<close>

datatype atomic_cell =
  Dead_cell int int
| Live_cell int bytes
| Expiring_cell int bytes int int
| Counter_update_cell int int

fun cell_bytes :: "(nat \<Rightarrow> byte) \<Rightarrow> atomic_cell \<Rightarrow> bytes" where
  "cell_bytes mem (Dead_cell ts dt) = raw_make_dead mem ts dt"
| "cell_bytes mem (Live_cell ts v) = raw_make_live mem ts v"
| "cell_bytes mem (Expiring_cell ts v e t) = raw_make_live_expiring mem ts v e t"
| "cell_bytes mem (Counter_update_cell ts v) = raw_make_live_counter_update mem ts v"

text \<open>The fields are within the range of their types, and so is the deletion time of a cell that expires.\<close>

fun cell_wf :: "atomic_cell \<Rightarrow> bool" where
  "cell_wf (Dead_cell ts dt) \<longleftrightarrow> int_range 64 ts \<and> int_range 64 dt"
| "cell_wf (Live_cell ts v) \<longleftrightarrow> int_range 64 ts"
| "cell_wf (Expiring_cell ts v e t) \<longleftrightarrow> int_range 64 ts \<and> int_range 64 e \<and> int_range 32 t \<and> int_range 64 (e - t)"
| "cell_wf (Counter_update_cell ts v) \<longleftrightarrow> int_range 64 ts \<and> int_range 64 v"

text \<open>The methods of \<open>basic_atomic_cell_view\<close>; \<open>None\<close> is a failed assertion.\<close>

fun cell_timestamp :: "atomic_cell \<Rightarrow> int" where
  "cell_timestamp (Dead_cell ts _) = ts"
| "cell_timestamp (Live_cell ts _) = ts"
| "cell_timestamp (Expiring_cell ts _ _ _) = ts"
| "cell_timestamp (Counter_update_cell ts _) = ts"

fun cell_is_live :: "atomic_cell \<Rightarrow> bool" where
  "cell_is_live (Dead_cell _ _) = False"
| "cell_is_live _ = True"

fun cell_is_live_and_has_ttl :: "atomic_cell \<Rightarrow> bool" where
  "cell_is_live_and_has_ttl (Expiring_cell _ _ _ _) = True"
| "cell_is_live_and_has_ttl _ = False"

fun cell_is_counter_update :: "atomic_cell \<Rightarrow> bool" where
  "cell_is_counter_update (Counter_update_cell _ _) = True"
| "cell_is_counter_update _ = False"

fun cell_value :: "atomic_cell \<Rightarrow> bytes" where
  "cell_value (Dead_cell _ dt) = write_int64 dt"
| "cell_value (Live_cell _ v) = v"
| "cell_value (Expiring_cell _ v _ _) = v"
| "cell_value (Counter_update_cell _ v) = write_int64 v"

fun cell_expiry :: "atomic_cell \<Rightarrow> int option" where
  "cell_expiry (Expiring_cell _ _ e _) = Some e"
| "cell_expiry _ = None"

fun cell_ttl :: "atomic_cell \<Rightarrow> int option" where
  "cell_ttl (Expiring_cell _ _ _ t) = Some t"
| "cell_ttl _ = None"

fun cell_deletion_time :: "atomic_cell \<Rightarrow> int option" where
  "cell_deletion_time (Dead_cell _ dt) = Some dt"
| "cell_deletion_time (Expiring_cell _ _ e t) = Some (e - t)"
| "cell_deletion_time _ = None"

definition cell_is_covered_by :: "atomic_cell \<Rightarrow> tombstone \<Rightarrow> bool \<Rightarrow> bool" where
  "cell_is_covered_by c t is_counter \<longleftrightarrow>
     cell_timestamp c \<le> tomb_timestamp t \<or> (is_counter \<and> tomb_timestamp t \<noteq> missing_timestamp)"

definition cell_has_expired :: "atomic_cell \<Rightarrow> int \<Rightarrow> bool" where
  "cell_has_expired c now \<longleftrightarrow> cell_is_live_and_has_ttl c \<and> the (cell_expiry c) \<le> now"

definition cell_is_live_at :: "atomic_cell \<Rightarrow> tombstone \<Rightarrow> int \<Rightarrow> bool \<Rightarrow> bool" where
  "cell_is_live_at c t now is_counter \<longleftrightarrow>
     cell_is_live c \<and> \<not> cell_is_covered_by c t is_counter \<and> \<not> cell_has_expired c now"

definition cell_is_dead_at :: "atomic_cell \<Rightarrow> int \<Rightarrow> bool" where
  "cell_is_dead_at c now \<longleftrightarrow> \<not> cell_is_live c \<or> cell_has_expired c now"

fun cell_set_timestamp :: "atomic_cell \<Rightarrow> int \<Rightarrow> atomic_cell" where
  "cell_set_timestamp (Dead_cell _ dt) ts = Dead_cell ts dt"
| "cell_set_timestamp (Live_cell _ v) ts = Live_cell ts v"
| "cell_set_timestamp (Expiring_cell _ v e t) ts = Expiring_cell ts v e t"
| "cell_set_timestamp (Counter_update_cell _ v) ts = Counter_update_cell ts v"

definition compare_atomic_cell_for_merge :: "atomic_cell \<Rightarrow> atomic_cell \<Rightarrow> strong_ordering" where
  "compare_atomic_cell_for_merge left right =
     (if cell_timestamp left \<noteq> cell_timestamp right
      then three_way (cell_timestamp left) (cell_timestamp right)
      else if cell_is_live left \<noteq> cell_is_live right
      then if cell_is_live left then Ord_less else Ord_greater
      else if cell_is_live left
      then
        if cell_is_live_and_has_ttl left \<noteq> cell_is_live_and_has_ttl right
        then if cell_is_live_and_has_ttl left then Ord_greater else Ord_less
        else if cell_is_live_and_has_ttl left \<and> the (cell_expiry left) \<noteq> the (cell_expiry right)
        then three_way (the (cell_expiry left)) (the (cell_expiry right))
        else if cell_is_live_and_has_ttl left \<and> the (cell_ttl right) \<noteq> the (cell_ttl left)
        then three_way (the (cell_ttl right)) (the (cell_ttl left))
        else compare_unsigned (cell_value left) (cell_value right)
      else three_way (to_u64 (the (cell_deletion_time left))) (to_u64 (the (cell_deletion_time right))))"

text \<open>\<open>atomic_cell_or_collection::equals\<close> for an atomic type.\<close>

definition cell_equals :: "atomic_cell \<Rightarrow> atomic_cell \<Rightarrow> bool" where
  "cell_equals a b =
     (if cell_timestamp a \<noteq> cell_timestamp b then False
      else if cell_is_live a \<noteq> cell_is_live b then False
      else if cell_is_live a
      then
        if cell_is_counter_update a \<noteq> cell_is_counter_update b then False
        else if cell_is_counter_update a then cell_value a = cell_value b
        else if cell_is_live_and_has_ttl a \<noteq> cell_is_live_and_has_ttl b then False
        else if cell_is_live_and_has_ttl a \<and> (cell_ttl a \<noteq> cell_ttl b \<or> cell_expiry a \<noteq> cell_expiry b) then False
        else cell_value a = cell_value b
      else cell_deletion_time a = cell_deletion_time b)"

section \<open>Layout\<close>

lemma initialized_later_first:
  "0 < n \<Longrightarrow> (initialized_later mem n)[0 := x] = x # map (\<lambda>i. mem (Suc i)) [0..<n - 1]"
  by (cases n) (simp_all add: initialized_later_def upt_conv_Cons map_Suc_upt[symmetric] del: upt_Suc)

lemma set_field_next:
  "length p = offset \<Longrightarrow> set_field (p @ r) offset val = p @ val @ drop (length val) r"
  by (simp add: set_field_def)

lemma cell_layout:
  "raw_make_dead mem ts dt = 0 # write_int64 ts @ write_int64 dt"
  "raw_make_live mem ts v = LIVE_FLAG # write_int64 ts @ v"
  "raw_make_live_expiring mem ts v e t = (EXPIRY_FLAG OR LIVE_FLAG) # write_int64 ts @ write_int64 e @ write_int32 t @ v"
  "raw_make_live_counter_update mem ts w = (LIVE_FLAG OR COUNTER_UPDATE_FLAG) # write_int64 ts @ write_int64 w"
  using set_field_next[of "[_]" 1] set_field_next[of "_ # write_int64 ts" 9]
    set_field_next[of "_ # write_int64 ts @ write_int64 e" 17]
    set_field_next[of "_ # write_int64 ts @ write_int64 e @ write_int32 t" 21]
  by (simp_all add: raw_make_dead_def raw_make_live_def raw_make_live_expiring_def raw_make_live_counter_update_def
    Let_def initialized_later_first drop_map del: upt_Suc)

lemma flag_bits:
  "EXPIRY_FLAG OR LIVE_FLAG = 3" "LIVE_FLAG OR COUNTER_UPDATE_FLAG = 9"
  "(0 :: byte) AND f = 0" "LIVE_FLAG \<noteq> 0" "LIVE_FLAG AND EXPIRY_FLAG = 0" "LIVE_FLAG AND COUNTER_UPDATE_FLAG = 0"
  "3 AND LIVE_FLAG \<noteq> 0" "3 AND EXPIRY_FLAG \<noteq> 0" "3 AND COUNTER_UPDATE_FLAG = 0"
  "9 AND LIVE_FLAG \<noteq> 0" "9 AND EXPIRY_FLAG = 0" "9 AND COUNTER_UPDATE_FLAG \<noteq> 0"
  by (simp_all add: LIVE_FLAG_def EXPIRY_FLAG_def COUNTER_UPDATE_FLAG_def)

lemmas raw_defs = raw_timestamp_def raw_is_live_def raw_is_live_and_has_ttl_def raw_is_counter_update_def raw_is_dead_def
  raw_value_def raw_expiry_def raw_ttl_def raw_deletion_time_def raw_cell_deletion_time_def raw_counter_update_value_def
  has_flag_def get_int64_def get_int32_def field_bytes_def assertO_def Let_def

text \<open>Reading a field of a serialized cell gives what the cell was made of.\<close>

lemma raw_view:
  assumes "cell_wf c"
  shows "raw_timestamp (cell_bytes mem c) = Some (cell_timestamp c)"
    "raw_is_live (cell_bytes mem c) = Some (cell_is_live c)"
    "raw_is_live_and_has_ttl (cell_bytes mem c) = Some (cell_is_live_and_has_ttl c)"
    "raw_is_counter_update (cell_bytes mem c) = Some (cell_is_counter_update c)"
    "raw_value (cell_bytes mem c) = Some (cell_value c)"
    "raw_expiry (cell_bytes mem c) = cell_expiry c"
    "raw_ttl (cell_bytes mem c) = cell_ttl c"
    "raw_cell_deletion_time (cell_bytes mem c) = cell_deletion_time c"
  using assms by (cases c; simp add: cell_layout flag_bits raw_defs)+

lemma raw_counter_value:
  "cell_wf (Counter_update_cell ts v) \<Longrightarrow> raw_counter_update_value (cell_bytes mem (Counter_update_cell ts v)) = Some v"
  by (simp add: cell_layout raw_defs)

lemma raw_set_timestamp_cell:
  "raw_set_timestamp (cell_bytes mem c) ts = cell_bytes mem (cell_set_timestamp c ts)"
  by (cases c) (simp_all add: cell_layout raw_set_timestamp_def set_field_def)

lemma three_way_neq_equal [simp]: "x \<noteq> y \<Longrightarrow> three_way x y \<noteq> Ord_equal"
  by (auto simp: three_way_def)

lemma raw_compare_cell:
  assumes "cell_wf c" "cell_wf d"
  shows "raw_compare_for_merge (cell_bytes mem c) (cell_bytes mem' d) = Some (compare_atomic_cell_for_merge c d)"
  unfolding raw_compare_for_merge_def raw_compare_live_def compare_atomic_cell_for_merge_def
    raw_view[OF assms(1)] raw_view[OF assms(2)]
  by (cases c; cases d) auto

section \<open>Order\<close>

lemma compare_unsigned_eq: "compare_unsigned xs ys = three_way xs ys"
proof (induction xs arbitrary: ys)
  case Nil
  show ?case by (cases ys) (auto simp: three_way_def)
next
  case (Cons x xs)
  then show ?case by (cases ys) (auto simp: three_way_def)
qed

text \<open>The attributes by which cells compare, the most important one first; the later ones of a dead cell are equal.\<close>

definition cell_key :: "atomic_cell \<Rightarrow> int \<times> bool \<times> bool \<times> int \<times> int \<times> bytes" where
  "cell_key c =
     (cell_timestamp c, \<not> cell_is_live c, cell_is_live_and_has_ttl c,
      (case cell_expiry c of Some e \<Rightarrow> e | None \<Rightarrow> if cell_is_live c then 0 else to_u64 (the (cell_deletion_time c))),
      (case cell_ttl c of Some t \<Rightarrow> - t | None \<Rightarrow> 0),
      if cell_is_live c then cell_value c else [])"

lemma compare_cell_key: "compare_atomic_cell_for_merge c d = three_way (cell_key c) (cell_key d)"
  by (cases c; cases d)
    (auto simp: compare_atomic_cell_for_merge_def cell_key_def compare_unsigned_eq three_way_def)

text \<open>The merge of two cells in a row: the second one replaces the first if it compares greater.\<close>

definition cell_merge :: "atomic_cell \<Rightarrow> atomic_cell \<Rightarrow> atomic_cell" where
  "cell_merge dst src = (if compare_atomic_cell_for_merge dst src = Ord_less then src else dst)"

lemma to_u64_inj: "int_range 64 x \<Longrightarrow> int_range 64 y \<Longrightarrow> to_u64 x = to_u64 y \<Longrightarrow> x = y"
proof -
  assume r: "int_range 64 x" "int_range 64 y" "to_u64 x = to_u64 y"
  have "\<bar>x - y\<bar> < 2 ^ 64" using r(1,2) by (auto simp: int_range_def)
  moreover have "2 ^ 64 dvd x - y" using r(3) unfolding to_u64_def by (simp only: mod_eq_dvd_iff)
  ultimately show "x = y" using zdvd_imp_le[of "2 ^ 64" "\<bar>x - y\<bar>"] by (cases "x = y") auto
qed

text \<open>The cells of a column that holds no counter.\<close>

definition plain_cells :: "atomic_cell set" where
  "plain_cells = {c. cell_wf c \<and> \<not> cell_is_counter_update c}"

lemma cell_key_inj: "inj_on cell_key plain_cells"
proof (rule inj_onI)
  fix c d assume "c \<in> plain_cells" "d \<in> plain_cells" "cell_key c = cell_key d"
  then show "c = d" by (cases c; cases d) (auto simp: plain_cells_def cell_key_def to_u64_inj)
qed

lemma tomb_compare_key: "tomb_compare a b = three_way (tomb_key a) (tomb_key b)"
  by (simp add: tomb_compare_def tomb_key_def three_way_pair)

lemma tomb_key_inj: "inj tomb_key"
  by (rule injI) (simp add: tomb_key_def)

interpretation tombs: keeps_greatest tomb_key tomb_apply
  by unfold_locales (simp add: tomb_apply_def tomb_compare_key)

interpretation cells: keeps_greatest cell_key cell_merge
  by unfold_locales (simp add: cell_merge_def compare_cell_key)

lemma cell_equals_iff: "c \<in> plain_cells \<Longrightarrow> d \<in> plain_cells \<Longrightarrow> cell_equals c d \<longleftrightarrow> c = d"
  by (cases c; cases d) (auto simp: cell_equals_def plain_cells_def)

lemma cell_compare_equal: "c \<in> plain_cells \<Longrightarrow> d \<in> plain_cells \<Longrightarrow> compare_atomic_cell_for_merge c d = Ord_equal \<longleftrightarrow> c = d"
  using cell_key_inj by (auto simp: compare_cell_key dest: inj_onD)

section \<open>Properties\<close>

text \<open>C27: The comparison that decides which of two writes wins refines the order of their attributes: read from the
  serialized cells, whatever the uninitialized memory they were built in held, it never fails an assertion or reads
  beyond the end, and its result is the lexicographic order of timestamp, liveness (deletions win), expiry (expiring
  cells win), latest expiry or deletion time as an unsigned number, smallest time to live and value.\<close>

theorem cell_compare_refines:
  assumes "cell_wf c" "cell_wf d"
  shows "raw_compare_for_merge (cell_bytes mem c) (cell_bytes mem' d) = Some (three_way (cell_key c) (cell_key d))"
  using raw_compare_cell[OF assms] by (simp add: compare_cell_key)

lemma cell_compare_refines_witness:
  "raw_compare_for_merge (cell_bytes (\<lambda>i. 7) (Expiring_cell 5 [1] 100 10)) (cell_bytes (\<lambda>i. 9) (Dead_cell 5 3)) = Some Ord_less"
  using cell_compare_refines[of "Expiring_cell 5 [1] 100 10" "Dead_cell 5 3"]
  by (simp add: int_range_def cell_key_def three_way_def)

text \<open>C28: Replicas agree on a cell: however often and in whichever order the same writes are merged, the same cell
  results, and it is one of the writes, greatest in the order of \<open>compare_atomic_cell_for_merge\<close>.\<close>

theorem cell_merge_converges:
  assumes "set (c # ws) = set (d # vs)" "set (c # ws) \<subseteq> plain_cells"
  shows "foldl cell_merge c ws = foldl cell_merge d vs \<and> foldl cell_merge c ws \<in> set (c # ws) \<and>
    (\<forall>w \<in> set (c # ws). compare_atomic_cell_for_merge w (foldl cell_merge c ws) \<noteq> Ord_greater)"
proof -
  have "foldl cell_merge c ws = foldl cell_merge d vs"
    using cells.convergence[OF assms(1)] inj_on_subset[OF cell_key_inj assms(2)] by blast
  moreover have "cell_key w \<le> cell_key (foldl cell_merge c ws)" if "w \<in> set (c # ws)" for w
    unfolding cells.key_foldl using that by (intro Max_ge) auto
  ultimately show ?thesis using cells.foldl_mem[of c ws] by (auto simp: compare_cell_key not_less)
qed

lemma cell_merge_converges_witness:
  "foldl cell_merge (Live_cell 1 [7]) [Dead_cell 2 0, Expiring_cell 2 [8] 50 5] =
   foldl cell_merge (Expiring_cell 2 [8] 50 5) [Live_cell 1 [7], Dead_cell 2 0, Live_cell 1 [7]]"
  using cell_merge_converges[of "Live_cell 1 [7]" "[Dead_cell 2 0, Expiring_cell 2 [8] 50 5]"
    "Expiring_cell 2 [8] 50 5" "[Live_cell 1 [7], Dead_cell 2 0, Live_cell 1 [7]]"]
  by (auto simp: plain_cells_def int_range_def)

end
