(* ===== verification/Combine.thy ===== *)
theory Combine
  imports Prelude
begin

text \<open>
  The merge of two sorted sequences without duplicates, \<open>src/combine.hh\<close>, which merges the shards of counters and
  the cells of collections. \<open>sorted_merge\<close> is what its callers provide: a comparison by a key and a function that
  merges elements with the same key. Its lemmas describe the result as a finite map.
\<close>

fun combine :: "('a \<Rightarrow> 'a \<Rightarrow> bool) \<Rightarrow> ('a \<Rightarrow> 'a \<Rightarrow> 'a) \<Rightarrow> 'a list \<Rightarrow> 'a list \<Rightarrow> 'a list" where
  "combine compare merge (e1 # xs) (e2 # ys) =
     (if compare e1 e2 then e1 # combine compare merge xs (e2 # ys)
      else if compare e2 e1 then e2 # combine compare merge (e1 # xs) ys
      else merge e1 e2 # combine compare merge xs ys)"
| "combine compare merge xs ys = xs @ ys"

declare combine.simps [simp del]

definition sorted_by :: "('a \<Rightarrow> 'k::linorder) \<Rightarrow> 'a list \<Rightarrow> bool" where
  "sorted_by key xs \<longleftrightarrow> sorted_wrt (\<lambda>x y. key x < key y) xs"

definition lookup_by :: "('a \<Rightarrow> 'k) \<Rightarrow> 'a list \<Rightarrow> 'k \<Rightarrow> 'a option" where
  "lookup_by key xs k = find (\<lambda>x. key x = k) xs"

lemma sorted_by_simps [simp]:
  "sorted_by key []" "sorted_by key (x # xs) \<longleftrightarrow> (\<forall>y \<in> set xs. key x < key y) \<and> sorted_by key xs"
  by (simp_all add: sorted_by_def)

lemma lookup_by_simps [simp]:
  "lookup_by key [] k = None" "lookup_by key (x # xs) k = (if key x = k then Some x else lookup_by key xs k)"
  by (simp_all add: lookup_by_def)

lemma lookup_by_None: "lookup_by key xs k = None \<longleftrightarrow> k \<notin> key ` set xs"
  by (induction xs) auto

lemma lookup_by_Some: "lookup_by key xs k = Some x \<Longrightarrow> x \<in> set xs \<and> key x = k"
  by (induction xs) (auto split: if_splits)

lemma lookup_by_sorted: "sorted_by key xs \<Longrightarrow> lookup_by key xs k = Some x \<longleftrightarrow> x \<in> set xs \<and> key x = k"
  by (induction xs) auto

lemma lookup_by_snoc:
  "lookup_by key (xs @ [x]) k =
     (case lookup_by key xs k of None \<Rightarrow> if key x = k then Some x else None | Some y \<Rightarrow> Some y)"
  by (induction xs) auto

lemma sorted_by_tail: "sorted_by key (x # xs) \<Longrightarrow> k \<le> key x \<Longrightarrow> lookup_by key xs k = None"
  by (auto simp: lookup_by_None)

lemma lookup_nth: "sorted_by key xs \<Longrightarrow> k < length xs \<Longrightarrow> lookup_by key xs (key (xs ! k)) = Some (xs ! k)"
  by (simp add: lookup_by_sorted)

lemma lookup_filter:
  "sorted_by key xs \<Longrightarrow> lookup_by key (filter P xs) k =
     (case lookup_by key xs k of None \<Rightarrow> None | Some x \<Rightarrow> if P x then Some x else None)"
proof (induction xs)
  case (Cons x xs)
  have "lookup_by key xs (key x) = None" using sorted_by_tail[OF Cons.prems order_refl] .
  then show ?case using Cons by (cases "key x = k") auto
qed simp

lemma sorted_by_distinct: "sorted_by key xs \<Longrightarrow> distinct (map key xs)"
  by (induction xs) auto

text \<open>Skipping the smaller elements leads to the one with the key, if there is one.\<close>

lemma lookup_dropWhile:
  "(i :: 'k::linorder) \<le> j \<Longrightarrow> lookup_by key (dropWhile (\<lambda>b. key b < i) B) j = lookup_by key B j"
  by (induction B) auto

lemma lookup_first:
  "sorted_by key B \<Longrightarrow> lookup_by key B i =
     (let bs = dropWhile (\<lambda>b. key b < i) B in if bs = [] \<or> i \<noteq> key (hd bs) then None else Some (hd bs))"
proof (induction B)
  case (Cons b B)
  show ?case
  proof (cases "key b < i")
    case True
    then show ?thesis using Cons by (auto simp: Let_def)
  next
    case False
    then have "lookup_by key B i = None" using Cons.prems by (auto simp: lookup_by_None)
    then show ?thesis using False by simp
  qed
qed simp

text \<open>A sorted sequence is determined by the map that it stands for.\<close>

lemma sorted_by_ext:
  "sorted_by key xs \<Longrightarrow> sorted_by key ys \<Longrightarrow> (\<And>k. lookup_by key xs k = lookup_by key ys k) \<Longrightarrow> xs = ys"
proof (induction xs arbitrary: ys)
  case Nil
  then have "key ` set ys = {}" by (metis lookup_by_None lookup_by_simps(1) equals0I)
  then show ?case by simp
next
  case (Cons x xs)
  have "lookup_by key ys (key x) = Some x" using Cons.prems(3)[of "key x"] by simp
  then obtain y zs where ys: "ys = y # zs" by (cases ys) auto
  have "lookup_by key (x # xs) (key y) = Some y" using Cons.prems(3)[of "key y"] ys by simp
  then have "y \<in> set (x # xs)" by (blast dest: lookup_by_Some)
  moreover have "x \<in> set (y # zs)" using \<open>lookup_by key ys (key x) = Some x\<close> ys by (blast dest: lookup_by_Some)
  ultimately have xy: "x = y" using Cons.prems(1,2) ys by fastforce
  have "lookup_by key xs k = lookup_by key zs k" for k
  proof (cases "k = key x")
    case True
    then have "lookup_by key xs k = None" "lookup_by key zs k = None"
      using sorted_by_tail[of key x xs k] sorted_by_tail[of key y zs k] Cons.prems(1,2) ys xy by (simp_all only: order_refl)
    then show ?thesis by (simp only:)
  qed (use Cons.prems(3)[of k] ys xy in simp)
  then show ?case using Cons.IH[of zs] Cons.prems(1,2) ys xy by simp
qed

locale sorted_merge =
  fixes key :: "'a \<Rightarrow> 'k::linorder" and compare :: "'a \<Rightarrow> 'a \<Rightarrow> bool" and merge :: "'a \<Rightarrow> 'a \<Rightarrow> 'a"
  assumes compare_key: "compare x y \<longleftrightarrow> key x < key y"
    and merge_key: "key x = key y \<Longrightarrow> key (merge x y) = key x"
begin

definition merge_options :: "'a option \<Rightarrow> 'a option \<Rightarrow> 'a option" where
  "merge_options a b = (case a of None \<Rightarrow> b | Some x \<Rightarrow> (case b of None \<Rightarrow> Some x | Some y \<Rightarrow> Some (merge x y)))"

lemma merge_options_simps [simp]:
  "merge_options None b = b" "merge_options a None = a" "merge_options (Some x) (Some y) = Some (merge x y)"
  by (auto simp: merge_options_def split: option.splits)

lemma combine_simps [simp]:
  "combine compare merge [] ys = ys" "combine compare merge xs [] = xs"
  "key x < key y \<Longrightarrow> combine compare merge (x # xs) (y # ys) = x # combine compare merge xs (y # ys)"
  "key y < key x \<Longrightarrow> combine compare merge (x # xs) (y # ys) = y # combine compare merge (x # xs) ys"
  "key x = key y \<Longrightarrow> combine compare merge (x # xs) (y # ys) = merge x y # combine compare merge xs ys"
proof -
  show "combine compare merge xs [] = xs" by (cases xs) (simp_all add: combine.simps)
qed (auto simp: compare_key combine.simps)

lemma combine_cases_induct [case_names nil_left nil_right less greater equal]:
  assumes "\<And>ys. P [] ys" "\<And>xs. P xs []"
    "\<And>x xs y ys. key x < key y \<Longrightarrow> P xs (y # ys) \<Longrightarrow> P (x # xs) (y # ys)"
    "\<And>x xs y ys. key y < key x \<Longrightarrow> P (x # xs) ys \<Longrightarrow> P (x # xs) (y # ys)"
    "\<And>x xs y ys. key x = key y \<Longrightarrow> P xs ys \<Longrightarrow> P (x # xs) (y # ys)"
  shows "P xs ys"
proof (induction "length xs + length ys" arbitrary: xs ys rule: less_induct)
  case less
  show ?case
  proof (cases xs; cases ys)
    fix x xs' y ys' assume xy: "xs = x # xs'" "ys = y # ys'"
    then have "P xs' (y # ys')" "P (x # xs') ys'" "P xs' ys'" using less by simp_all
    then show ?thesis unfolding xy by (cases "key x" "key y" rule: linorder_cases) (auto intro: assms(3-5))
  qed (use assms(1,2) in auto)
qed

lemma combine_keys: "key ` set (combine compare merge xs ys) = key ` set xs \<union> key ` set ys"
proof (induction xs ys rule: combine_cases_induct)
  case (equal x xs y ys)
  then show ?case by (simp add: merge_key)
qed (simp_all add: insert_commute)

lemma combine_above:
  "(\<And>x. x \<in> set xs \<union> set ys \<Longrightarrow> k < key x) \<Longrightarrow> z \<in> set (combine compare merge xs ys) \<Longrightarrow> k < key z"
proof -
  assume above: "\<And>x. x \<in> set xs \<union> set ys \<Longrightarrow> k < key x" and "z \<in> set (combine compare merge xs ys)"
  then have "key z \<in> key ` set xs \<union> key ` set ys" using combine_keys[of xs ys] by blast
  then show ?thesis using above by auto
qed

lemma combine_sorted:
  "sorted_by key xs \<Longrightarrow> sorted_by key ys \<Longrightarrow> sorted_by key (combine compare merge xs ys)"
proof (induction xs ys rule: combine_cases_induct)
  case (less x xs y ys)
  have "key x < key z" if "z \<in> set (combine compare merge xs (y # ys))" for z
    by (rule combine_above[OF _ that]) (use less in \<open>auto intro: less_trans\<close>)
  then show ?case using less by simp
next
  case (greater x xs y ys)
  have "key y < key z" if "z \<in> set (combine compare merge (x # xs) ys)" for z
    by (rule combine_above[OF _ that]) (use greater in \<open>auto intro: less_trans\<close>)
  then show ?case using greater by simp
next
  case (equal x xs y ys)
  have "key x < key z" if "z \<in> set (combine compare merge xs ys)" for z
    by (rule combine_above[OF _ that]) (use equal in auto)
  then show ?case using equal by (simp add: merge_key)
qed simp_all

lemma lookup_combine:
  "sorted_by key xs \<Longrightarrow> sorted_by key ys \<Longrightarrow>
   lookup_by key (combine compare merge xs ys) k = merge_options (lookup_by key xs k) (lookup_by key ys k)"
proof (induction xs ys rule: combine_cases_induct)
  case (less x xs y ys)
  then have "lookup_by key ys (key x) = None" "key y \<noteq> key x" by (auto simp: lookup_by_None)
  then show ?case using less by (cases "k = key x") simp_all
next
  case (greater x xs y ys)
  then have "lookup_by key xs (key y) = None" "key x \<noteq> key y" by (auto simp: lookup_by_None)
  then show ?case using greater by (cases "k = key y") simp_all
next
  case (equal x xs y ys)
  then show ?case by (simp add: merge_key)
qed simp_all

end

end
