(* ===== verification/Counters.thy ===== *)
theory Counters
  imports Atomic_Cell Combine
begin

text \<open>
  Counter cells: \<open>src/counters.hh\<close> and \<open>src/counters.cc\<close>. The value of a live counter cell is a sequence of
  shards, one for each node that has counted, ordered by the identifier of the node. A shard is written in the byte
  order of the machine, little-endian here. Merging two cells keeps, for each node, the shard with the higher clock;
  the code does so in place if it can. Sums of values are of 64 bits and wrap around. \<open>None\<close> is a failed assertion, or an
  iterator that leaves the shards, from where its loop does not come back.
\<close>

section \<open>Model\<close>

type_synonym counter_id = "128 word"

record counter_shard =
  sh_id :: counter_id
  sh_value :: int
  sh_logical_clock :: int

definition wrap64 :: "int \<Rightarrow> int" where
  "wrap64 x = signed_take_bit 63 x"

text \<open>\<open>counter_shard\<close>; its numbers wrap around.\<close>

definition shard_apply :: "counter_shard \<Rightarrow> counter_shard \<Rightarrow> counter_shard" where
  "shard_apply s other =
     (let other_clock = sh_logical_clock other
      in if sh_logical_clock s < other_clock
         then s\<lparr>sh_logical_clock := other_clock, sh_value := sh_value other\<rparr> else s)"

definition shard_update :: "counter_shard \<Rightarrow> int \<Rightarrow> int \<Rightarrow> counter_shard" where
  "shard_update s value_delta clock_increment =
     s\<lparr>sh_value := wrap64 (sh_value s + value_delta), sh_logical_clock := wrap64 (sh_logical_clock s + clock_increment)\<rparr>"

definition native_int64 :: "int \<Rightarrow> bytes" where
  "native_int64 x = rev (write_int64 x)"

definition native_read_int64 :: "bytes \<Rightarrow> int" where
  "native_read_int64 bs = read_int64 (rev bs)"

text \<open>A \<open>counter_id\<close> is a \<open>UUID\<close>: the most significant half, then the other one.\<close>

definition native_id :: "counter_id \<Rightarrow> bytes" where
  "native_id i = rev (be_bytes 8 (ucast (drop_bit 64 i) :: u64)) @ rev (be_bytes 8 (ucast i :: u64))"

definition native_read_id :: "bytes \<Rightarrow> counter_id" where
  "native_read_id bs = push_bit 64 (ucast (be_word (rev (take 8 bs)))) OR ucast (be_word (rev (take 8 (drop 8 bs))))"

definition shard_size :: nat where
  "shard_size = 32"

definition shard_serialize :: "counter_shard \<Rightarrow> bytes" where
  "shard_serialize s = native_id (sh_id s) @ native_int64 (sh_value s) @ native_int64 (sh_logical_clock s)"

definition shard_view :: "bytes \<Rightarrow> counter_shard" where
  "shard_view b =
     \<lparr>sh_id = native_read_id (take 16 b), sh_value = native_read_int64 (take 8 (drop 16 b)),
      sh_logical_clock = native_read_int64 (take 8 (drop 24 b))\<rparr>"

text \<open>Iterating over the shards of a value steps by the size of a shard until it is at the end.\<close>

function shards_of :: "bytes \<Rightarrow> counter_shard list option" where
  "shards_of v =
     (if v = [] then Some []
      else if length v < shard_size then None
      else map_option ((#) (shard_view v)) (shards_of (drop shard_size v)))"
  by pat_completeness auto
termination by (relation "measure length") (auto simp: shard_size_def)

declare shards_of.simps [simp del]

definition builder_serialize :: "counter_shard list \<Rightarrow> bytes" where
  "builder_serialize shards = concat (map shard_serialize shards)"

text \<open>\<open>counter_cell_builder\<close>.\<close>

record counter_cell_builder =
  bld_shards :: "counter_shard list"
  bld_sorted :: bool

definition make_builder :: counter_cell_builder where
  "make_builder = \<lparr>bld_shards = [], bld_sorted = True\<rparr>"

definition add_shard :: "counter_cell_builder \<Rightarrow> counter_shard \<Rightarrow> counter_cell_builder" where
  "add_shard b cs = b\<lparr>bld_shards := bld_shards b @ [cs]\<rparr>"

definition add_maybe_unsorted_shard :: "counter_cell_builder \<Rightarrow> counter_shard \<Rightarrow> counter_cell_builder" where
  "add_maybe_unsorted_shard b cs =
     (let b = add_shard b cs
      in if bld_sorted b \<and> length (bld_shards b) > 1
         then b\<lparr>bld_sorted := sh_id (last (bld_shards b)) > sh_id (last (butlast (bld_shards b)))\<rparr>
         else b)"

text \<open>The loop over the sorted shards; \<open>std::sort\<close> is a sort by identifier.\<close>

fun remove_duplicates :: "counter_shard list \<Rightarrow> counter_shard list \<Rightarrow> counter_shard list" where
  "remove_duplicates new_shards [] = new_shards"
| "remove_duplicates new_shards (cs # rest) =
     (if new_shards = [] \<or> sh_id (last new_shards) \<noteq> sh_id cs
      then remove_duplicates (new_shards @ [cs]) rest
      else remove_duplicates (butlast new_shards @ [shard_apply (last new_shards) cs]) rest)"

definition do_sort_and_remove_duplicates :: "counter_cell_builder \<Rightarrow> counter_cell_builder" where
  "do_sort_and_remove_duplicates b =
     b\<lparr>bld_shards := remove_duplicates [] (sort_key sh_id (bld_shards b)), bld_sorted := True\<rparr>"

definition sort_and_remove_duplicates :: "counter_cell_builder \<Rightarrow> counter_cell_builder" where
  "sort_and_remove_duplicates b = (if \<not> bld_sorted b then do_sort_and_remove_duplicates b else b)"

definition builder_build :: "counter_cell_builder \<Rightarrow> int \<Rightarrow> atomic_cell" where
  "builder_build b timestamp = Live_cell timestamp (builder_serialize (bld_shards b))"

definition from_single_shard :: "int \<Rightarrow> counter_shard \<Rightarrow> atomic_cell" where
  "from_single_shard timestamp cs = Live_cell timestamp (shard_serialize cs)"

text \<open>\<open>basic_counter_cell_view\<close>, whose constructor asserts that the cell is live and no update.\<close>

definition counter_shards :: "atomic_cell \<Rightarrow> counter_shard list option" where
  "counter_shards c =
     (if cell_is_live c \<and> \<not> cell_is_counter_update c then shards_of (cell_value c) else None)"

definition shard_count :: "atomic_cell \<Rightarrow> nat" where
  "shard_count c = length (cell_value c) div shard_size"

definition total_value :: "atomic_cell \<Rightarrow> int option" where
  "total_value c = map_option (foldl (\<lambda>v cs. wrap64 (v + sh_value cs)) 0) (counter_shards c)"

definition get_shard :: "atomic_cell \<Rightarrow> counter_id \<Rightarrow> counter_shard option option" where
  "get_shard c i = map_option (find (\<lambda>cs. sh_id cs = i)) (counter_shards c)"

section \<open>Merging in place\<close>

text \<open>The state is the shards of both cells; \<open>di\<close> and \<open>si\<close> are the positions of the iterators.\<close>

definition set_value_and_clock :: "counter_shard \<Rightarrow> counter_shard \<Rightarrow> counter_shard" where
  "set_value_and_clock s other = s\<lparr>sh_value := sh_value other, sh_logical_clock := sh_logical_clock other\<rparr>"

definition swap_at :: "counter_shard list \<Rightarrow> counter_shard list \<Rightarrow> nat \<Rightarrow> nat \<Rightarrow> counter_shard list \<times> counter_shard list" where
  "swap_at dst src di si =
     (dst[di := set_value_and_clock (dst ! di) (src ! si)], src[si := set_value_and_clock (src ! si) (dst ! di)])"

function skip_smaller :: "counter_shard list \<Rightarrow> counter_id \<Rightarrow> nat \<Rightarrow> nat" where
  "skip_smaller dst i di =
     (if di < length dst \<and> sh_id (dst ! di) < i then skip_smaller dst i (di + 1) else di)"
  by pat_completeness auto
termination by (relation "measure (\<lambda>(dst, i, di). length dst - di)") auto

declare skip_smaller.simps [simp del]

fun back_to :: "counter_shard list \<Rightarrow> counter_id \<Rightarrow> nat \<Rightarrow> nat option" where
  "back_to dst i 0 = (if dst \<noteq> [] \<and> sh_id (dst ! 0) = i then Some 0 else None)"
| "back_to dst i (Suc di) =
     (if length dst \<le> Suc di then None else if sh_id (dst ! Suc di) \<noteq> i then back_to dst i di else Some (Suc di))"

fun revert_loop :: "counter_shard list \<Rightarrow> counter_shard list \<Rightarrow> nat \<Rightarrow> nat \<Rightarrow>
    (counter_shard list \<times> counter_shard list) option" where
  "revert_loop dst src di 0 = Some (dst, src)"
| "revert_loop dst src di (Suc si) = do {
     di \<leftarrow> back_to dst (sh_id (src ! si)) di;
     let (dst', src') = swap_at dst src di si;
     revert_loop dst' src' di si }"

function in_place_loop :: "counter_shard list \<Rightarrow> counter_shard list \<Rightarrow> nat \<Rightarrow> nat \<Rightarrow>
    (bool \<times> counter_shard list \<times> counter_shard list) option" where
  "in_place_loop dst src di si =
     (if length src \<le> si then Some (True, dst, src)
      else
        let di = skip_smaller dst (sh_id (src ! si)) di
        in if length dst \<le> di \<or> sh_id (dst ! di) \<noteq> sh_id (src ! si)
           then if length dst \<le> di \<and> di = 0 then None
                else map_option (Pair False) (revert_loop dst src (if length dst \<le> di then di - 1 else di) si)
           else
             let (dst, src) =
               (if sh_logical_clock (dst ! di) < sh_logical_clock (src ! si) then swap_at dst src di si
                else (dst, src[si := set_value_and_clock (src ! si) (dst ! di)]))
             in in_place_loop dst src di (si + 1))"
  by pat_completeness auto
termination
  by (relation "measure (\<lambda>(dst, src, di, si). length src - si)") (auto simp: swap_at_def split: if_splits)

declare in_place_loop.simps [simp del]

text \<open>Both cells are updated in their memory, which keeps their flags; the result tells whether the fast path succeeded.\<close>

fun cell_with_value :: "atomic_cell \<Rightarrow> bytes \<Rightarrow> atomic_cell" where
  "cell_with_value (Live_cell ts _) v = Live_cell ts v"
| "cell_with_value (Expiring_cell ts _ e t) v = Expiring_cell ts v e t"
| "cell_with_value c _ = c"

definition apply_in_place :: "atomic_cell \<Rightarrow> atomic_cell \<Rightarrow> (bool \<times> atomic_cell \<times> atomic_cell) option" where
  "apply_in_place dst src = do {
     dst_shards \<leftarrow> counter_shards dst;
     src_shards \<leftarrow> counter_shards src;
     (ok, d, s) \<leftarrow> in_place_loop dst_shards src_shards 0 0;
     let dst_ts = cell_timestamp dst;
     let src_ts = cell_timestamp src;
     let dst = cell_with_value dst (builder_serialize d);
     let src = cell_with_value src (builder_serialize s);
     if ok then Some (True, cell_set_timestamp dst (max dst_ts src_ts), cell_set_timestamp src dst_ts)
     else Some (False, dst, src) }"

section \<open>Merging and differences\<close>

definition shard_less_compare :: "counter_shard \<Rightarrow> counter_shard \<Rightarrow> bool" where
  "shard_less_compare x y \<longleftrightarrow> sh_id x < sh_id y"

definition later_shard :: "counter_shard \<Rightarrow> counter_shard \<Rightarrow> counter_shard" where
  "later_shard x y = (if sh_logical_clock x < sh_logical_clock y then y else x)"

definition combine_cells :: "atomic_cell \<Rightarrow> atomic_cell \<Rightarrow> (atomic_cell \<times> atomic_cell) option" where
  "combine_cells dst src = do {
     dst_shards \<leftarrow> counter_shards dst;
     src_shards \<leftarrow> counter_shards src;
     let result = foldl add_shard make_builder (combine shard_less_compare later_shard dst_shards src_shards);
     Some (builder_build result (max (cell_timestamp dst) (cell_timestamp src)), dst) }"

definition counter_apply :: "atomic_cell \<Rightarrow> atomic_cell \<Rightarrow> (atomic_cell \<times> atomic_cell) option" where
  "counter_apply dst src =
     (if \<not> cell_is_live dst \<or> \<not> cell_is_live src
      then
        if cell_is_live dst \<or> (\<not> cell_is_live src \<and> compare_atomic_cell_for_merge dst src = Ord_less)
        then Some (src, dst) else Some (dst, src)
      else
        case (dst, src) of
          (Counter_update_cell dst_ts dst_v, Counter_update_cell src_ts src_v) \<Rightarrow>
            Some (Counter_update_cell (max dst_ts src_ts) (wrap64 (src_v + dst_v)), src)
        | _ \<Rightarrow>
            if cell_is_counter_update dst \<or> cell_is_counter_update src then None
            else if shard_count dst \<ge> shard_count src
            then do {
              (ok, dst, src) \<leftarrow> apply_in_place dst src;
              if ok then Some (dst, src) else combine_cells dst src }
            else combine_cells dst src)"

primrec difference_loop :: "counter_shard list \<Rightarrow> counter_shard list \<Rightarrow> counter_cell_builder \<Rightarrow> counter_cell_builder" where
  "difference_loop [] bs result = result"
| "difference_loop (a # as) bs result =
     (let bs = dropWhile (\<lambda>b. sh_id b < sh_id a) bs
      in difference_loop as bs
           (if bs = [] \<or> sh_id a \<noteq> sh_id (hd bs) \<or> sh_logical_clock a > sh_logical_clock (hd bs)
            then add_shard result a else result))"

definition counter_difference :: "atomic_cell \<Rightarrow> atomic_cell \<Rightarrow> atomic_cell option option" where
  "counter_difference a b =
     (if cell_is_counter_update a \<or> cell_is_counter_update b then None
      else if \<not> cell_is_live b \<or> \<not> cell_is_live a
      then Some (if cell_is_live b \<or> (\<not> cell_is_live a \<and> compare_atomic_cell_for_merge b a = Ord_less) then Some a else None)
      else do {
        a_shards \<leftarrow> counter_shards a;
        b_shards \<leftarrow> counter_shards b;
        let result = difference_loop a_shards b_shards make_builder;
        Some (if bld_shards result \<noteq> [] then Some (builder_build result (max (cell_timestamp a) (cell_timestamp b)))
              else if cell_timestamp a > cell_timestamp b then Some (Live_cell (cell_timestamp a) []) else None) })"

section \<open>Serialization\<close>

definition shard_wf :: "counter_shard \<Rightarrow> bool" where
  "shard_wf s \<longleftrightarrow> int_range 64 (sh_value s) \<and> int_range 64 (sh_logical_clock s)"

lemma native_id_round_trip: "native_read_id (native_id i) = i"
proof (rule bit_word_eqI)
  fix k assume "k < LENGTH(128)"
  moreover have "be_word (be_bytes 8 w) = w" for w :: u64 using be_word_bytes[of 8 w] by (simp add: take_bit_word_eq_self)
  ultimately show "bit (native_read_id (native_id i)) k = bit i k"
    by (cases "k < 64") (auto simp: native_read_id_def native_id_def bit_simps)
qed

lemma length_native [simp]: "length (native_id i) = 16" "length (native_int64 x) = 8"
  by (simp_all add: native_id_def native_int64_def)

lemma shard_round_trip: "shard_wf s \<Longrightarrow> shard_view (shard_serialize s @ rest) = s"
  by (simp add: shard_view_def shard_serialize_def native_id_round_trip native_read_int64_def native_int64_def shard_wf_def)

lemma length_shard_serialize [simp]: "length (shard_serialize s) = 32"
  by (simp add: shard_serialize_def)

lemma shard_serialize_nonempty [simp]: "shard_serialize s \<noteq> []"
  using length_shard_serialize[of s] by (metis list.size(3) zero_neq_numeral)

lemma length_builder_serialize [simp]: "length (builder_serialize ss) = 32 * length ss"
  by (induction ss) (simp_all add: builder_serialize_def)

lemma shards_of_serialize: "\<forall>s \<in> set ss. shard_wf s \<Longrightarrow> shards_of (builder_serialize ss) = Some ss"
proof (induction ss)
  case Nil
  then show ?case by (simp add: shards_of.simps builder_serialize_def)
next
  case (Cons s ss)
  have "builder_serialize (s # ss) = shard_serialize s @ builder_serialize ss" by (simp add: builder_serialize_def)
  then show ?case using Cons shard_round_trip[of s]
    by (subst shards_of.simps) (auto simp: shard_size_def)
qed

text \<open>A live counter cell.\<close>

definition counter_cell :: "int \<Rightarrow> counter_shard list \<Rightarrow> atomic_cell" where
  "counter_cell ts ss = Live_cell ts (builder_serialize ss)"

definition shards_wf :: "counter_shard list \<Rightarrow> bool" where
  "shards_wf ss \<longleftrightarrow> sorted_by sh_id ss \<and> (\<forall>s \<in> set ss. shard_wf s)"

lemma counter_cell_simps [simp]:
  "cell_is_live (counter_cell ts ss)" "\<not> cell_is_counter_update (counter_cell ts ss)"
  "cell_timestamp (counter_cell ts ss) = ts" "shard_count (counter_cell ts ss) = length ss"
  by (simp_all add: counter_cell_def shard_count_def shard_size_def)

lemma counter_shards_cell [simp]: "shards_wf ss \<Longrightarrow> counter_shards (counter_cell ts ss) = Some ss"
  by (simp add: counter_shards_def counter_cell_def shards_of_serialize shards_wf_def)

section \<open>Positions\<close>

text \<open>Where the iterator over \<open>dst\<close> stops for an identifier.\<close>

definition pos :: "counter_shard list \<Rightarrow> counter_id \<Rightarrow> nat" where
  "pos xs i = length (takeWhile (\<lambda>x. sh_id x < i) xs)"

lemma pos_ids: "map sh_id xs = map sh_id ys \<Longrightarrow> pos xs i = pos ys i"
proof (induction xs arbitrary: ys)
  case (Cons x xs)
  then obtain y ys' where "ys = y # ys'" by (cases ys) auto
  then show ?case using Cons by (auto simp: pos_def)
qed (simp add: pos_def)

lemma pos_le: "pos xs i \<le> length xs"
  by (simp add: pos_def length_takeWhile_le)

lemma pos_mono: "i \<le> j \<Longrightarrow> pos xs i \<le> pos xs j"
  unfolding pos_def by (induction xs) (auto dest: less_le_trans)

lemma pos_found: "sorted_by sh_id xs \<Longrightarrow> i \<in> sh_id ` set xs \<Longrightarrow> pos xs i < length xs \<and> sh_id (xs ! pos xs i) = i"
  by (induction xs) (auto simp: pos_def)

lemma pos_lookup: "sorted_by sh_id xs \<Longrightarrow> i \<in> sh_id ` set xs \<Longrightarrow> lookup_by sh_id xs i = Some (xs ! pos xs i)"
  by (induction xs) (auto simp: pos_def)

lemma pos_below: "j < pos xs i \<Longrightarrow> sh_id (xs ! j) < i"
  by (metis (mono_tags, lifting) nth_mem pos_def set_takeWhileD takeWhile_nth)

lemma skip_smaller_pos:
  "di \<le> pos xs i \<Longrightarrow> skip_smaller xs i di = pos xs i"
proof (induction xs i di rule: skip_smaller.induct)
  case (1 xs i di)
  show ?case
  proof (cases "di < pos xs i")
    case True
    then have "di < length xs" "sh_id (xs ! di) < i" using pos_le[of xs i] pos_below[of di xs i] by auto
    then show ?thesis using 1 True by (subst skip_smaller.simps) simp
  next
    case False
    then have d: "di = pos xs i" using 1 by simp
    have "\<not> sh_id (xs ! pos xs i) < i" if "pos xs i < length xs"
      using that nth_length_takeWhile[of "\<lambda>x. sh_id x < i" xs] by (simp add: pos_def)
    then show ?thesis by (subst skip_smaller.simps) (auto simp: d)
  qed
qed

lemma back_to_pos:
  assumes "sorted_by sh_id xs" "i \<in> sh_id ` set xs"
  shows "pos xs i \<le> di \<Longrightarrow> di < length xs \<Longrightarrow> back_to xs i di = Some (pos xs i)"
proof (induction di)
  case 0
  then show ?case using pos_found[OF assms] by auto
next
  case (Suc di)
  have "sh_id (xs ! Suc di) = i \<longleftrightarrow> pos xs i = Suc di"
    using pos_found[OF assms] sorted_by_distinct[OF assms(1)] Suc.prems(2)
    by (metis length_map nth_eq_iff_index_eq nth_map)
  then show ?case using Suc pos_found[OF assms] by auto
qed

section \<open>The fast path\<close>

interpretation shards: sorted_merge sh_id shard_less_compare later_shard
  by unfold_locales (auto simp: shard_less_compare_def later_shard_def)

text \<open>The shards of both cells while the loop is at position \<open>n\<close> of \<open>src\<close>, and while it is undone: what was at
  position \<open>m\<close> when the loop gave up is back at \<open>n\<close>.\<close>

definition partner :: "counter_shard list \<Rightarrow> counter_shard \<Rightarrow> counter_shard" where
  "partner D s = D ! pos D (sh_id s)"

definition dst_at :: "counter_shard list \<Rightarrow> counter_shard list \<Rightarrow> nat \<Rightarrow> counter_shard list" where
  "dst_at D S n = map (\<lambda>d. case lookup_by sh_id (take n S) (sh_id d) of None \<Rightarrow> d | Some s \<Rightarrow> later_shard d s) D"

definition src_at :: "counter_shard list \<Rightarrow> counter_shard list \<Rightarrow> nat \<Rightarrow> nat \<Rightarrow> counter_shard list" where
  "src_at D S n m =
     map (\<lambda>k. if k < n then partner D (S ! k) else if k < m then later_shard (partner D (S ! k)) (S ! k) else S ! k)
       [0..<length S]"

lemma set_value_and_clock_same: "sh_id x = sh_id y \<Longrightarrow> set_value_and_clock x y = y"
  by (simp add: set_value_and_clock_def)

lemma lengths_at [simp]: "length (dst_at D S n) = length D" "length (src_at D S n m) = length S"
  by (simp_all add: dst_at_def src_at_def)

lemma sh_id_later: "sh_id d = sh_id s \<Longrightarrow> sh_id (later_shard d s) = sh_id s"
  by (simp add: later_shard_def)

lemma dst_at_ids: "map sh_id (dst_at D S n) = map sh_id D"
proof -
  have "sh_id (case lookup_by sh_id (take n S) (sh_id d) of None \<Rightarrow> d | Some s \<Rightarrow> later_shard d s) = sh_id d" for d
    by (auto simp: sh_id_later split: option.splits dest: lookup_by_Some)
  then show ?thesis by (simp add: dst_at_def)
qed

lemma dst_at_0 [simp]: "dst_at D S 0 = D"
  by (simp add: dst_at_def)

lemma src_at_0 [simp]: "src_at D S 0 0 = S"
  by (simp add: src_at_def map_nth)

definition both_sorted :: "counter_shard list \<Rightarrow> counter_shard list \<Rightarrow> bool" where
  "both_sorted D S \<longleftrightarrow> sorted_by sh_id D \<and> sorted_by sh_id S"

definition matched :: "counter_shard list \<Rightarrow> counter_shard list \<Rightarrow> nat \<Rightarrow> bool" where
  "matched D S n \<longleftrightarrow> n \<le> length S \<and> (\<forall>k < n. sh_id (S ! k) \<in> sh_id ` set D)"

lemma sorted_ids: "sorted_by sh_id xs \<Longrightarrow> j < k \<Longrightarrow> k < length xs \<Longrightarrow> sh_id (xs ! j) < sh_id (xs ! k)"
  by (simp add: sorted_by_def sorted_wrt_iff_nth_less)

lemma partner_id: "both_sorted D S \<Longrightarrow> matched D S m \<Longrightarrow> k < m \<Longrightarrow> sh_id (partner D (S ! k)) = sh_id (S ! k)"
  using pos_found[of D "sh_id (S ! k)"] by (simp add: partner_def both_sorted_def matched_def)

text \<open>The element of \<open>dst\<close> with the identifier of position \<open>n\<close> of \<open>src\<close> is the one that differs between two steps.\<close>

lemma lookup_take_Suc:
  assumes "sorted_by sh_id S" "n < length S"
  shows "lookup_by sh_id (take (Suc n) S) i = (if i = sh_id (S ! n) then Some (S ! n) else lookup_by sh_id (take n S) i)"
    "lookup_by sh_id (take n S) (sh_id (S ! n)) = None"
proof -
  have "sh_id s < sh_id (S ! n)" if "s \<in> set (take n S)" for s
    using that assms sorted_ids[OF assms(1)] by (auto simp: in_set_conv_nth)
  then show n: "lookup_by sh_id (take n S) (sh_id (S ! n)) = None" by (fastforce simp: lookup_by_None)
  show "lookup_by sh_id (take (Suc n) S) i = (if i = sh_id (S ! n) then Some (S ! n) else lookup_by sh_id (take n S) i)"
    using n assms(2) by (simp add: take_Suc_conv_app_nth lookup_by_snoc split: option.splits)
qed

lemma dst_at_Suc:
  assumes "both_sorted D S" "matched D S (Suc n)"
  shows "dst_at D S (Suc n) = (dst_at D S n)[pos D (sh_id (S ! n)) := later_shard (partner D (S ! n)) (S ! n)]"
    "dst_at D S n ! pos D (sh_id (S ! n)) = partner D (S ! n)"
    "dst_at D S n = (dst_at D S (Suc n))[pos D (sh_id (S ! n)) := partner D (S ! n)]"
proof -
  let ?p = "pos D (sh_id (S ! n))"
  have n: "n < length S" and p: "?p < length D" "sh_id (D ! ?p) = sh_id (S ! n)"
    using assms pos_found[of D "sh_id (S ! n)"] by (auto simp: both_sorted_def matched_def)
  note l = lookup_take_Suc[OF conjunct2[OF assms(1)[unfolded both_sorted_def]] n]
  have u: "sh_id (D ! j) = sh_id (S ! n) \<longleftrightarrow> j = ?p" if "j < length D" for j
    using that p sorted_by_distinct[of sh_id D] assms(1) unfolding both_sorted_def
    by (metis length_map nth_eq_iff_index_eq nth_map)
  show q: "dst_at D S n ! ?p = partner D (S ! n)" using p l(2) by (simp add: dst_at_def partner_def)
  show "dst_at D S (Suc n) = (dst_at D S n)[?p := later_shard (partner D (S ! n)) (S ! n)]"
    by (rule nth_equalityI) (use p u l in \<open>auto simp: dst_at_def nth_list_update partner_def\<close>)
  then show "dst_at D S n = (dst_at D S (Suc n))[?p := partner D (S ! n)]" using q by simp (metis list_update_id)
qed

lemma src_at_Suc:
  assumes "n < length S"
  shows "n < m \<Longrightarrow> (src_at D S (Suc n) m)[n := later_shard (partner D (S ! n)) (S ! n)] = src_at D S n m"
    "(src_at D S n n)[n := partner D (S ! n)] = src_at D S (Suc n) (Suc n)"
    "src_at D S (Suc n) m ! n = partner D (S ! n)" "src_at D S n n ! n = S ! n"
  using assms by (auto intro!: nth_equalityI simp: src_at_def nth_list_update less_Suc_eq)

lemma sorted_dst_at: "sorted_by sh_id D \<Longrightarrow> sorted_by sh_id (dst_at D S n)"
  using dst_at_ids[of D S n] by (metis sorted_by_def sorted_wrt_map)

lemma ids_dst_at: "sh_id ` set (dst_at D S n) = sh_id ` set D"
  using dst_at_ids[of D S n] by (metis list.set_map)

lemma pos_dst_at: "pos (dst_at D S n) i = pos D i"
  by (rule pos_ids) (rule dst_at_ids)

lemma revert_loop_correct:
  assumes "both_sorted D S" "matched D S m"
  shows "n \<le> m \<Longrightarrow> (0 < n \<longrightarrow> pos D (sh_id (S ! (n - 1))) \<le> di \<and> di < length D) \<Longrightarrow>
    revert_loop (dst_at D S n) (src_at D S n m) di n = Some (D, src_at D S 0 m)"
proof (induction n arbitrary: di)
  case 0
  then show ?case by simp
next
  case (Suc n)
  let ?p = "pos D (sh_id (S ! n))" and ?s = "S ! n"
  have n: "n < m" "n < length S" and mn: "matched D S (Suc n)" using Suc.prems assms(2) by (auto simp: matched_def)
  have id: "sh_id ?s \<in> sh_id ` set D" using mn by (simp add: matched_def)
  have D: "sorted_by sh_id D" using assms(1) by (simp add: both_sorted_def)
  have p: "?p < length D" using pos_found[OF D id] by simp
  have pid: "sh_id (partner D ?s) = sh_id ?s" by (rule partner_id[OF assms n(1)])
  have b: "back_to (dst_at D S (Suc n)) (sh_id ?s) di = Some ?p"
    using back_to_pos[OF sorted_dst_at[OF D, of S "Suc n"], of "sh_id ?s" di] id Suc.prems(2) by (simp add: ids_dst_at pos_dst_at)
  have "dst_at D S (Suc n) ! ?p = later_shard (partner D ?s) ?s"
    using dst_at_Suc(1)[OF assms(1) mn] p by simp
  then have sw: "swap_at (dst_at D S (Suc n)) (src_at D S (Suc n) m) ?p n = (dst_at D S n, src_at D S n m)"
    using pid dst_at_Suc(3)[OF assms(1) mn] src_at_Suc(1,3)[OF n(2)] n(1)
    by (simp add: swap_at_def set_value_and_clock_same sh_id_later)
  have "revert_loop (dst_at D S n) (src_at D S n m) ?p n = Some (D, src_at D S 0 m)"
  proof (rule Suc.IH)
    show "0 < n \<longrightarrow> pos D (sh_id (S ! (n - 1))) \<le> ?p \<and> ?p < length D"
      using p n(2) sorted_ids[of S "n - 1" n] assms(1) by (auto simp: both_sorted_def intro!: pos_mono)
  qed (use n in simp)
  then show ?case using b sw pid src_at_Suc(3)[OF n(2), of D m] by simp
qed

lemma in_place_loop_correct:
  assumes "both_sorted D S" "D = [] \<Longrightarrow> S = []"
  shows "matched D S si \<Longrightarrow> (\<And>k. si \<le> k \<Longrightarrow> k < length S \<Longrightarrow> di \<le> pos D (sh_id (S ! k))) \<Longrightarrow>
    if matched D S (length S)
    then in_place_loop (dst_at D S si) (src_at D S si si) di si =
      Some (True, dst_at D S (length S), src_at D S (length S) (length S))
    else \<exists>m. matched D S m \<and> in_place_loop (dst_at D S si) (src_at D S si si) di si = Some (False, D, src_at D S 0 m)"
proof (induction "length S - si" arbitrary: si di)
  case 0
  then have "si = length S" by (simp add: matched_def)
  then show ?case using 0 by (subst (1 2) in_place_loop.simps) auto
next
  case (Suc l)
  let ?s = "S ! si" and ?p = "pos D (sh_id (S ! si))"
  have si: "si < length S" using Suc(2) by simp
  have D: "sorted_by sh_id D" and S: "sorted_by sh_id S" using assms(1) by (simp_all add: both_sorted_def)
  have sk: "skip_smaller (dst_at D S si) (sh_id ?s) di = ?p"
    using skip_smaller_pos[of di "dst_at D S si" "sh_id ?s"] Suc.prems(2)[of si] si by (simp add: pos_dst_at)
  show ?case
  proof (cases "sh_id ?s \<in> sh_id ` set D")
    case True
    then have m: "matched D S (Suc si)" using Suc.prems(1) si by (auto simp: matched_def less_Suc_eq)
    have p: "?p < length D" "sh_id (partner D ?s) = sh_id ?s"
      using pos_found[OF D True] by (simp_all add: partner_def)
    have step: "(if sh_logical_clock (partner D ?s) < sh_logical_clock ?s
        then swap_at (dst_at D S si) (src_at D S si si) ?p si
        else (dst_at D S si, (src_at D S si si)[si := set_value_and_clock ?s (partner D ?s)])) =
      (dst_at D S (Suc si), src_at D S (Suc si) (Suc si))"
      using p(2) dst_at_Suc[OF assms(1) m] src_at_Suc(2,4)[OF si, of D]
      by (auto simp: swap_at_def set_value_and_clock_same later_shard_def)
    have "in_place_loop (dst_at D S si) (src_at D S si si) di si =
        in_place_loop (dst_at D S (Suc si)) (src_at D S (Suc si) (Suc si)) ?p (Suc si)"
      using si sk p step dst_at_Suc(2)[OF assms(1) m] src_at_Suc(4)[OF si, of D]
      by (subst in_place_loop.simps) (auto simp: Let_def split: if_splits)
    moreover have "?p \<le> pos D (sh_id (S ! k))" if "Suc si \<le> k" "k < length S" for k
      using sorted_ids[OF S, of si k] that by (auto intro!: pos_mono)
    ultimately show ?thesis using Suc.hyps(1)[of "Suc si" ?p] Suc.hyps(2) m by simp
  next
    case False
    then have nm: "\<not> matched D S (length S)" using si by (auto simp: matched_def)
    have "\<not> (?p < length D \<and> sh_id (dst_at D S si ! ?p) = sh_id ?s)"
      using False dst_at_ids[of D S si] by (metis image_eqI length_map nth_map nth_mem)
    moreover have "0 < ?p" if "length D \<le> ?p" using that assms(2) si by (cases D) auto
    ultimately have "in_place_loop (dst_at D S si) (src_at D S si si) di si =
        map_option (Pair False) (revert_loop (dst_at D S si) (src_at D S si si) (if length D \<le> ?p then ?p - 1 else ?p) si)"
      using si sk src_at_Suc(4)[OF si, of D] by (subst in_place_loop.simps) (auto simp: Let_def)
    moreover have "revert_loop (dst_at D S si) (src_at D S si si) (if length D \<le> ?p then ?p - 1 else ?p) si =
        Some (D, src_at D S 0 si)"
    proof (rule revert_loop_correct[OF assms(1) Suc.prems(1)])
      have "pos D (sh_id (S ! (si - 1))) < length D" if "0 < si"
        using Suc.prems(1) that pos_found[OF D, of "sh_id (S ! (si - 1))"] by (simp add: matched_def)
      moreover have "pos D (sh_id (S ! (si - 1))) \<le> ?p" if "0 < si"
        using sorted_ids[OF S, of "si - 1" si] that si by (auto intro!: pos_mono)
      ultimately show "0 < si \<longrightarrow> pos D (sh_id (S ! (si - 1))) \<le> (if length D \<le> ?p then ?p - 1 else ?p) \<and>
          (if length D \<le> ?p then ?p - 1 else ?p) < length D"
        using pos_le[of D "sh_id ?s"] by auto
    qed simp
    ultimately show ?thesis using nm Suc.prems(1) by auto
  qed
qed

lemma later_wf: "shard_wf d \<Longrightarrow> shard_wf s \<Longrightarrow> shard_wf (later_shard d s)"
  by (simp add: later_shard_def)

lemma combine_wf: "shards_wf D \<Longrightarrow> shards_wf S \<Longrightarrow> shards_wf (combine shard_less_compare later_shard D S)"
proof -
  assume wf: "shards_wf D" "shards_wf S"
  have "\<forall>s \<in> set D \<union> set S. shard_wf s \<Longrightarrow> \<forall>s \<in> set (combine shard_less_compare later_shard D S). shard_wf s"
    by (induction D S rule: shards.combine_cases_induct) (auto simp: later_wf)
  then show ?thesis using wf shards.combine_sorted[of D S] by (auto simp: shards_wf_def)
qed

lemma lookup_map_ids:
  "(\<And>x. sh_id (f x) = sh_id x) \<Longrightarrow> lookup_by sh_id (map f xs) i = map_option f (lookup_by sh_id xs i)"
  by (induction xs) auto

lemma dst_at_all:
  assumes "both_sorted D S" "matched D S (length S)"
  shows "dst_at D S (length S) = combine shard_less_compare later_shard D S"
proof (rule sorted_by_ext)
  have D: "sorted_by sh_id D" and S: "sorted_by sh_id S" using assms by (simp_all add: both_sorted_def)
  show "sorted_by sh_id (dst_at D S (length S))" by (rule sorted_dst_at[OF D])
  show "sorted_by sh_id (combine shard_less_compare later_shard D S)" by (rule shards.combine_sorted[OF D S])
  fix i
  let ?f = "\<lambda>d. case lookup_by sh_id S (sh_id d) of None \<Rightarrow> d | Some s \<Rightarrow> later_shard d s"
  have "sh_id (?f d) = sh_id d" for d by (auto simp: sh_id_later split: option.splits dest: lookup_by_Some)
  then have "lookup_by sh_id (dst_at D S (length S)) i = map_option ?f (lookup_by sh_id D i)"
    by (simp add: dst_at_def lookup_map_ids)
  moreover have "lookup_by sh_id S i = None" if "lookup_by sh_id D i = None"
    using that assms(2) unfolding lookup_by_None matched_def by (auto simp: in_set_conv_nth)
  ultimately show "lookup_by sh_id (dst_at D S (length S)) i = lookup_by sh_id (combine shard_less_compare later_shard D S) i"
    using lookup_by_Some[of sh_id D i]
    by (cases "lookup_by sh_id D i"; cases "lookup_by sh_id S i") (simp_all add: shards.lookup_combine[OF D S])
qed

lemma src_at_ids: "both_sorted D S \<Longrightarrow> matched D S m \<Longrightarrow> map sh_id (src_at D S 0 m) = map sh_id S"
  by (rule nth_equalityI) (simp_all add: src_at_def partner_id sh_id_later)

lemma src_at_reverted:
  assumes "both_sorted D S" "matched D S m"
  shows "sorted_by sh_id (src_at D S 0 m)"
    "combine shard_less_compare later_shard D (src_at D S 0 m) = combine shard_less_compare later_shard D S"
proof -
  let ?S = "src_at D S 0 m"
  have D: "sorted_by sh_id D" and S: "sorted_by sh_id S" using assms by (simp_all add: both_sorted_def)
  show S': "sorted_by sh_id ?S" using src_at_ids[OF assms] S by (metis sorted_by_def sorted_wrt_map)
  have "shards.merge_options (lookup_by sh_id D i) (lookup_by sh_id ?S i) =
      shards.merge_options (lookup_by sh_id D i) (lookup_by sh_id S i)" for i
  proof (cases "i \<in> sh_id ` set S")
    case True
    then obtain k where k: "k < length S" "i = sh_id (S ! k)" by (auto simp: in_set_conv_nth)
    then have i: "i = sh_id (?S ! k)" using src_at_ids[OF assms] by (metis length_map nth_map)
    have l: "lookup_by sh_id S i = Some (S ! k)" "lookup_by sh_id ?S i = Some (?S ! k)"
      using lookup_nth[OF S k(1)] lookup_nth[OF S', of k] k(1) by (simp_all add: k(2)[symmetric] i[symmetric])
    show ?thesis
    proof (cases "k < m")
      case True
      then have "lookup_by sh_id D i = Some (partner D (S ! k))"
        using pos_lookup[OF D, of i] assms(2) by (simp add: matched_def partner_def k(2))
      moreover have "?S ! k = later_shard (partner D (S ! k)) (S ! k)" using True k(1) by (simp add: src_at_def)
      ultimately show ?thesis using l by (simp add: later_shard_def)
    qed (use l k(1) in \<open>simp add: src_at_def\<close>)
  next
    case False
    then have "lookup_by sh_id S i = None" "lookup_by sh_id ?S i = None"
      using src_at_ids[OF assms] by (auto simp: lookup_by_None) (metis imageI list.set_map)
    then show ?thesis by simp
  qed
  then show "combine shard_less_compare later_shard D ?S = combine shard_less_compare later_shard D S"
    by (intro sorted_by_ext[of sh_id]) (simp_all add: shards.combine_sorted D S S' shards.lookup_combine)
qed

lemma src_at_wf:
  assumes "shards_wf D" "shards_wf S" "matched D S m"
  shows "shards_wf (src_at D S 0 m)"
proof -
  have b: "both_sorted D S" using assms(1,2) by (simp add: both_sorted_def shards_wf_def)
  have "shard_wf (partner D (S ! k))" if "k < m" for k
    using assms(1,3) that pos_found[of D "sh_id (S ! k)"] by (auto simp: partner_def shards_wf_def matched_def)
  then have "\<forall>s \<in> set (src_at D S 0 m). shard_wf s"
    using assms(2) by (auto simp: src_at_def shards_wf_def intro!: later_wf)
  then show ?thesis using src_at_reverted(1)[OF b assms(3)] by (simp add: shards_wf_def)
qed

lemma foldl_add_shard: "bld_shards (foldl add_shard b ss) = bld_shards b @ ss"
  by (induction ss arbitrary: b) (simp_all add: add_shard_def)

lemma combine_cells_correct:
  "shards_wf D \<Longrightarrow> shards_wf S \<Longrightarrow> combine_cells (counter_cell t D) (counter_cell u S) =
     Some (counter_cell (max t u) (combine shard_less_compare later_shard D S), counter_cell t D)"
  by (simp add: combine_cells_def builder_build_def foldl_add_shard make_builder_def) (simp add: counter_cell_def)

lemma apply_in_place_correct:
  assumes "shards_wf D" "shards_wf S" "D = [] \<Longrightarrow> S = []"
  shows "if matched D S (length S)
    then \<exists>src'. apply_in_place (counter_cell t D) (counter_cell u S) =
      Some (True, counter_cell (max t u) (combine shard_less_compare later_shard D S), src')
    else \<exists>m. matched D S m \<and> apply_in_place (counter_cell t D) (counter_cell u S) =
      Some (False, counter_cell t D, counter_cell u (src_at D S 0 m))"
proof -
  have b: "both_sorted D S" using assms(1,2) by (simp add: both_sorted_def shards_wf_def)
  have "matched D S 0" by (simp add: matched_def)
  note l = in_place_loop_correct[OF b assms(3) this, of 0]
  show ?thesis
  proof (cases "matched D S (length S)")
    case True
    then show ?thesis using l assms(1,2) dst_at_all[OF b True] by (auto simp: apply_in_place_def) (auto simp: counter_cell_def)
  next
    case False
    then show ?thesis using l assms(1,2) by (auto simp: apply_in_place_def) (auto simp: counter_cell_def)
  qed
qed

lemma counter_apply_shards:
  assumes "shards_wf D" "shards_wf S"
  shows "\<exists>src'. counter_apply (counter_cell t D) (counter_cell u S) =
    Some (counter_cell (max t u) (combine shard_less_compare later_shard D S), src')"
proof -
  have b: "both_sorted D S" using assms by (simp add: both_sorted_def shards_wf_def)
  have eq: "counter_apply (counter_cell t D) (counter_cell u S) =
      (if length S \<le> length D
       then do {
         (ok, dst, src) \<leftarrow> apply_in_place (counter_cell t D) (counter_cell u S);
         if ok then Some (dst, src) else combine_cells dst src }
       else combine_cells (counter_cell t D) (counter_cell u S))"
    by (simp add: counter_apply_def shard_count_def shard_size_def counter_cell_def)
  show ?thesis
  proof (cases "length S \<le> length D")
    case True
    then have "D = [] \<Longrightarrow> S = []" by simp
    note a = apply_in_place_correct[OF assms this, of t u]
    then show ?thesis
      using True eq combine_cells_correct[OF assms(1) src_at_wf[OF assms], of _ t u] src_at_reverted(2)[OF b]
      by (cases "matched D S (length S)") auto
  qed (use eq combine_cells_correct[OF assms, of t u] in simp)
qed

section \<open>Differences\<close>

definition newer :: "counter_shard list \<Rightarrow> counter_shard \<Rightarrow> bool" where
  "newer B a \<longleftrightarrow> (case lookup_by sh_id B (sh_id a) of None \<Rightarrow> True | Some b \<Rightarrow> sh_logical_clock a > sh_logical_clock b)"

lemma difference_loop_newer:
  "sorted_by sh_id A \<Longrightarrow> sorted_by sh_id B \<Longrightarrow>
   bld_shards (difference_loop A B r) = bld_shards r @ filter (newer B) A"
proof (induction A arbitrary: B r)
  case (Cons a A)
  let ?B = "dropWhile (\<lambda>b. sh_id b < sh_id a) B"
  have n: "newer B a \<longleftrightarrow> ?B = [] \<or> sh_id a \<noteq> sh_id (hd ?B) \<or> sh_logical_clock a > sh_logical_clock (hd ?B)"
    using lookup_first[OF Cons.prems(2), of "sh_id a"] by (auto simp: newer_def Let_def)
  have "sorted_by sh_id ?B" using Cons.prems(2) unfolding sorted_by_def by (rule sorted_wrt_dropWhile)
  moreover have "filter (newer ?B) A = filter (newer B) A"
  proof (rule filter_cong)
    fix x assume "x \<in> set A"
    then have "sh_id a \<le> sh_id x" using Cons.prems(1) by (auto intro: less_imp_le)
    then show "newer ?B x = newer B x" by (simp add: newer_def lookup_dropWhile)
  qed simp
  ultimately have "bld_shards (difference_loop A ?B r') = bld_shards r' @ filter (newer B) A" for r'
    using Cons by simp
  then show ?case using n by (simp add: Let_def add_shard_def)
qed simp

lemma combine_newer:
  assumes "sorted_by sh_id A" "sorted_by sh_id B"
  shows "combine shard_less_compare later_shard B (filter (newer B) A) = combine shard_less_compare later_shard B A"
proof (rule sorted_by_ext)
  have f: "sorted_by sh_id (filter (newer B) A)" using assms(1) unfolding sorted_by_def by (rule sorted_wrt_filter)
  then show "sorted_by sh_id (combine shard_less_compare later_shard B (filter (newer B) A))"
    "sorted_by sh_id (combine shard_less_compare later_shard B A)"
    using shards.combine_sorted assms by auto
  fix i
  have "newer B a \<longleftrightarrow> sh_logical_clock b < sh_logical_clock a"
    if "lookup_by sh_id A i = Some a" "lookup_by sh_id B i = Some b" for a b
    using that lookup_by_Some[OF that(1)] by (simp add: newer_def)
  moreover have "newer B a" if "lookup_by sh_id A i = Some a" "lookup_by sh_id B i = None" for a
    using that lookup_by_Some[OF that(1)] by (simp add: newer_def)
  ultimately show "lookup_by sh_id (combine shard_less_compare later_shard B (filter (newer B) A)) i =
      lookup_by sh_id (combine shard_less_compare later_shard B A) i"
    using assms f
    by (cases "lookup_by sh_id A i"; cases "lookup_by sh_id B i")
      (simp_all add: shards.lookup_combine lookup_filter later_shard_def)
qed

section \<open>Properties\<close>

text \<open>C29: Merging two live counter cells never fails, whether it succeeds in place, gives up half-way and is
  undone, or builds a new cell: the result has the later timestamp and, for each node that either cell knows, the
  shard with the higher clock (that of the first cell if the clocks are equal), in order.\<close>

theorem counter_apply_correct:
  assumes "shards_wf D" "shards_wf S"
  shows "\<exists>M src'. counter_apply (counter_cell t D) (counter_cell u S) = Some (counter_cell (max t u) M, src') \<and>
    shards_wf M \<and>
    (\<forall>i. lookup_by sh_id M i =
      (case (lookup_by sh_id D i, lookup_by sh_id S i) of
         (None, s) \<Rightarrow> s
       | (Some d, None) \<Rightarrow> Some d
       | (Some d, Some s) \<Rightarrow> Some (if sh_logical_clock d < sh_logical_clock s then s else d)))"
proof -
  have "lookup_by sh_id (combine shard_less_compare later_shard D S) i =
      (case (lookup_by sh_id D i, lookup_by sh_id S i) of
         (None, s) \<Rightarrow> s
       | (Some d, None) \<Rightarrow> Some d
       | (Some d, Some s) \<Rightarrow> Some (if sh_logical_clock d < sh_logical_clock s then s else d))" for i
    using assms by (auto simp: shards.lookup_combine shards_wf_def later_shard_def split: option.splits)
  then show ?thesis using counter_apply_shards[OF assms, of t u] combine_wf[OF assms] by blast
qed

text \<open>The states a counter cell has once the updates of clients are turned into shards.\<close>

definition counter_state :: "atomic_cell \<Rightarrow> bool" where
  "counter_state c \<longleftrightarrow> (\<exists>ts dt. c = Dead_cell ts dt) \<or> (\<exists>ts ss. c = counter_cell ts ss \<and> shards_wf ss)"

lemma counter_difference_live:
  assumes "shards_wf A" "shards_wf B"
  shows "counter_difference (counter_cell t A) (counter_cell u B) =
    Some (if filter (newer B) A \<noteq> [] then Some (counter_cell (max t u) (filter (newer B) A))
          else if t > u then Some (counter_cell t []) else None)"
proof -
  have "bld_shards (difference_loop A B make_builder) = filter (newer B) A"
    using assms by (simp add: difference_loop_newer shards_wf_def make_builder_def)
  then show ?thesis using assms
    by (simp add: counter_difference_def builder_build_def Let_def)
      (simp add: counter_cell_def builder_serialize_def)
qed

lemma counter_difference_sum:
  assumes "counter_state a" "counter_state b"
  shows "\<exists>d r. counter_difference a b = Some d \<and> map_option fst (counter_apply b a) = Some r \<and>
    (case d of None \<Rightarrow> r = b | Some x \<Rightarrow> counter_state x \<and> map_option fst (counter_apply b x) = Some r)"
proof -
  have dead: ?thesis if "\<not> cell_is_live a \<or> \<not> cell_is_live b"
    using that assms by (auto simp: counter_state_def counter_difference_def counter_apply_def)
  have live: ?thesis if "a = counter_cell t A" "b = counter_cell u B" "shards_wf A" "shards_wf B" for t u A B
  proof -
    let ?F = "filter (newer B) A"
    have f: "shards_wf ?F" "shards_wf []" using that(3) by (auto simp: shards_wf_def sorted_by_def sorted_wrt_filter)
    have app: "map_option fst (counter_apply b (counter_cell v S)) =
        Some (counter_cell (max u v) (combine shard_less_compare later_shard B S))" if "shards_wf S" for v S
      using counter_apply_shards[OF \<open>shards_wf B\<close> that, of u v] \<open>b = _\<close> by auto
    have c: "combine shard_less_compare later_shard B ?F = combine shard_less_compare later_shard B A"
      using combine_newer that(3,4) by (simp add: shards_wf_def)
    then have "combine shard_less_compare later_shard B A = B" if "?F = []" using that by simp
    moreover have "counter_state (counter_cell (max t u) ?F)" "counter_state (counter_cell t [])"
      using f unfolding counter_state_def by blast+
    ultimately show ?thesis
      using app[OF that(3), of t] app[OF f(1), of "max t u"] app[OF f(2), of t] c that counter_difference_live[OF that(3,4), of t u]
      by (auto simp: max_def)
  qed
  show ?thesis
  proof (cases "cell_is_live a \<and> cell_is_live b")
    case True
    then obtain t A u B where "a = counter_cell t A" "b = counter_cell u B" "shards_wf A" "shards_wf B"
      using assms unfolding counter_state_def by (metis cell_is_live.simps(1))
    then show ?thesis by (rule live)
  qed (use dead in blast)
qed

lemma newer_clock:
  assumes "sorted_by sh_id B" "newer B a" "b \<in> set B" "sh_id b = sh_id a"
  shows "sh_logical_clock b < sh_logical_clock a"
proof -
  obtain k where "k < length B" "b = B ! k" using assms(3) by (auto simp: in_set_conv_nth)
  then have "lookup_by sh_id B (sh_id a) = Some b" using lookup_nth[OF assms(1), of k] assms(4) by simp
  then show ?thesis using assms(2) by (simp add: newer_def)
qed

lemma counter_difference_newer:
  assumes "counter_state a" "counter_state b" "counter_difference a b = Some (Some x)" "counter_shards x = Some xs"
    "counter_shards a = Some as" "counter_shards b = Some bs"
  shows "set xs \<subseteq> set as \<and> (\<forall>s \<in> set xs. \<forall>s' \<in> set bs. sh_id s' = sh_id s \<longrightarrow> sh_logical_clock s' < sh_logical_clock s)"
proof -
  have "cell_is_live a" "cell_is_live b" using assms(5,6) by (simp_all add: counter_shards_def split: if_splits)
  then obtain t A u B where c: "a = counter_cell t A" "b = counter_cell u B" "shards_wf A" "shards_wf B"
    using assms(1,2) unfolding counter_state_def by (metis cell_is_live.simps(1))
  then have ab: "as = A" "bs = B" using assms(5,6) by simp_all
  have f: "shards_wf (filter (newer B) A)" "shards_wf []" using c(3) by (auto simp: shards_wf_def sorted_by_def sorted_wrt_filter)
  have "x = counter_cell (max t u) (filter (newer B) A) \<or> x = counter_cell t []"
    using assms(3) counter_difference_live[OF c(3,4), of t u] c(1,2) by (auto split: if_splits)
  then have "set xs \<subseteq> set (filter (newer B) A)" using assms(4) f by auto
  then show ?thesis using newer_clock[of B] c(4) unfolding ab shards_wf_def by auto
qed

text \<open>C31: As its comment says, the difference of two counter cells holds what applied to the second one gives the
  same cell as the first one applied to it; there is none only if the first one adds nothing. It holds no more than
  that: its shards are shards of the first cell, and each is for a node that the second cell does not know, or has a
  higher clock than the shard of the second cell.\<close>

theorem counter_difference_correct:
  assumes "counter_state a" "counter_state b"
  shows "\<exists>d r. counter_difference a b = Some d \<and> map_option fst (counter_apply b a) = Some r \<and>
    (case d of None \<Rightarrow> r = b | Some x \<Rightarrow> map_option fst (counter_apply b x) = Some r) \<and>
    (\<forall>x xs as bs. d = Some x \<and> counter_shards x = Some xs \<and> counter_shards a = Some as \<and> counter_shards b = Some bs \<longrightarrow>
       set xs \<subseteq> set as \<and> (\<forall>s \<in> set xs. \<forall>s' \<in> set bs. sh_id s' = sh_id s \<longrightarrow> sh_logical_clock s' < sh_logical_clock s))"
proof -
  obtain d r where d: "counter_difference a b = Some d" "map_option fst (counter_apply b a) = Some r"
    "case d of None \<Rightarrow> r = b | Some x \<Rightarrow> map_option fst (counter_apply b x) = Some r"
    using counter_difference_sum[OF assms] by (auto split: option.splits)
  have "set xs \<subseteq> set as \<and> (\<forall>s \<in> set xs. \<forall>s' \<in> set bs. sh_id s' = sh_id s \<longrightarrow> sh_logical_clock s' < sh_logical_clock s)"
    if "d = Some x" "counter_shards x = Some xs" "counter_shards a = Some as" "counter_shards b = Some bs" for x xs as bs
    by (rule counter_difference_newer[OF assms _ that(2-4)]) (use d(1) that(1) in simp)
  then show ?thesis using d by blast
qed

text \<open>C30: The loops of the merge in place come to an end within the shards, those that undo the work included, which
  step back without looking whether they are at the first shard: for sorted shards the fast path returns, unless the
  first cell has no shards at all and the second one has some, which its caller rules out by the number of shards. It
  succeeds exactly if the first cell has a shard for every node of the second one, and otherwise it leaves the first
  cell as it was.\<close>

theorem apply_in_place_returns:
  assumes "shards_wf D" "shards_wf S"
  shows "if D = [] \<and> S \<noteq> [] then apply_in_place (counter_cell t D) (counter_cell u S) = None
    else \<exists>ok dst' src'. apply_in_place (counter_cell t D) (counter_cell u S) = Some (ok, dst', src') \<and>
      (ok \<longleftrightarrow> sh_id ` set S \<subseteq> sh_id ` set D) \<and> (\<not> ok \<longrightarrow> dst' = counter_cell t D)"
proof (cases "D = [] \<and> S \<noteq> []")
  case True
  then have "in_place_loop D S 0 0 = None" by (subst in_place_loop.simps) (simp add: skip_smaller.simps)
  then show ?thesis using True assms by (simp add: apply_in_place_def)
next
  case False
  have "matched D S (length S) \<longleftrightarrow> sh_id ` set S \<subseteq> sh_id ` set D"
    unfolding matched_def image_subset_iff all_set_conv_all_nth by simp
  then show ?thesis using apply_in_place_correct[OF assms, of t u] False by (auto split: if_splits)
qed

definition ex_shard :: "counter_id \<Rightarrow> int \<Rightarrow> int \<Rightarrow> counter_shard" where
  "ex_shard i v c = \<lparr>sh_id = i, sh_value = v, sh_logical_clock = c\<rparr>"

lemma ex_shards_wf: "shards_wf [ex_shard 1 10 4, ex_shard 3 7 2]" "shards_wf [ex_shard 3 9 5]" "shards_wf [ex_shard 2 1 1]"
  by (simp_all add: shards_wf_def shard_wf_def ex_shard_def int_range_def)

lemma counter_apply_correct_witness:
  "\<exists>M src'. counter_apply (counter_cell 5 [ex_shard 1 10 4, ex_shard 3 7 2]) (counter_cell 8 [ex_shard 3 9 5]) =
     Some (counter_cell 8 M, src') \<and> lookup_by sh_id M 1 = Some (ex_shard 1 10 4) \<and> lookup_by sh_id M 3 = Some (ex_shard 3 9 5)"
proof -
  obtain M src' where m: "counter_apply (counter_cell 5 [ex_shard 1 10 4, ex_shard 3 7 2]) (counter_cell 8 [ex_shard 3 9 5]) =
      Some (counter_cell (max 5 8) M, src')"
    "\<forall>i. lookup_by sh_id M i =
      (case (lookup_by sh_id [ex_shard 1 10 4, ex_shard 3 7 2] i, lookup_by sh_id [ex_shard 3 9 5] i) of
         (None, s) \<Rightarrow> s
       | (Some d, None) \<Rightarrow> Some d
       | (Some d, Some s) \<Rightarrow> Some (if sh_logical_clock d < sh_logical_clock s then s else d))"
    using counter_apply_correct[OF ex_shards_wf(1,2), of 5 8] by blast
  have "lookup_by sh_id M 1 = Some (ex_shard 1 10 4)" "lookup_by sh_id M 3 = Some (ex_shard 3 9 5)"
    by (simp_all add: m(2)[rule_format] ex_shard_def)
  then show ?thesis using m(1) by auto
qed

lemma apply_in_place_returns_witness:
  "\<exists>src'. apply_in_place (counter_cell 5 [ex_shard 1 10 4, ex_shard 3 7 2]) (counter_cell 8 [ex_shard 2 1 1]) =
     Some (False, counter_cell 5 [ex_shard 1 10 4, ex_shard 3 7 2], src')"
  using apply_in_place_returns[OF ex_shards_wf(1,3), of 5 8] by (auto simp: ex_shard_def)

lemma counter_difference_correct_witness:
  "\<exists>x r. counter_difference (counter_cell 5 [ex_shard 1 10 4, ex_shard 3 7 2]) (counter_cell 8 [ex_shard 3 9 5]) = Some (Some x) \<and>
     map_option fst (counter_apply (counter_cell 8 [ex_shard 3 9 5]) x) = Some r \<and>
     map_option fst (counter_apply (counter_cell 8 [ex_shard 3 9 5]) (counter_cell 5 [ex_shard 1 10 4, ex_shard 3 7 2])) = Some r"
proof -
  have s: "counter_state (counter_cell 5 [ex_shard 1 10 4, ex_shard 3 7 2])" "counter_state (counter_cell 8 [ex_shard 3 9 5])"
    using ex_shards_wf by (auto simp: counter_state_def)
  have "counter_difference (counter_cell 5 [ex_shard 1 10 4, ex_shard 3 7 2]) (counter_cell 8 [ex_shard 3 9 5]) \<noteq> Some None"
    unfolding counter_difference_live[OF ex_shards_wf(1,2)] by (simp add: newer_def ex_shard_def)
  then show ?thesis using counter_difference_correct[OF s] by (auto split: option.splits)
qed

end
