(* ===== verification/Row_Tombstone.thy ===== *)
theory Row_Tombstone
  imports Atomic_Cell
begin

text \<open>
  Row markers and row tombstones, from \<open>src/mutation/mutation_partition.hh\<close> and
  \<open>src/mutation/mutation_partition.cc\<close>. A row marker records the insertion of a row; a row tombstone is a regular
  tombstone together with a shadowable one, which a newer insertion of the row removes.
\<close>

section \<open>Row markers\<close>

record row_marker =
  rm_timestamp :: int
  rm_ttl :: int
  rm_expiry :: int

definition no_ttl :: int where "no_ttl = 0"
definition dead_ttl :: int where "dead_ttl = - 1"
definition no_expiry :: int where "no_expiry = 0"

definition no_marker :: row_marker where
  "no_marker = \<lparr>rm_timestamp = missing_timestamp, rm_ttl = no_ttl, rm_expiry = no_expiry\<rparr>"

definition marker_created_at :: "int \<Rightarrow> row_marker" where
  "marker_created_at created_at = no_marker\<lparr>rm_timestamp := created_at\<rparr>"

definition marker_deleted_at :: "tombstone \<Rightarrow> row_marker" where
  "marker_deleted_at t = \<lparr>rm_timestamp = tomb_timestamp t, rm_ttl = dead_ttl, rm_expiry = tomb_deletion_time t\<rparr>"

definition rm_is_missing :: "row_marker \<Rightarrow> bool" where
  "rm_is_missing m \<longleftrightarrow> rm_timestamp m = missing_timestamp"

definition rm_is_live :: "row_marker \<Rightarrow> bool" where
  "rm_is_live m \<longleftrightarrow> \<not> rm_is_missing m \<and> rm_ttl m \<noteq> dead_ttl"

definition rm_is_live_at :: "row_marker \<Rightarrow> tombstone \<Rightarrow> int \<Rightarrow> bool" where
  "rm_is_live_at m t now =
     (if rm_is_missing m \<or> rm_ttl m = dead_ttl then False
      else if rm_ttl m \<noteq> no_ttl \<and> rm_expiry m \<le> now then False
      else rm_timestamp m > tomb_timestamp t)"

definition rm_is_dead_at :: "row_marker \<Rightarrow> int \<Rightarrow> bool" where
  "rm_is_dead_at m now = (if rm_ttl m = dead_ttl then True else rm_ttl m \<noteq> no_ttl \<and> rm_expiry m \<le> now)"

definition rm_is_expiring :: "row_marker \<Rightarrow> bool" where
  "rm_is_expiring m \<longleftrightarrow> rm_ttl m \<noteq> no_ttl"

definition rm_deletion_time :: "row_marker \<Rightarrow> int" where
  "rm_deletion_time m = (if rm_ttl m = dead_ttl then rm_expiry m else rm_expiry m - rm_ttl m)"

definition compare_row_marker_for_merge :: "row_marker \<Rightarrow> row_marker \<Rightarrow> int" where
  "compare_row_marker_for_merge left right =
     (if rm_timestamp left \<noteq> rm_timestamp right
      then if rm_timestamp left > rm_timestamp right then 1 else - 1
      else if rm_is_live left \<noteq> rm_is_live right
      then if rm_is_live left then - 1 else 1
      else if rm_is_live left
      then
        if rm_is_expiring left \<noteq> rm_is_expiring right
        then if rm_is_expiring left then 1 else - 1
        else if rm_is_expiring left \<and> rm_expiry left \<noteq> rm_expiry right
        then if rm_expiry left < rm_expiry right then - 1 else 1
        else if rm_is_expiring left \<and> rm_ttl left \<noteq> rm_ttl right
        then if rm_ttl left < rm_ttl right then 1 else - 1
        else 0
      else if rm_deletion_time left \<noteq> rm_deletion_time right
      then if to_u64 (rm_deletion_time left) < to_u64 (rm_deletion_time right) then - 1 else 1
      else 0)"

definition rm_apply :: "row_marker \<Rightarrow> row_marker \<Rightarrow> row_marker" where
  "rm_apply m rm = (if compare_row_marker_for_merge m rm < 0 then rm else m)"

definition rm_equal :: "row_marker \<Rightarrow> row_marker \<Rightarrow> bool" where
  "rm_equal m other =
     (if rm_timestamp m \<noteq> rm_timestamp other then False
      else if rm_is_missing m then True
      else if rm_ttl m \<noteq> rm_ttl other then False
      else rm_ttl m = no_ttl \<or> rm_expiry m = rm_expiry other)"

text \<open>\<open>can_gc\<close> is the caller's predicate; the result is whether the marker is live, the marker afterwards and what
  a garbage collector, if there is one, is given.\<close>

definition rm_compact_and_expire :: "row_marker \<Rightarrow> tombstone \<Rightarrow> int \<Rightarrow> (tombstone \<Rightarrow> bool \<Rightarrow> bool) \<Rightarrow> int \<Rightarrow> bool \<Rightarrow>
    bool \<times> row_marker \<times> row_marker list" where
  "rm_compact_and_expire m tomb now can_gc gc_before collector =
     (if rm_is_missing m then (False, m, [])
      else if rm_timestamp m \<le> tomb_timestamp tomb then (False, m\<lparr>rm_timestamp := missing_timestamp\<rparr>, [])
      else
        let m1 = (if rm_ttl m > no_ttl \<and> rm_expiry m \<le> now
                  then m\<lparr>rm_expiry := rm_expiry m - rm_ttl m, rm_ttl := dead_ttl\<rparr> else m);
            purge = (rm_ttl m1 = dead_ttl \<and> rm_expiry m1 < gc_before \<and>
                     can_gc \<lparr>tomb_timestamp = rm_timestamp m1, tomb_deletion_time = rm_expiry m1\<rparr> False);
            m2 = (if purge then m1\<lparr>rm_timestamp := missing_timestamp\<rparr> else m1)
        in (\<not> rm_is_missing m2 \<and> rm_ttl m2 \<noteq> dead_ttl, m2, if purge \<and> collector then [m1] else []))"

section \<open>Shadowable tombstones and row tombstones\<close>

text \<open>A \<open>shadowable_tombstone\<close> is a wrapped tombstone.\<close>

definition is_shadowed_by :: "tombstone \<Rightarrow> row_marker \<Rightarrow> bool" where
  "is_shadowed_by s marker \<longleftrightarrow> rm_is_live marker \<and> rm_timestamp marker > tomb_timestamp s"

definition shadowable_maybe_shadow :: "tombstone \<Rightarrow> tombstone \<Rightarrow> row_marker \<Rightarrow> tombstone" where
  "shadowable_maybe_shadow s t marker = (if is_shadowed_by s marker then t else s)"

record row_tombstone =
  rt_regular :: tombstone
  rt_shadowable :: tombstone

definition make_row_tombstone :: "tombstone \<Rightarrow> row_tombstone" where
  "make_row_tombstone regular = \<lparr>rt_regular = regular, rt_shadowable = regular\<rparr>"

definition no_row_tombstone :: row_tombstone where
  "no_row_tombstone = \<lparr>rt_regular = no_tombstone, rt_shadowable = no_tombstone\<rparr>"

definition rt_tomb :: "row_tombstone \<Rightarrow> tombstone" where
  "rt_tomb t = rt_shadowable t"

definition rt_compare :: "row_tombstone \<Rightarrow> row_tombstone \<Rightarrow> strong_ordering" where
  "rt_compare a b = tomb_compare (rt_shadowable a) (rt_shadowable b)"

definition rt_bool :: "row_tombstone \<Rightarrow> bool" where
  "rt_bool t = tomb_bool (rt_shadowable t)"

definition rt_max_deletion_time :: "row_tombstone \<Rightarrow> int" where
  "rt_max_deletion_time t = max (tomb_deletion_time (rt_regular t)) (tomb_deletion_time (rt_shadowable t))"

definition rt_is_shadowable :: "row_tombstone \<Rightarrow> bool" where
  "rt_is_shadowable t \<longleftrightarrow> tomb_compare (rt_shadowable t) (rt_regular t) = Ord_greater"

definition rt_maybe_shadow :: "row_tombstone \<Rightarrow> row_marker \<Rightarrow> row_tombstone" where
  "rt_maybe_shadow t marker = t\<lparr>rt_shadowable := shadowable_maybe_shadow (rt_shadowable t) (rt_regular t) marker\<rparr>"

definition rt_apply_tombstone :: "row_tombstone \<Rightarrow> tombstone \<Rightarrow> row_tombstone" where
  "rt_apply_tombstone t regular =
     \<lparr>rt_regular = tomb_apply (rt_regular t) regular, rt_shadowable = tomb_apply (rt_shadowable t) regular\<rparr>"

definition rt_apply_shadowable :: "row_tombstone \<Rightarrow> tombstone \<Rightarrow> row_marker \<Rightarrow> row_tombstone" where
  "rt_apply_shadowable t shadowable marker =
     rt_maybe_shadow (t\<lparr>rt_shadowable := tomb_apply (rt_shadowable t) shadowable\<rparr>) marker"

definition rt_apply :: "row_tombstone \<Rightarrow> row_tombstone \<Rightarrow> row_marker \<Rightarrow> row_tombstone" where
  "rt_apply t other marker =
     rt_maybe_shadow
       \<lparr>rt_regular = tomb_apply (rt_regular t) (rt_regular other),
        rt_shadowable = tomb_apply (rt_shadowable t) (rt_shadowable other)\<rparr> marker"

section \<open>Order of markers\<close>

definition rm_wf :: "row_marker \<Rightarrow> bool" where
  "rm_wf m \<longleftrightarrow> int_range 64 (rm_deletion_time m) \<and> - 1 \<le> rm_ttl m"

definition marker_key :: "row_marker \<Rightarrow> int \<times> bool \<times> bool \<times> int \<times> int" where
  "marker_key m =
     (rm_timestamp m, \<not> rm_is_live m,
      if rm_is_live m then (rm_is_expiring m, if rm_is_expiring m then (rm_expiry m, - rm_ttl m) else (0, 0))
      else (False, to_u64 (rm_deletion_time m), 0))"

definition marker_merge :: "row_marker \<Rightarrow> row_marker \<Rightarrow> row_marker" where
  "marker_merge a b = (if marker_key a < marker_key b then b else a)"

lemma compare_marker_key:
  assumes "rm_wf a" "rm_wf b"
  shows "compare_row_marker_for_merge a b < 0 \<longleftrightarrow> marker_key a < marker_key b"
    "compare_row_marker_for_merge a b > 0 \<longleftrightarrow> marker_key b < marker_key a"
proof -
  have d: "rm_deletion_time a = rm_deletion_time b \<longleftrightarrow> to_u64 (rm_deletion_time a) = to_u64 (rm_deletion_time b)"
    using to_u64_inj[of "rm_deletion_time a" "rm_deletion_time b"] assms by (auto simp: rm_wf_def)
  show "compare_row_marker_for_merge a b < 0 \<longleftrightarrow> marker_key a < marker_key b"
    "compare_row_marker_for_merge a b > 0 \<longleftrightarrow> marker_key b < marker_key a"
    unfolding compare_row_marker_for_merge_def marker_key_def d
    by (cases "rm_is_live a"; cases "rm_is_live b"; cases "rm_is_expiring a"; cases "rm_is_expiring b"; auto)+
qed

lemma rm_apply_merge: "rm_wf a \<Longrightarrow> rm_wf b \<Longrightarrow> rm_apply a b = marker_merge a b"
  by (simp add: rm_apply_def marker_merge_def compare_marker_key)

interpretation markers: keeps_greatest marker_key marker_merge
  by unfold_locales (rule marker_merge_def)

text \<open>Markers that compare equal are equal as far as the code tells them apart.\<close>

lemma marker_key_equal: "rm_wf a \<Longrightarrow> rm_wf b \<Longrightarrow> marker_key a = marker_key b \<Longrightarrow> rm_equal a b"
  using to_u64_inj[of "rm_deletion_time a" "rm_deletion_time b"]
  by (auto simp: marker_key_def rm_equal_def rm_wf_def rm_is_live_def rm_is_missing_def rm_is_expiring_def rm_deletion_time_def
    split: if_splits)

section \<open>Invariant of row tombstones\<close>

text \<open>The rule of the class: the shadowable tombstone is never less than the regular one.\<close>

definition rt_inv :: "row_tombstone \<Rightarrow> bool" where
  "rt_inv t \<longleftrightarrow> tomb_key (rt_regular t) \<le> tomb_key (rt_shadowable t)"

lemma rt_inv_ops:
  "rt_inv (make_row_tombstone r)" "rt_inv no_row_tombstone"
  "rt_inv t \<Longrightarrow> rt_inv (rt_maybe_shadow t m)"
  "rt_inv t \<Longrightarrow> rt_inv (rt_apply_tombstone t r)"
  "rt_inv t \<Longrightarrow> rt_inv (rt_apply_shadowable t s m)"
  "rt_inv t \<Longrightarrow> rt_inv u \<Longrightarrow> rt_inv (rt_apply t u m)"
  by (auto simp: rt_inv_def make_row_tombstone_def no_row_tombstone_def rt_maybe_shadow_def shadowable_maybe_shadow_def
    rt_apply_tombstone_def rt_apply_shadowable_def rt_apply_def tombs.key_merge max_def)

end
