(* ===== verification/Collection_Mutation.thy ===== *)
theory Collection_Mutation
  imports Row_Tombstone Combine
begin

text \<open>
  Mutations of collections, \<open>src/collection_mutation.hh\<close> and \<open>src/collection_mutation.cc\<close>: a tombstone for the
  whole collection and a cell for each element, ordered by the element's key. The order of the keys belongs to the
  type of the collection and is a parameter, as \<open>key_type\<close> is in the code: \<open>key_less\<close> and \<open>key_equal\<close>, with the hypothesis
  \<open>collection_keys\<close> that they order and identify the keys by some rank. It holds for the comparison of strings and blobs and
  for that of numbers of any length, both of \<open>src/types/types.cc\<close>.
\<close>

section \<open>Model\<close>

record 'c collection_mutation =
  cm_tomb :: tombstone
  cm_cells :: "(bytes \<times> 'c) list"

definition empty_collection :: "'c collection_mutation" where
  "empty_collection = \<lparr>cm_tomb = no_tombstone, cm_cells = []\<rparr>"

definition cell_killed :: "tombstone \<Rightarrow> bytes \<times> atomic_cell \<Rightarrow> bool" where
  "cell_killed t e = (if tomb_timestamp t < cell_timestamp (snd e) then False else True)"

definition element_compare :: "(bytes \<Rightarrow> bytes \<Rightarrow> bool) \<Rightarrow> bytes \<times> atomic_cell \<Rightarrow> bytes \<times> atomic_cell \<Rightarrow> bool" where
  "element_compare key_less e1 e2 = key_less (fst e1) (fst e2)"

definition element_merge :: "bytes \<times> atomic_cell \<Rightarrow> bytes \<times> atomic_cell \<Rightarrow> bytes \<times> atomic_cell" where
  "element_merge e1 e2 =
     (fst e1, if compare_atomic_cell_for_merge (snd e1) (snd e2) = Ord_greater then snd e1 else snd e2)"

definition collection_merge :: "(bytes \<Rightarrow> bytes \<Rightarrow> bool) \<Rightarrow> atomic_cell collection_mutation \<Rightarrow>
    atomic_cell collection_mutation \<Rightarrow> atomic_cell collection_mutation" where
  "collection_merge key_less a b =
     \<lparr>cm_tomb = tomb_apply (cm_tomb a) (cm_tomb b),
      cm_cells = combine (element_compare key_less) element_merge
        (filter (\<lambda>e. \<not> cell_killed (cm_tomb b) e) (cm_cells a)) (filter (\<lambda>e. \<not> cell_killed (cm_tomb a) e) (cm_cells b))\<rparr>"

primrec collection_difference_loop :: "(bytes \<Rightarrow> bytes \<Rightarrow> bool) \<Rightarrow> (bytes \<Rightarrow> bytes \<Rightarrow> bool) \<Rightarrow>
    (bytes \<times> atomic_cell) list \<Rightarrow> (bytes \<times> atomic_cell) list \<Rightarrow> (bytes \<times> atomic_cell) list" where
  "collection_difference_loop key_less key_equal [] it = []"
| "collection_difference_loop key_less key_equal (c # cs) it =
     (let it = dropWhile (\<lambda>e. key_less (fst e) (fst c)) it;
          keep = (it = [] \<or> \<not> key_equal (fst (hd it)) (fst c) \<or>
                  compare_atomic_cell_for_merge (snd c) (snd (hd it)) = Ord_greater)
      in (if keep then [c] else []) @ collection_difference_loop key_less key_equal cs it)"

definition collection_difference :: "(bytes \<Rightarrow> bytes \<Rightarrow> bool) \<Rightarrow> (bytes \<Rightarrow> bytes \<Rightarrow> bool) \<Rightarrow>
    atomic_cell collection_mutation \<Rightarrow> atomic_cell collection_mutation \<Rightarrow> atomic_cell collection_mutation" where
  "collection_difference key_less key_equal a b =
     \<lparr>cm_tomb = (if tomb_compare (cm_tomb a) (cm_tomb b) = Ord_greater then cm_tomb a else no_tombstone),
      cm_cells = collection_difference_loop key_less key_equal (cm_cells a) (cm_cells b)\<rparr>"

definition collection_is_empty :: "'c collection_mutation \<Rightarrow> bool" where
  "collection_is_empty c \<longleftrightarrow> \<not> tomb_bool (cm_tomb c) \<and> cm_cells c = []"

definition collection_is_any_live :: "atomic_cell collection_mutation \<Rightarrow> tombstone \<Rightarrow> int \<Rightarrow> bool" where
  "collection_is_any_live c tomb now =
     (let tomb = (if tomb_bool (cm_tomb c) then tomb_apply tomb (cm_tomb c) else tomb)
      in list_ex (\<lambda>e. cell_is_live_at (snd e) tomb now False) (cm_cells c))"

definition collection_last_update :: "atomic_cell collection_mutation \<Rightarrow> int" where
  "collection_last_update c =
     foldl (\<lambda>m e. max (cell_timestamp (snd e)) m)
       (if tomb_bool (cm_tomb c) then max missing_timestamp (tomb_timestamp (cm_tomb c)) else missing_timestamp) (cm_cells c)"

text \<open>Compaction. \<open>compact_and_expire_result\<close> counts; a collector, if there is one, is given what is purged.\<close>

record compact_and_expire_result =
  live_cells :: nat
  dead_cells :: nat
  collection_tombstones :: nat

definition no_result :: compact_and_expire_result where
  "no_result = \<lparr>live_cells = 0, dead_cells = 0, collection_tombstones = 0\<rparr>"

definition result_plus :: "compact_and_expire_result \<Rightarrow> compact_and_expire_result \<Rightarrow> compact_and_expire_result" where
  "result_plus r o' =
     \<lparr>live_cells = live_cells r + live_cells o', dead_cells = dead_cells r + dead_cells o',
      collection_tombstones = collection_tombstones r + collection_tombstones o'\<rparr>"

definition result_is_live :: "compact_and_expire_result \<Rightarrow> bool" where
  "result_is_live r \<longleftrightarrow> live_cells r \<noteq> 0"

type_synonym gc_fn = "tombstone \<Rightarrow> bool \<Rightarrow> bool"

text \<open>The tombstone that a dead or expired cell stands for, and whether it has to be kept.\<close>

definition cell_tombstone :: "atomic_cell \<Rightarrow> tombstone" where
  "cell_tombstone c = \<lparr>tomb_timestamp = cell_timestamp c, tomb_deletion_time = the (cell_deletion_time c)\<rparr>"

definition cannot_erase_cell :: "gc_fn \<Rightarrow> int \<Rightarrow> atomic_cell \<Rightarrow> bool" where
  "cannot_erase_cell can_gc gc_before c \<longleftrightarrow>
     the (cell_deletion_time c) \<ge> gc_before \<or> \<not> can_gc (cell_tombstone c) False"

definition dead_version :: "atomic_cell \<Rightarrow> atomic_cell" where
  "dead_version c = Dead_cell (cell_timestamp c) (the (cell_deletion_time c))"

record collection_compaction =
  cc_result :: compact_and_expire_result
  cc_survivors :: "(bytes \<times> atomic_cell) list"
  cc_losers :: "(bytes \<times> atomic_cell) list"

definition compact_element :: "tombstone \<Rightarrow> row_tombstone \<Rightarrow> int \<Rightarrow> gc_fn \<Rightarrow> int \<Rightarrow> bool \<Rightarrow>
    collection_compaction \<Rightarrow> bytes \<times> atomic_cell \<Rightarrow> collection_compaction" where
  "compact_element t base_tomb query_time can_gc gc_before collector st e =
     (let cell = snd e; res = cc_result st;
          dead = st\<lparr>cc_result := res\<lparr>dead_cells := dead_cells res + 1\<rparr>\<rparr>
      in if cell_is_covered_by cell t False \<or> cell_is_covered_by cell (rt_shadowable base_tomb) False then dead
         else if cell_has_expired cell query_time
         then
           if cannot_erase_cell can_gc gc_before cell
           then dead\<lparr>cc_survivors := cc_survivors st @ [(fst e, dead_version cell)]\<rparr>
           else if collector then dead\<lparr>cc_losers := cc_losers st @ [(fst e, dead_version cell)]\<rparr>
           else dead
         else if \<not> cell_is_live cell
         then
           if cannot_erase_cell can_gc gc_before cell then dead\<lparr>cc_survivors := cc_survivors st @ [e]\<rparr>
           else if collector then dead\<lparr>cc_losers := cc_losers st @ [e]\<rparr>
           else dead
         else st\<lparr>cc_survivors := cc_survivors st @ [e], cc_result := res\<lparr>live_cells := live_cells res + 1\<rparr>\<rparr>)"

definition collection_compact_and_expire :: "atomic_cell collection_mutation \<Rightarrow> row_tombstone \<Rightarrow> int \<Rightarrow> gc_fn \<Rightarrow> int \<Rightarrow> bool \<Rightarrow>
    compact_and_expire_result \<times> atomic_cell collection_mutation \<times> atomic_cell collection_mutation option" where
  "collection_compact_and_expire c base_tomb query_time can_gc gc_before collector =
     (let res = (if tomb_bool (cm_tomb c) then no_result\<lparr>collection_tombstones := 1\<rparr> else no_result);
          covered = (tomb_compare (cm_tomb c) (rt_regular base_tomb) \<noteq> Ord_greater);
          purged = (\<not> covered \<and> tomb_deletion_time (cm_tomb c) < gc_before \<and> can_gc (cm_tomb c) False);
          purged_tomb = (if purged then cm_tomb c else no_tombstone);
          tomb = (if covered \<or> purged then no_tombstone else cm_tomb c);
          t = tomb_apply (cm_tomb c) (rt_regular base_tomb);
          st = foldl (compact_element t base_tomb query_time can_gc gc_before collector)
                 \<lparr>cc_result = res, cc_survivors = [], cc_losers = []\<rparr> (cm_cells c)
      in (cc_result st, \<lparr>cm_tomb = tomb, cm_cells = cc_survivors st\<rparr>,
          if collector then Some \<lparr>cm_tomb = purged_tomb, cm_cells = cc_losers st\<rparr> else None))"

section \<open>Serialization\<close>

text \<open>A collection is kept in serialized form with its cells as bytes. Reading raises a \<open>marshal_exception\<close>, here
  \<open>None\<close>, if there are too few bytes, and asserts that none are left over.\<close>

definition write_uint32 :: "nat \<Rightarrow> bytes" where
  "write_uint32 n = be_bytes 4 (of_nat n :: 32 word)"

definition read_uint32 :: "bytes \<Rightarrow> (nat \<times> bytes) option" where
  "read_uint32 bs = (if length bs < 4 then None else Some (unat (ucast (be_word (take 4 bs)) :: 32 word), drop 4 bs))"

definition read_field64 :: "bytes \<Rightarrow> (int \<times> bytes) option" where
  "read_field64 bs = (if length bs < 8 then None else Some (read_int64 (take 8 bs), drop 8 bs))"

definition read_bytes :: "nat \<Rightarrow> bytes \<Rightarrow> (bytes \<times> bytes) option" where
  "read_bytes n bs = (if length bs < n then None else Some (take n bs, drop n bs))"

definition serialize_element :: "bytes \<times> bytes \<Rightarrow> bytes" where
  "serialize_element kv = write_uint32 (length (fst kv)) @ fst kv @ write_uint32 (length (snd kv)) @ snd kv"

definition serialize_collection_mutation :: "bytes collection_mutation \<Rightarrow> bytes" where
  "serialize_collection_mutation c =
     (if tomb_bool (cm_tomb c)
      then [1] @ write_int64 (tomb_timestamp (cm_tomb c)) @ write_int64 (tomb_deletion_time (cm_tomb c)) else [0]) @
     write_uint32 (length (cm_cells c)) @ concat (map serialize_element (cm_cells c))"

definition read_kv :: "bytes \<Rightarrow> ((bytes \<times> bytes) \<times> bytes) option" where
  "read_kv bs = do {
     (ksize, bs) \<leftarrow> read_uint32 bs;
     (key, bs) \<leftarrow> read_bytes ksize bs;
     (vsize, bs) \<leftarrow> read_uint32 bs;
     (value, bs) \<leftarrow> read_bytes vsize bs;
     Some ((key, value), bs) }"

fun read_elements :: "nat \<Rightarrow> bytes \<Rightarrow> ((bytes \<times> bytes) list \<times> bytes) option" where
  "read_elements 0 bs = Some ([], bs)"
| "read_elements (Suc n) bs = do {
     (kv, bs) \<leftarrow> read_kv bs;
     (kvs, bs) \<leftarrow> read_elements n bs;
     Some (kv # kvs, bs) }"

definition deserialize_collection_mutation :: "bytes \<Rightarrow> bytes collection_mutation option" where
  "deserialize_collection_mutation bs = do {
     (has_tomb, bs) \<leftarrow> read_bytes 1 bs;
     (tomb, bs) \<leftarrow> (if has_tomb \<noteq> [0] then do {
         (ts, bs) \<leftarrow> read_field64 bs;
         (ttl, bs) \<leftarrow> read_field64 bs;
         Some (\<lparr>tomb_timestamp = ts, tomb_deletion_time = ttl\<rparr>, bs) }
       else Some (no_tombstone, bs));
     (nr, bs) \<leftarrow> read_uint32 bs;
     (cells, bs) \<leftarrow> read_elements nr bs;
     assertO (bs = []);
     Some \<lparr>cm_tomb = tomb, cm_cells = cells\<rparr> }"

lemma read_write_uint32: "n < 2 ^ 32 \<Longrightarrow> read_uint32 (write_uint32 n @ rest) = Some (n, rest)"
proof -
  assume "n < 2 ^ 32"
  moreover have "ucast (be_word (write_uint32 n)) = (of_nat n :: 32 word)"
    by (rule bit_word_eqI) (simp add: write_uint32_def be_word_bytes bit_simps)
  moreover have "length (write_uint32 n) = 4" by (simp add: write_uint32_def)
  ultimately show ?thesis by (simp add: read_uint32_def unat_of_nat take_bit_nat_eq_self)
qed

lemma read_serialized_element:
  "length (fst kv) < 2 ^ 32 \<Longrightarrow> length (snd kv) < 2 ^ 32 \<Longrightarrow> read_kv (serialize_element kv @ rest) = Some (kv, rest)"
  by (simp add: read_kv_def serialize_element_def read_write_uint32 read_bytes_def)

lemma read_serialized_elements:
  "\<forall>kv \<in> set kvs. length (fst kv) < 2 ^ 32 \<and> length (snd kv) < 2 ^ 32 \<Longrightarrow>
   read_elements (length kvs) (concat (map serialize_element kvs) @ rest) = Some (kvs, rest)"
  by (induction kvs) (simp_all add: read_serialized_element)

definition serializable :: "bytes collection_mutation \<Rightarrow> bool" where
  "serializable c \<longleftrightarrow> length (cm_cells c) < 2 ^ 32 \<and>
     (\<forall>kv \<in> set (cm_cells c). length (fst kv) < 2 ^ 32 \<and> length (snd kv) < 2 ^ 32) \<and>
     (tomb_bool (cm_tomb c) \<and> int_range 64 (tomb_timestamp (cm_tomb c)) \<and> int_range 64 (tomb_deletion_time (cm_tomb c)) \<or>
      cm_tomb c = no_tombstone)"

lemma deserialize_serialize:
  assumes "serializable c"
  shows "deserialize_collection_mutation (serialize_collection_mutation c) = Some c"
proof -
  have e: "read_elements (length (cm_cells c)) (concat (map serialize_element (cm_cells c))) = Some (cm_cells c, [])"
    using read_serialized_elements[of "cm_cells c" "[]"] assms by (simp add: serializable_def)
  have n: "\<not> tomb_bool no_tombstone" by (simp add: tomb_bool_def no_tombstone_def)
  show ?thesis
  proof (cases "tomb_bool (cm_tomb c)")
    case True
    then show ?thesis using assms e n
      by (auto simp: serializable_def deserialize_collection_mutation_def serialize_collection_mutation_def read_bytes_def
        read_field64_def read_write_uint32 assertO_def)
  next
    case False
    then show ?thesis using assms e
      by (cases c) (auto simp: serializable_def deserialize_collection_mutation_def serialize_collection_mutation_def
        read_bytes_def read_write_uint32 assertO_def)
  qed
qed

section \<open>Merging\<close>

lemma tomb_timestamp_apply: "tomb_timestamp (tomb_apply t u) = max (tomb_timestamp t) (tomb_timestamp u)"
  by (auto simp: tomb_apply_def tomb_compare_def max_def)

definition tomb_wf :: "tombstone \<Rightarrow> bool" where
  "tomb_wf t \<longleftrightarrow> missing_timestamp < tomb_timestamp t \<or> t = no_tombstone"

lemma tomb_wf_apply: "tomb_wf t \<Longrightarrow> tomb_wf u \<Longrightarrow> tomb_wf (tomb_apply t u)"
  by (simp add: tomb_apply_def)

lemma tomb_wf_least: "tomb_wf t \<Longrightarrow> tomb_key no_tombstone \<le> tomb_key t" "tomb_wf t \<Longrightarrow> missing_timestamp \<le> tomb_timestamp t"
  by (auto simp: tomb_wf_def tomb_key_def no_tombstone_def)

text \<open>The order of the keys of a collection, given by the rank of a key. Keys with the same rank are equal for the type,
  but they need not be the same bytes: a \<open>varint\<close>, a \<open>decimal\<close> or a NaN has many representations.\<close>

definition same_collection :: "(bytes \<Rightarrow> 'k) \<Rightarrow> 'c collection_mutation \<Rightarrow> 'c collection_mutation \<Rightarrow> bool" where
  "same_collection rank a b \<longleftrightarrow> cm_tomb a = cm_tomb b \<and>
     map (\<lambda>e. (rank (fst e), snd e)) (cm_cells a) = map (\<lambda>e. (rank (fst e), snd e)) (cm_cells b)"

lemma same_collection_inj: "inj rank \<Longrightarrow> same_collection rank a b \<longleftrightarrow> a = b"
proof -
  assume "inj rank"
  then have "inj (\<lambda>e :: bytes \<times> 'c. (rank (fst e), snd e))" by (auto simp: inj_def)
  then show ?thesis by (cases a; cases b) (auto simp: same_collection_def dest: map_injective)
qed

locale collection_keys =
  fixes rank :: "bytes \<Rightarrow> 'k::linorder" and key_less :: "bytes \<Rightarrow> bytes \<Rightarrow> bool" and key_equal :: "bytes \<Rightarrow> bytes \<Rightarrow> bool"
  assumes key_less: "key_less x y \<longleftrightarrow> rank x < rank y"
    and key_equal: "key_equal x y \<longleftrightarrow> rank x = rank y"
begin

definition element_rank :: "bytes \<times> atomic_cell \<Rightarrow> 'k" where
  "element_rank e = rank (fst e)"

text \<open>A collection in order, with no cell that its own tombstone covers.\<close>

definition collection_wf :: "atomic_cell collection_mutation \<Rightarrow> bool" where
  "collection_wf c \<longleftrightarrow> sorted_by element_rank (cm_cells c) \<and> tomb_wf (cm_tomb c) \<and>
     (\<forall>e \<in> set (cm_cells c). snd e \<in> plain_cells \<and> tomb_timestamp (cm_tomb c) < cell_timestamp (snd e))"

end

sublocale collection_keys \<subseteq> elements: sorted_merge element_rank "element_compare key_less" element_merge
  by unfold_locales (simp_all add: element_compare_def element_rank_def key_less element_merge_def)

text \<open>The greater of two cells that may be missing, and what a tombstone leaves of one.\<close>

definition join_cells :: "atomic_cell option \<Rightarrow> atomic_cell option \<Rightarrow> atomic_cell option" where
  "join_cells x y = (case x of None \<Rightarrow> y | Some c \<Rightarrow> (case y of None \<Rightarrow> Some c | Some d \<Rightarrow> Some (cell_merge c d)))"

definition uncovered :: "int \<Rightarrow> atomic_cell option \<Rightarrow> atomic_cell option" where
  "uncovered ts x = (case x of None \<Rightarrow> None | Some c \<Rightarrow> if ts < cell_timestamp c then Some c else None)"

definition plain_option :: "atomic_cell option \<Rightarrow> bool" where
  "plain_option x \<longleftrightarrow> (\<forall>c. x = Some c \<longrightarrow> c \<in> plain_cells)"

lemma join_cells_simps [simp]:
  "join_cells None y = y" "join_cells x None = x" "join_cells (Some c) (Some d) = Some (cell_merge c d)"
  by (auto simp: join_cells_def split: option.splits)

lemma uncovered_simps [simp]:
  "uncovered ts None = None" "uncovered ts (Some c) = (if ts < cell_timestamp c then Some c else None)"
  by (simp_all add: uncovered_def)

lemma cell_merge_plain: "c \<in> plain_cells \<Longrightarrow> d \<in> plain_cells \<Longrightarrow> cell_merge c d \<in> plain_cells"
  by (simp add: cell_merge_def)

lemma plain_option_simps [simp]:
  "plain_option None" "plain_option (Some c) \<longleftrightarrow> c \<in> plain_cells"
  "plain_option x \<Longrightarrow> plain_option (uncovered ts x)"
  "plain_option x \<Longrightarrow> plain_option y \<Longrightarrow> plain_option (join_cells x y)"
  by (auto simp: plain_option_def join_cells_def uncovered_def cell_merge_plain split: option.splits if_splits)

lemma cell_merge_commute: "c \<in> plain_cells \<Longrightarrow> d \<in> plain_cells \<Longrightarrow> cell_merge c d = cell_merge d c"
  by (rule cells.merge_commute) (auto dest: inj_onD[OF cell_key_inj])

lemma join_commute: "plain_option x \<Longrightarrow> plain_option y \<Longrightarrow> join_cells x y = join_cells y x"
  by (cases x; cases y) (simp_all add: cell_merge_commute)

lemma join_assoc: "join_cells (join_cells x y) z = join_cells x (join_cells y z)"
  by (cases x; cases y; cases z) (simp_all add: cells.merge_assoc)

lemma join_idem [simp]: "join_cells x x = x"
  by (cases x) simp_all

lemma timestamp_key: "cell_key c \<le> cell_key d \<Longrightarrow> cell_timestamp c \<le> cell_timestamp d"
  by (auto simp: cell_key_def)

lemma cell_timestamp_merge: "cell_timestamp (cell_merge c d) = max (cell_timestamp c) (cell_timestamp d)"
  using timestamp_key[of c d] timestamp_key[of d c] by (auto simp: cell_merge_def compare_cell_key max_def)

lemma uncovered_join: "uncovered ts (join_cells x y) = join_cells (uncovered ts x) (uncovered ts y)"
proof -
  have "cell_merge c d = c" if "cell_timestamp d \<le> ts" "ts < cell_timestamp c" for c d
    using that timestamp_key[of c d] by (auto simp: cell_merge_def compare_cell_key dest: less_imp_le)
  moreover have "cell_merge c d = d" if "cell_timestamp c \<le> ts" "ts < cell_timestamp d" for c d
    using that timestamp_key[of d c] by (auto simp: cell_merge_def compare_cell_key not_less)
  ultimately show ?thesis
    by (cases x; cases y) (auto simp: cell_timestamp_merge max_def not_less)
qed

lemma join_absorb:
  "\<not> cell_key y < cell_key x \<Longrightarrow> join_cells (uncovered t (Some y)) (uncovered t (Some x)) = uncovered t (Some y)"
  using timestamp_key[of x y] by (auto simp: cell_merge_def compare_cell_key not_less)

lemma uncovered_uncovered [simp]: "uncovered t (uncovered u x) = uncovered (max t u) x"
  by (cases x) auto

context collection_keys
begin

text \<open>The cell of an element.\<close>

definition cell_at :: "atomic_cell collection_mutation \<Rightarrow> 'k \<Rightarrow> atomic_cell option" where
  "cell_at c k = map_option snd (lookup_by element_rank (cm_cells c) k)"

lemma lookup_rank: "lookup_by element_rank xs k = Some e \<Longrightarrow> rank (fst e) = k"
  using lookup_by_Some[of element_rank xs k e] by (simp add: element_rank_def)

text \<open>A well-formed collection is its tombstone and its cells, up to keys that are equal for their type.\<close>

lemma same_collectionI:
  assumes "collection_wf a" "collection_wf b" "cm_tomb a = cm_tomb b" "\<And>k. cell_at a k = cell_at b k"
  shows "same_collection rank a b"
proof -
  let ?f = "\<lambda>e. (rank (fst e), snd e)"
  have "sorted_by fst (map ?f (cm_cells c))" if "collection_wf c" for c
    using that by (simp add: collection_wf_def sorted_by_def sorted_wrt_map element_rank_def)
  moreover have "lookup_by fst (map ?f es) k = map_option (Pair k) (map_option snd (lookup_by element_rank es k))" for es k
    by (induction es) (auto simp: element_rank_def)
  ultimately have "map ?f (cm_cells a) = map ?f (cm_cells b)"
    using assms by (intro sorted_by_ext[of fst]) (simp_all add: cell_at_def)
  then show ?thesis using assms(3) by (simp add: same_collection_def)
qed

text \<open>The key of an element, which makes the bytes the same.\<close>

definition key_at :: "atomic_cell collection_mutation \<Rightarrow> 'k \<Rightarrow> bytes option" where
  "key_at c k = map_option fst (lookup_by element_rank (cm_cells c) k)"

lemma collection_ext:
  assumes "collection_wf a" "collection_wf b" "cm_tomb a = cm_tomb b" "\<And>k. cell_at a k = cell_at b k" "\<And>k. key_at a k = key_at b k"
  shows "a = b"
proof -
  have "lookup_by element_rank (cm_cells a) k = lookup_by element_rank (cm_cells b) k" for k
    using assms(4)[of k] assms(5)[of k] unfolding cell_at_def key_at_def
    by (cases "lookup_by element_rank (cm_cells a) k"; cases "lookup_by element_rank (cm_cells b) k") (auto simp: prod_eq_iff)
  then have "cm_cells a = cm_cells b" using assms(1,2) by (intro sorted_by_ext[of element_rank]) (auto simp: collection_wf_def)
  then show ?thesis using assms(3) by (cases a; cases b) simp
qed

lemma element_merge_cell: "snd e \<in> plain_cells \<Longrightarrow> snd f \<in> plain_cells \<Longrightarrow> snd (element_merge e f) = cell_merge (snd e) (snd f)"
  using cell_merge_commute[of "snd e" "snd f"] by (auto simp: element_merge_def cell_merge_def compare_cell_key)

lemma cell_at_plain: "collection_wf c \<Longrightarrow> plain_option (cell_at c k)"
  by (auto simp: cell_at_def plain_option_def collection_wf_def dest!: lookup_by_Some)

lemma cell_at_uncovered: "collection_wf c \<Longrightarrow> uncovered (tomb_timestamp (cm_tomb c)) (cell_at c k) = cell_at c k"
  by (auto simp: cell_at_def uncovered_def collection_wf_def split: option.splits dest!: lookup_by_Some)

lemma filter_killed:
  "map_option snd (lookup_by element_rank (filter (\<lambda>e. \<not> cell_killed t e) (cm_cells c)) k) = uncovered (tomb_timestamp t) (cell_at c k)"
  if "collection_wf c"
  using that by (auto simp: lookup_filter collection_wf_def cell_at_def uncovered_def cell_killed_def split: option.splits)

lemma cell_at_merge:
  assumes "collection_wf a" "collection_wf b"
  shows "cell_at (collection_merge key_less a b) k =
    (let t = max (tomb_timestamp (cm_tomb a)) (tomb_timestamp (cm_tomb b))
     in join_cells (uncovered t (cell_at a k)) (uncovered t (cell_at b k)))"
proof -
  have both: "uncovered t (cell_at c k) = uncovered (max (tomb_timestamp (cm_tomb c)) t) (cell_at c k)" if "collection_wf c" for c t
    by (subst cell_at_uncovered[OF that, symmetric]) (simp add: max.commute)
  let ?f = "\<lambda>t c. filter (\<lambda>e. \<not> cell_killed t e) (cm_cells c)"
  let ?x = "lookup_by element_rank (?f (cm_tomb b) a) k" and ?y = "lookup_by element_rank (?f (cm_tomb a) b) k"
  have s: "sorted_by element_rank (?f t c)" if "collection_wf c" for t c
    using that by (auto simp: collection_wf_def sorted_by_def sorted_wrt_filter)
  have p: "snd e \<in> plain_cells" if "lookup_by element_rank (?f t c) k = Some e" "collection_wf c" for e t c
    using lookup_by_Some[OF that(1)] that(2) by (auto simp: collection_wf_def)
  have "map_option snd (elements.merge_options ?x ?y) = join_cells (map_option snd ?x) (map_option snd ?y)"
    using p[of "cm_tomb b" a] p[of "cm_tomb a" b] assms
    by (cases ?x; cases ?y) (auto simp: element_merge_cell)
  then have "cell_at (collection_merge key_less a b) k =
      join_cells (uncovered (tomb_timestamp (cm_tomb b)) (cell_at a k)) (uncovered (tomb_timestamp (cm_tomb a)) (cell_at b k))"
    unfolding cell_at_def collection_merge_def
    by (simp add: elements.lookup_combine s assms filter_killed[unfolded cell_at_def])
  then show ?thesis
    using both[OF assms(1), of "tomb_timestamp (cm_tomb b)"] both[OF assms(2), of "tomb_timestamp (cm_tomb a)"]
    by (simp add: Let_def max.commute)
qed

lemma key_at_None: "key_at c k = None \<longleftrightarrow> cell_at c k = None"
  by (simp add: key_at_def cell_at_def)

lemma key_at_merge:
  assumes "collection_wf a" "collection_wf b"
  shows "key_at (collection_merge key_less a b) k =
    (if uncovered (tomb_timestamp (cm_tomb b)) (cell_at a k) \<noteq> None then key_at a k
     else if uncovered (tomb_timestamp (cm_tomb a)) (cell_at b k) \<noteq> None then key_at b k else None)"
proof -
  let ?f = "\<lambda>t c. filter (\<lambda>e. \<not> cell_killed t e) (cm_cells c)"
  have s: "sorted_by element_rank (?f t c)" if "collection_wf c" for t c
    using that by (auto simp: collection_wf_def sorted_by_def sorted_wrt_filter)
  have l: "lookup_by element_rank (?f t c) k =
      (if uncovered (tomb_timestamp t) (cell_at c k) \<noteq> None then lookup_by element_rank (cm_cells c) k else None)"
    if "collection_wf c" for t c
    using that by (auto simp: lookup_filter collection_wf_def cell_at_def uncovered_def cell_killed_def split: option.splits)
  show ?thesis unfolding key_at_def collection_merge_def
    by (cases "lookup_by element_rank (cm_cells a) k"; cases "lookup_by element_rank (cm_cells b) k")
      (auto simp: elements.lookup_combine s l assms cell_at_def element_merge_def)
qed

lemma collection_wf_merge:
  assumes "collection_wf a" "collection_wf b"
  shows "collection_wf (collection_merge key_less a b)"
proof -
  let ?m = "collection_merge key_less a b" and ?t = "max (tomb_timestamp (cm_tomb a)) (tomb_timestamp (cm_tomb b))"
  have s: "sorted_by element_rank (cm_cells ?m)"
    using assms by (auto simp: collection_merge_def collection_wf_def sorted_by_def intro!: elements.combine_sorted[unfolded sorted_by_def] sorted_wrt_filter)
  have "snd e \<in> plain_cells \<and> ?t < cell_timestamp (snd e)" if "e \<in> set (cm_cells ?m)" for e
  proof -
    have "cell_at ?m (element_rank e) = Some (snd e)"
      using lookup_by_sorted[OF s, of "element_rank e" e] that by (simp add: cell_at_def)
    then have e: "Some (snd e) = join_cells (uncovered ?t (cell_at a (element_rank e))) (uncovered ?t (cell_at b (element_rank e)))"
      by (simp add: cell_at_merge[OF assms] Let_def)
    have "plain_option (Some (snd e))" unfolding e using assms by (simp add: cell_at_plain)
    moreover have "uncovered ?t (Some (snd e)) = Some (snd e)" unfolding e uncovered_join by simp
    ultimately show ?thesis by (auto split: if_splits)
  qed
  moreover have "tomb_wf (cm_tomb ?m)" using assms by (simp add: collection_merge_def collection_wf_def tomb_wf_apply)
  ultimately show ?thesis using s by (auto simp: collection_wf_def) (auto simp: collection_merge_def tomb_timestamp_apply)
qed

lemma cm_tomb_merge: "cm_tomb (collection_merge key_less a b) = tomb_apply (cm_tomb a) (cm_tomb b)"
  by (simp add: collection_merge_def)

lemma merge_commute:
  assumes "collection_wf a" "collection_wf b"
  shows "same_collection rank (collection_merge key_less a b) (collection_merge key_less b a)"
proof (rule same_collectionI)
  show "cm_tomb (collection_merge key_less a b) = cm_tomb (collection_merge key_less b a)"
    using tombs.merge_commute injD[OF tomb_key_inj] by (simp add: cm_tomb_merge)
  show "cell_at (collection_merge key_less a b) k = cell_at (collection_merge key_less b a) k" for k
    using assms join_commute by (simp add: cell_at_merge Let_def max.commute cell_at_plain)
qed (use assms collection_wf_merge in auto)

lemma merge_assoc:
  assumes "collection_wf a" "collection_wf b" "collection_wf c"
  shows "same_collection rank (collection_merge key_less (collection_merge key_less a b) c)
    (collection_merge key_less a (collection_merge key_less b c))"
proof (rule same_collectionI)
  show "cm_tomb (collection_merge key_less (collection_merge key_less a b) c) =
      cm_tomb (collection_merge key_less a (collection_merge key_less b c))"
    by (simp add: cm_tomb_merge tombs.merge_assoc)
  show "cell_at (collection_merge key_less (collection_merge key_less a b) c) k =
      cell_at (collection_merge key_less a (collection_merge key_less b c)) k" for k
    using assms
    by (simp add: cell_at_merge collection_wf_merge Let_def cm_tomb_merge tomb_timestamp_apply uncovered_join join_assoc
      max.assoc max.left_commute max.commute)
qed (use assms collection_wf_merge in auto)

lemma merge_idem:
  assumes "collection_wf a"
  shows "collection_merge key_less a a = a"
proof (rule collection_ext)
  show "cell_at (collection_merge key_less a a) k = cell_at a k" for k
    using assms by (simp add: cell_at_merge Let_def cell_at_uncovered)
  show "key_at (collection_merge key_less a a) k = key_at a k" for k
    using assms key_at_None[of a k] by (cases "key_at a k") (simp_all add: key_at_merge cell_at_uncovered)
qed (use assms collection_wf_merge in \<open>auto simp: cm_tomb_merge\<close>)

text \<open>The difference of \<open>a\<close> and \<open>b\<close> has the cells of \<open>a\<close> that are new to \<open>b\<close>.\<close>

definition new_to :: "(bytes \<times> atomic_cell) list \<Rightarrow> bytes \<times> atomic_cell \<Rightarrow> bool" where
  "new_to B e \<longleftrightarrow> (case lookup_by element_rank B (element_rank e) of None \<Rightarrow> True
     | Some f \<Rightarrow> compare_atomic_cell_for_merge (snd e) (snd f) = Ord_greater)"

lemma key_equal_rank: "key_equal (fst e) (fst f) \<longleftrightarrow> element_rank f = element_rank e"
  by (auto simp: key_equal element_rank_def)

lemma difference_loop_new:
  "sorted_by element_rank A \<Longrightarrow> sorted_by element_rank B \<Longrightarrow>
   collection_difference_loop key_less key_equal A B = filter (new_to B) A"
proof (induction A arbitrary: B)
  case (Cons a A)
  let ?B = "dropWhile (\<lambda>b. element_rank b < element_rank a) B"
  have d: "dropWhile (\<lambda>e. key_less (fst e) (fst a)) B = ?B" by (simp add: key_less element_rank_def)
  have n: "new_to B a \<longleftrightarrow> ?B = [] \<or> \<not> key_equal (fst (hd ?B)) (fst a) \<or> compare_atomic_cell_for_merge (snd a) (snd (hd ?B)) = Ord_greater"
    using lookup_first[OF Cons.prems(2), of "element_rank a"]
    by (auto simp: new_to_def Let_def key_equal_rank)
  have "sorted_by element_rank ?B" using Cons.prems(2) unfolding sorted_by_def by (rule sorted_wrt_dropWhile)
  moreover have "filter (new_to ?B) A = filter (new_to B) A"
  proof (rule filter_cong)
    fix x assume "x \<in> set A"
    then have "element_rank a \<le> element_rank x" using Cons.prems(1) by (auto intro: less_imp_le)
    then show "new_to ?B x = new_to B x" by (simp add: new_to_def lookup_dropWhile)
  qed simp
  ultimately have "collection_difference_loop key_less key_equal A ?B = filter (new_to B) A" using Cons by simp
  then show ?case using n by (simp add: Let_def d)
qed simp

lemma cells_difference:
  assumes "collection_wf a" "collection_wf b"
  shows "cm_cells (collection_difference key_less key_equal a b) = filter (new_to (cm_cells b)) (cm_cells a)"
  using assms by (simp add: collection_difference_def difference_loop_new collection_wf_def)

lemma cell_at_difference:
  assumes "collection_wf a" "collection_wf b"
  shows "cell_at (collection_difference key_less key_equal a b) k =
    (case cell_at a k of None \<Rightarrow> None
     | Some x \<Rightarrow> (case cell_at b k of None \<Rightarrow> Some x | Some y \<Rightarrow> if cell_key y < cell_key x then Some x else None))"
proof -
  note cells_difference[OF assms]
  moreover have "new_to (cm_cells b) e \<longleftrightarrow> (case cell_at b k of None \<Rightarrow> True | Some y \<Rightarrow> cell_key y < cell_key (snd e))"
    if "lookup_by element_rank (cm_cells a) k = Some e" for e
    using lookup_by_Some[OF that] by (auto simp: new_to_def cell_at_def compare_cell_key split: option.splits)
  ultimately show ?thesis using assms
    by (auto simp: cell_at_def lookup_filter collection_wf_def split: option.splits)
qed

lemma cm_tomb_difference:
  "cm_tomb (collection_difference key_less key_equal a b) =
     (if tomb_key (cm_tomb b) < tomb_key (cm_tomb a) then cm_tomb a else no_tombstone)"
  by (simp add: collection_difference_def tomb_compare_key)

lemma collection_wf_difference:
  assumes "collection_wf a" "collection_wf b"
  shows "collection_wf (collection_difference key_less key_equal a b)"
proof -
  note c = cells_difference[OF assms]
  have "tomb_timestamp (cm_tomb (collection_difference key_less key_equal a b)) \<le> tomb_timestamp (cm_tomb a)"
    using assms(1) tomb_wf_least(2)[of "cm_tomb a"] by (auto simp: cm_tomb_difference collection_wf_def no_tombstone_def)
  then show ?thesis
    using assms c by (fastforce simp: collection_wf_def sorted_by_def sorted_wrt_filter cm_tomb_difference tomb_wf_def[of no_tombstone])
qed

end

context collection_keys
begin

lemma merge_difference:
  assumes "collection_wf a" "collection_wf b"
  shows "collection_merge key_less b (collection_difference key_less key_equal a b) = collection_merge key_less b a"
proof (rule collection_ext)
  let ?d = "collection_difference key_less key_equal a b"
  have d: "collection_wf ?d" by (rule collection_wf_difference[OF assms])
  show "collection_wf (collection_merge key_less b ?d)" "collection_wf (collection_merge key_less b a)"
    using assms d collection_wf_merge by auto
  have tw: "tomb_wf (cm_tomb a)" "tomb_wf (cm_tomb b)" using assms by (simp_all add: collection_wf_def)
  show t: "cm_tomb (collection_merge key_less b ?d) = cm_tomb (collection_merge key_less b a)"
    using tomb_wf_least(1)[OF tw(2)] by (auto simp: cm_tomb_merge cm_tomb_difference tombs.merge_def)
  have m: "max (tomb_timestamp (cm_tomb b)) (tomb_timestamp (cm_tomb ?d)) = max (tomb_timestamp (cm_tomb b)) (tomb_timestamp (cm_tomb a))"
    using arg_cong[OF t, of tomb_timestamp] by (simp add: cm_tomb_merge tomb_timestamp_apply)
  fix k
  have kd: "key_at ?d k = (if cell_at ?d k = None then None else key_at a k)"
    unfolding key_at_def cell_at_def cells_difference[OF assms]
    using assms by (auto simp: lookup_filter collection_wf_def split: option.splits)
  show "key_at (collection_merge key_less b ?d) k = key_at (collection_merge key_less b a) k"
  proof -
    let ?ts = "\<lambda>c. tomb_timestamp (cm_tomb c)"
    have "uncovered t (cell_at b k) = uncovered (max (?ts b) t) (cell_at b k)" for t
      by (subst cell_at_uncovered[OF assms(2), symmetric]) (simp add: max.commute)
    from this[of "?ts ?d"] this[of "?ts a"]
    have u: "uncovered (?ts ?d) (cell_at b k) = uncovered (?ts a) (cell_at b k)" by (simp only: m)
    have "cell_at ?d k = cell_at a k" if "uncovered (?ts a) (cell_at b k) = None"
    proof -
      have "cell_key y < cell_key x" if "cell_at a k = Some x" "cell_at b k = Some y" for x y
        using that \<open>uncovered _ _ = None\<close> cell_at_uncovered[OF assms(1), of k] timestamp_key[of x y]
        by (auto simp: not_le[symmetric] split: if_splits)
      then show ?thesis unfolding cell_at_difference[OF assms] by (auto split: option.splits)
    qed
    then show ?thesis unfolding key_at_merge[OF assms(2) d] key_at_merge[OF assms(2,1)] u kd
      using key_at_None[of a k] by auto
  qed
  let ?t = "max (tomb_timestamp (cm_tomb b)) (tomb_timestamp (cm_tomb a))"
  show "cell_at (collection_merge key_less b ?d) k = cell_at (collection_merge key_less b a) k"
    unfolding cell_at_merge[OF assms(2) d] cell_at_merge[OF assms(2,1)] m Let_def cell_at_difference[OF assms]
    by (cases "cell_at a k"; cases "cell_at b k") (simp_all add: join_absorb del: uncovered_simps(2))
qed

lemma merge_empty:
  assumes "collection_wf b" "tomb_wf (cm_tomb d)" "collection_is_empty d"
  shows "collection_merge key_less b d = b"
proof -
  have d: "cm_tomb d = no_tombstone" "cm_cells d = []"
    using assms(2,3) by (auto simp: collection_is_empty_def tomb_bool_def tomb_wf_def)
  have "tomb_apply (cm_tomb b) no_tombstone = cm_tomb b"
    using assms(1) by (intro tombs.merge_absorb) (simp add: collection_wf_def tomb_wf_least)
  moreover have "filter (\<lambda>e. \<not> cell_killed no_tombstone e) (cm_cells b) = cm_cells b"
  proof (intro filter_True ballI)
    fix e assume "e \<in> set (cm_cells b)"
    then have "tomb_timestamp (cm_tomb b) < cell_timestamp (snd e)" "missing_timestamp \<le> tomb_timestamp (cm_tomb b)"
      using assms(1) tomb_wf_least(2) by (auto simp: collection_wf_def)
    then show "\<not> cell_killed no_tombstone e" by (simp add: cell_killed_def no_tombstone_def)
  qed
  ultimately show ?thesis using d by (simp add: collection_merge_def)
qed

end

text \<open>The keys of sets and maps of blobs and strings, which \<open>src/types/types.cc\<close> compares byte by byte.\<close>

definition bytes_less :: "bytes \<Rightarrow> bytes \<Rightarrow> bool" where
  "bytes_less x y \<longleftrightarrow> compare_unsigned x y = Ord_less"

definition bytes_equal :: "bytes \<Rightarrow> bytes \<Rightarrow> bool" where
  "bytes_equal x y \<longleftrightarrow> compare_unsigned x y = Ord_equal"

interpretation bytes_keys: collection_keys "\<lambda>k. k" bytes_less bytes_equal
  by unfold_locales (simp_all add: bytes_less_def bytes_equal_def compare_unsigned_eq)

text \<open>The keys of sets and maps of \<open>varint\<close>s, numbers of any length, and the empty value below them all.\<close>

definition varint_value :: "bytes \<Rightarrow> int" where
  "varint_value v =
     (let negative = (sint (hd v) < 0);
          num = foldl (\<lambda>num b. num * 256 + uint (if negative then NOT b else b)) 0 v
      in if negative then - (num + 1) else num)"

definition varint_compare :: "bytes \<Rightarrow> bytes \<Rightarrow> strong_ordering" where
  "varint_compare v1 v2 =
     (if v1 = [] then if v2 = [] then Ord_equal else Ord_less
      else if v2 = [] then Ord_greater
      else let a = varint_value v1; b = varint_value v2
        in if a = b then Ord_equal else if a < b then Ord_less else Ord_greater)"

definition varint_less :: "bytes \<Rightarrow> bytes \<Rightarrow> bool" where
  "varint_less x y \<longleftrightarrow> varint_compare x y = Ord_less"

definition varint_equal :: "bytes \<Rightarrow> bytes \<Rightarrow> bool" where
  "varint_equal x y \<longleftrightarrow> varint_compare x y = Ord_equal"

definition varint_rank :: "bytes \<Rightarrow> bool \<times> int" where
  "varint_rank v = (v \<noteq> [], if v = [] then 0 else varint_value v)"

interpretation varint_keys: collection_keys varint_rank varint_less varint_equal
  by unfold_locales (auto simp: varint_less_def varint_equal_def varint_rank_def varint_compare_def Let_def)

section \<open>Compaction\<close>

text \<open>What a reader sees of a collection at a time: the live cells that no tombstone covers.\<close>

definition visible_cells :: "atomic_cell collection_mutation \<Rightarrow> tombstone \<Rightarrow> int \<Rightarrow> (bytes \<times> atomic_cell) list" where
  "visible_cells c tomb now = filter (\<lambda>e. cell_is_live_at (snd e) (tomb_apply tomb (cm_tomb c)) now False) (cm_cells c)"

lemma covered_apply: "cell_is_covered_by c (tomb_apply t u) False \<longleftrightarrow> cell_is_covered_by c t False \<or> cell_is_covered_by c u False"
  by (auto simp: cell_is_covered_by_def tomb_apply_def tomb_compare_def)

lemma dead_version_simps [simp]: "\<not> cell_is_live (dead_version c)" "cell_timestamp (dead_version c) = cell_timestamp c"
  by (simp_all add: dead_version_def)

text \<open>The survivors and the count of live cells after compacting some cells.\<close>

definition survives :: "tombstone \<Rightarrow> row_tombstone \<Rightarrow> int \<Rightarrow> bytes \<times> atomic_cell \<Rightarrow> bool" where
  "survives t base_tomb now e \<longleftrightarrow> cell_is_live (snd e) \<and> \<not> cell_is_covered_by (snd e) t False \<and>
     \<not> cell_is_covered_by (snd e) (rt_shadowable base_tomb) False \<and> \<not> cell_has_expired (snd e) now"

lemma compact_element_step:
  fixes t base_tomb now can_gc gc_before collector
  defines "step \<equiv> compact_element t base_tomb now can_gc gc_before collector"
  shows "filter (\<lambda>e. cell_is_live (snd e)) (cc_survivors (step st e)) =
      filter (\<lambda>e. cell_is_live (snd e)) (cc_survivors st) @ (if survives t base_tomb now e then [e] else [])"
    "live_cells (cc_result (step st e)) = live_cells (cc_result st) + (if survives t base_tomb now e then 1 else 0)"
    "dead_cells (cc_result (step st e)) = dead_cells (cc_result st) + (if survives t base_tomb now e then 0 else 1)"
  unfolding step_def compact_element_def survives_def Let_def
  by (cases "cell_is_covered_by (snd e) t False \<or> cell_is_covered_by (snd e) (rt_shadowable base_tomb) False";
      cases "cell_has_expired (snd e) now"; cases "cell_is_live (snd e)"; simp)+

lemma compact_elements:
  fixes t base_tomb now can_gc gc_before collector
  defines "run \<equiv> foldl (compact_element t base_tomb now can_gc gc_before collector)"
  shows "filter (\<lambda>e. cell_is_live (snd e)) (cc_survivors (run st es)) =
      filter (\<lambda>e. cell_is_live (snd e)) (cc_survivors st) @ filter (survives t base_tomb now) es"
    "live_cells (cc_result (run st es)) = live_cells (cc_result st) + length (filter (survives t base_tomb now) es)"
    "dead_cells (cc_result (run st es)) =
      dead_cells (cc_result st) + length (filter (\<lambda>e. \<not> survives t base_tomb now e) es)"
  unfolding run_def by (induction es arbitrary: st; simp add: compact_element_step)+

text \<open>What a cell becomes, and that a collection stays well formed.\<close>

definition survivor :: "tombstone \<Rightarrow> row_tombstone \<Rightarrow> int \<Rightarrow> gc_fn \<Rightarrow> int \<Rightarrow> bytes \<times> atomic_cell \<Rightarrow> (bytes \<times> atomic_cell) list" where
  "survivor t base_tomb now can_gc gc_before e =
     (if cell_is_covered_by (snd e) t False \<or> cell_is_covered_by (snd e) (rt_shadowable base_tomb) False then []
      else if cell_has_expired (snd e) now
      then if cannot_erase_cell can_gc gc_before (snd e) then [(fst e, dead_version (snd e))] else []
      else if cell_is_live (snd e) \<or> cannot_erase_cell can_gc gc_before (snd e) then [e] else [])"

lemma compact_survivors:
  "cc_survivors (foldl (compact_element t base_tomb now can_gc gc_before collector) st es) =
     cc_survivors st @ concat (map (survivor t base_tomb now can_gc gc_before) es)"
proof (induction es arbitrary: st)
  case (Cons e es)
  have "cc_survivors (compact_element t base_tomb now can_gc gc_before collector st e) =
      cc_survivors st @ survivor t base_tomb now can_gc gc_before e"
    unfolding compact_element_def survivor_def Let_def
    by (cases "cell_is_covered_by (snd e) t False \<or> cell_is_covered_by (snd e) (rt_shadowable base_tomb) False";
        cases "cell_has_expired (snd e) now"; cases "cell_is_live (snd e)"; cases "cannot_erase_cell can_gc gc_before (snd e)"; simp)
  then show ?case using Cons by simp
qed simp

lemma survivor_cell:
  assumes "f \<in> set (survivor t base_tomb now can_gc gc_before e)"
  shows "fst f = fst e" "cell_timestamp (snd f) = cell_timestamp (snd e)" "snd e \<in> plain_cells \<Longrightarrow> snd f \<in> plain_cells"
proof -
  have f: "f = e \<or> f = (fst e, dead_version (snd e)) \<and> cell_has_expired (snd e) now"
    using assms by (auto simp: survivor_def split: if_splits)
  then show "fst f = fst e" "cell_timestamp (snd f) = cell_timestamp (snd e)" by auto
  show "snd f \<in> plain_cells" if "snd e \<in> plain_cells"
    using f that by (cases "snd e") (auto simp: plain_cells_def dead_version_def cell_has_expired_def)
qed

lemma sorted_survivors:
  "sorted_by key es \<Longrightarrow> (\<And>e f. f \<in> set (g e) \<Longrightarrow> key f = key e) \<Longrightarrow> (\<And>e. length (g e) \<le> 1) \<Longrightarrow> sorted_by key (concat (map g es))"
proof (induction es)
  case (Cons e es)
  have "\<forall>x \<in> set (concat (map g es)). key e < key x" using Cons.prems(1,2) by auto
  moreover obtain x where "g e = [] \<or> g e = [x]" using Cons.prems(3)[of e] by (cases "g e") (auto simp: le_Suc_eq)
  moreover have "sorted_by key (concat (map g es))" using Cons by auto
  ultimately show ?case using Cons.prems(2)[of x e] by auto
qed simp

context collection_keys
begin

lemma collection_wf_compact:
  assumes "collection_wf c" "collection_compact_and_expire c base_tomb now can_gc gc_before collector = (res, c', g)"
  shows "collection_wf c'"
proof -
  let ?s = "survivor (tomb_apply (cm_tomb c) (rt_regular base_tomb)) base_tomb now can_gc gc_before"
  have c': "cm_cells c' = concat (map ?s (cm_cells c))" "cm_tomb c' = cm_tomb c \<or> cm_tomb c' = no_tombstone"
    using assms(2) by (auto simp: collection_compact_and_expire_def Let_def compact_survivors)
  have w: "sorted_by element_rank (cm_cells c)" "tomb_wf (cm_tomb c)"
    "\<forall>e \<in> set (cm_cells c). snd e \<in> plain_cells \<and> tomb_timestamp (cm_tomb c) < cell_timestamp (snd e)"
    using assms(1) by (auto simp: collection_wf_def)
  have "sorted_by element_rank (cm_cells c')"
    unfolding c'(1) using w(1) by (rule sorted_survivors) (auto simp: element_rank_def survivor_cell(1), simp add: survivor_def)
  moreover have "tomb_wf (cm_tomb c')" "tomb_timestamp (cm_tomb c') \<le> tomb_timestamp (cm_tomb c)"
    using c'(2) w(2) tomb_wf_least(2)[OF w(2)] by (auto simp: tomb_wf_def no_tombstone_def)
  moreover have "snd f \<in> plain_cells \<and> tomb_timestamp (cm_tomb c) < cell_timestamp (snd f)" if f: "f \<in> set (cm_cells c')" for f
  proof -
    obtain e where e: "e \<in> set (cm_cells c)" "f \<in> set (?s e)" using f c'(1) by auto
    then show ?thesis using survivor_cell[OF e(2)] w(3) by simp
  qed
  ultimately show ?thesis by (fastforce simp: collection_wf_def)
qed

end

lemma covered_regular: "rt_inv t \<Longrightarrow> cell_is_covered_by c (rt_regular t) False \<Longrightarrow> cell_is_covered_by c (rt_shadowable t) False"
  by (auto simp: rt_inv_def tomb_key_def cell_is_covered_by_def)

lemma survives_visible:
  assumes "rt_inv base_tomb"
  shows "filter (survives (tomb_apply (cm_tomb c) (rt_regular base_tomb)) base_tomb now) (cm_cells c) =
    visible_cells c (rt_shadowable base_tomb) now"
proof -
  have "survives (tomb_apply (cm_tomb c) (rt_regular base_tomb)) base_tomb now e \<longleftrightarrow>
      cell_is_live_at (snd e) (tomb_apply (rt_shadowable base_tomb) (cm_tomb c)) now False" for e
    using covered_regular[OF assms, of "snd e"]
    by (auto simp: survives_def cell_is_live_at_def covered_apply)
  then show ?thesis unfolding visible_cells_def by (intro filter_cong) auto
qed

text \<open>Compacting a collection changes nothing that a reader at that time can see, whatever it purges, even if the
  tombstone of the row is removed afterwards, and it counts the cells that are seen.\<close>

lemma collection_compact_visible:
  assumes "rt_inv base_tomb" "tomb_wf (cm_tomb c)" "tomb_wf (rt_shadowable base_tomb)"
    "collection_compact_and_expire c base_tomb now can_gc gc_before collector = (res, c', g)"
  shows "tomb_timestamp u \<le> tomb_timestamp (rt_shadowable base_tomb) \<Longrightarrow>
      visible_cells c' u now = visible_cells c (rt_shadowable base_tomb) now"
    "live_cells res = length (visible_cells c (rt_shadowable base_tomb) now)"
    "dead_cells res = length (cm_cells c) - length (visible_cells c (rt_shadowable base_tomb) now)"
    "cm_tomb c' = cm_tomb c \<or> cm_tomb c' = no_tombstone"
proof -
  define t where "t = tomb_apply (cm_tomb c) (rt_regular base_tomb)"
  define st0 where "st0 = \<lparr>cc_result = if tomb_bool (cm_tomb c) then no_result\<lparr>collection_tombstones := 1\<rparr> else no_result,
    cc_survivors = [], cc_losers = []\<rparr>"
  define st where "st = foldl (compact_element t base_tomb now can_gc gc_before collector) st0 (cm_cells c)"
  have r: "res = cc_result st" "cm_cells c' = cc_survivors st" "cm_tomb c' = cm_tomb c \<or> cm_tomb c' = no_tombstone"
    using assms(4) by (auto simp: collection_compact_and_expire_def Let_def st_def st0_def t_def)
  show "cm_tomb c' = cm_tomb c \<or> cm_tomb c' = no_tombstone" by (rule r(3))
  note v = survives_visible[OF assms(1), of c now, folded t_def]
  have l: "filter (\<lambda>e. cell_is_live (snd e)) (cm_cells c') = visible_cells c (rt_shadowable base_tomb) now"
    unfolding r(2) st_def by (simp add: compact_elements v) (simp add: st0_def)
  have z: "live_cells (cc_result st0) = 0" "dead_cells (cc_result st0) = 0" by (auto simp: st0_def no_result_def)
  show "live_cells res = length (visible_cells c (rt_shadowable base_tomb) now)"
    unfolding r(1) st_def by (simp add: compact_elements v z)
  have "length (filter (\<lambda>e. \<not> survives t base_tomb now e) (cm_cells c)) = length (cm_cells c) - length (filter (survives t base_tomb now) (cm_cells c))"
    using sum_length_filter_compl[of "survives t base_tomb now" "cm_cells c"] by simp
  then show "dead_cells res = length (cm_cells c) - length (visible_cells c (rt_shadowable base_tomb) now)"
    unfolding r(1) st_def by (simp add: compact_elements v z)
  assume u: "tomb_timestamp u \<le> tomb_timestamp (rt_shadowable base_tomb)"
  have "cell_is_live_at (snd e) (tomb_apply u (cm_tomb c')) now False"
    if "e \<in> set (visible_cells c (rt_shadowable base_tomb) now)" for e
  proof -
    have e: "cell_is_live_at (snd e) (tomb_apply (rt_shadowable base_tomb) (cm_tomb c)) now False"
      using that by (simp add: visible_cells_def)
    have "\<not> cell_is_covered_by (snd e) no_tombstone False"
      using e tomb_wf_least(2)[OF assms(2)] by (auto simp: cell_is_live_at_def tomb_timestamp_apply cell_is_covered_by_def no_tombstone_def)
    moreover have "\<not> cell_is_covered_by (snd e) u False"
      using e u by (auto simp: cell_is_live_at_def tomb_timestamp_apply cell_is_covered_by_def)
    ultimately show ?thesis using e r(3) by (auto simp: cell_is_live_at_def covered_apply)
  qed
  then have "filter (\<lambda>e. cell_is_live_at (snd e) (tomb_apply u (cm_tomb c')) now False)
      (filter (\<lambda>e. cell_is_live (snd e)) (cm_cells c')) = visible_cells c (rt_shadowable base_tomb) now"
    unfolding l by (simp add: filter_id_conv)
  moreover have "filter (\<lambda>e. cell_is_live_at (snd e) (tomb_apply u (cm_tomb c')) now False)
      (filter (\<lambda>e. cell_is_live (snd e)) (cm_cells c')) = visible_cells c' u now"
    unfolding visible_cells_def filter_filter by (rule filter_cong) (auto simp: cell_is_live_at_def)
  ultimately show "visible_cells c' u now = visible_cells c (rt_shadowable base_tomb) now" by simp
qed

section \<open>Properties\<close>

text \<open>C32: For keys in an order that some rank gives, and collections in that order without cells that their own tombstone
  covers, mutations of a collection merge to the same collection whatever the order and grouping in which replicas merge
  them and however often one arrives, and merging the difference of \<open>a\<close> and \<open>b\<close> into \<open>b\<close> is as good as merging \<open>a\<close> into
  it. All the results are again in order and free of covered cells. Where two keys that are not the same bytes are equal for
  their type, as numbers with leading zeros are, replicas may keep different ones of them; the tombstone, the ranks of the
  keys and the cells agree, and all the bytes do if the rank tells keys apart.\<close>

theorem collection_merge_converges:
  assumes "collection_keys rank key_less key_equal" "collection_keys.collection_wf rank a"
    "collection_keys.collection_wf rank b" "collection_keys.collection_wf rank c"
  shows "same_collection rank (collection_merge key_less a b) (collection_merge key_less b a) \<and>
    same_collection rank (collection_merge key_less (collection_merge key_less a b) c)
      (collection_merge key_less a (collection_merge key_less b c)) \<and>
    collection_merge key_less a a = a \<and> collection_keys.collection_wf rank (collection_merge key_less a b) \<and>
    collection_merge key_less b (collection_difference key_less key_equal a b) = collection_merge key_less b a \<and>
    (inj rank \<longrightarrow> collection_merge key_less a b = collection_merge key_less b a)"
proof -
  note com = collection_keys.merge_commute[OF assms(1-3)]
  then have "inj rank \<longrightarrow> collection_merge key_less a b = collection_merge key_less b a" by (auto simp: same_collection_inj)
  then show ?thesis using com
    by (intro conjI collection_keys.merge_assoc[OF assms] collection_keys.merge_idem[OF assms(1,2)]
      collection_keys.collection_wf_merge[OF assms(1-3)] collection_keys.merge_difference[OF assms(1-3)])
qed

definition ex_collection :: "int \<Rightarrow> (bytes \<times> atomic_cell) list \<Rightarrow> atomic_cell collection_mutation" where
  "ex_collection ts es = \<lparr>cm_tomb = \<lparr>tomb_timestamp = ts, tomb_deletion_time = 9\<rparr>, cm_cells = es\<rparr>"

lemma collection_merge_converges_witness:
  "same_collection varint_rank
     (collection_merge varint_less (ex_collection 5 [([1], Live_cell 7 [1])]) (ex_collection 6 [([0, 1], Dead_cell 8 3)]))
     (collection_merge varint_less (ex_collection 6 [([0, 1], Dead_cell 8 3)]) (ex_collection 5 [([1], Live_cell 7 [1])])) \<and>
   cm_cells (collection_merge varint_less (ex_collection 5 [([1], Live_cell 7 [1])]) (ex_collection 6 [([0, 1], Dead_cell 8 3)])) =
     [([1], Dead_cell 8 3)] \<and>
   cm_cells (collection_merge varint_less (ex_collection 6 [([0, 1], Dead_cell 8 3)]) (ex_collection 5 [([1], Live_cell 7 [1])])) =
     [([0, 1], Dead_cell 8 3)]"
proof -
  have w: "varint_keys.collection_wf (ex_collection 5 [([1], Live_cell 7 [1])])" "varint_keys.collection_wf (ex_collection 6 [([0, 1], Dead_cell 8 3)])"
    by (simp_all add: varint_keys.collection_wf_def ex_collection_def plain_cells_def int_range_def tomb_wf_def missing_timestamp_def)
  have v: "varint_value [1] = 1" "varint_value [0, 1] = 1" by (simp_all add: varint_value_def)
  have "cm_cells (collection_merge varint_less (ex_collection 5 [([1], Live_cell 7 [1])]) (ex_collection 6 [([0, 1], Dead_cell 8 3)])) =
      [([1], Dead_cell 8 3)]"
    "cm_cells (collection_merge varint_less (ex_collection 6 [([0, 1], Dead_cell 8 3)]) (ex_collection 5 [([1], Live_cell 7 [1])])) =
      [([0, 1], Dead_cell 8 3)]"
    by (simp_all add: collection_merge_def ex_collection_def cell_killed_def combine.simps element_compare_def element_merge_def
      varint_less_def varint_compare_def v compare_atomic_cell_for_merge_def)
  then show ?thesis using collection_merge_converges[OF varint_keys.collection_keys_axioms w w(1)] by blast
qed

text \<open>C33: A collection that has less than \<open>2 ^ 32\<close> cells, with keys and values of less than that many bytes each, is
  read back from what \<open>serialize\<close> writes, to the last byte.\<close>

theorem collection_round_trip:
  assumes "serializable c"
  shows "deserialize_collection_mutation (serialize_collection_mutation c) = Some c"
  by (rule deserialize_serialize[OF assms])

lemma collection_round_trip_witness:
  "deserialize_collection_mutation [0, 0, 0, 0, 1, 0, 0, 0, 2, 65, 66, 0, 0, 0, 1, 7] =
     Some \<lparr>cm_tomb = no_tombstone, cm_cells = [([65, 66], [7])]\<rparr>"
proof -
  have "serialize_collection_mutation \<lparr>cm_tomb = no_tombstone, cm_cells = [([65, 66], [7])]\<rparr> =
      [0, 0, 0, 0, 1, 0, 0, 0, 2, 65, 66, 0, 0, 0, 1, 7]" by code_simp
  then show ?thesis
    using collection_round_trip[of "\<lparr>cm_tomb = no_tombstone, cm_cells = [([65, 66], [7])]\<rparr>"] by (simp add: serializable_def)
qed

end
