(* ===== verification/Mutation_Row.thy ===== *)
theory Mutation_Row
  imports Counters Collection_Mutation
begin

text \<open>
  Rows, from \<open>class row\<close>, \<open>class lazy_row\<close> and \<open>class deletable_row\<close> of \<open>src/mutation/mutation_partition.hh\<close> and
  \<open>src/mutation/mutation_partition.cc\<close>. A row has a cell or a collection for each of its columns; a deletable row
  has a marker and a row tombstone besides. The schema tells which columns hold counters and collections.

  The cells of a row are kept in a radix tree from column identifiers to cells; here it is the list of its entries
  in the order of a walk. What is stored for a column is raw bytes that the type of the column gives a meaning to;
  here it is an atomic cell or a collection, and reading one as the other fails (\<open>None\<close>), as does
  \<open>column_at\<close> for a column that the schema does not have.
\<close>

section \<open>Columns and cells\<close>

datatype column_kind = Partition_key | Clustering_key | Static_column | Regular_column

text \<open>A column with its type: \<open>col_type\<close> identifies it, \<open>col_key_less\<close> and \<open>col_key_equal\<close> compare the keys of a collection.\<close>

record column_definition =
  col_id :: nat
  col_name :: bytes
  col_type :: nat
  col_is_atomic :: bool
  col_is_counter :: bool
  col_key_less :: "bytes \<Rightarrow> bytes \<Rightarrow> bool"
  col_key_equal :: "bytes \<Rightarrow> bytes \<Rightarrow> bool"

record table_schema =
  column_at :: "column_kind \<Rightarrow> nat \<Rightarrow> column_definition option"
  is_view :: bool
  has_base_non_pk_columns_in_view_pk :: bool

datatype cell_or_collection = Atomic atomic_cell | Collection "atomic_cell collection_mutation"

fun as_atomic_cell :: "cell_or_collection \<Rightarrow> atomic_cell option" where
  "as_atomic_cell (Atomic c) = Some c"
| "as_atomic_cell (Collection _) = None"

fun as_collection_mutation :: "cell_or_collection \<Rightarrow> atomic_cell collection_mutation option" where
  "as_collection_mutation (Atomic _) = None"
| "as_collection_mutation (Collection m) = Some m"

record cell_and_hash =
  cah_cell :: cell_or_collection
  cah_hash :: "nat option"

definition cell_or_collection_equals :: "column_definition \<Rightarrow> cell_or_collection \<Rightarrow> cell_or_collection \<Rightarrow> bool option" where
  "cell_or_collection_equals def a b =
     (if col_is_atomic def then do { x \<leftarrow> as_atomic_cell a; y \<leftarrow> as_atomic_cell b; Some (cell_equals x y) }
      else do { x \<leftarrow> as_collection_mutation a; y \<leftarrow> as_collection_mutation b; Some (x = y) })"

text \<open>Merging a cell into a cell of the same column. A counter and a collection lose the cached hash, an atomic cell
  takes that of the cell that replaces it.\<close>

definition apply_cell :: "column_definition \<Rightarrow> cell_and_hash \<Rightarrow> cell_or_collection \<Rightarrow> nat option \<Rightarrow> cell_and_hash option" where
  "apply_cell def dst src src_hash =
     (if col_is_atomic def
      then do {
        d \<leftarrow> as_atomic_cell (cah_cell dst);
        s \<leftarrow> as_atomic_cell src;
        if col_is_counter def
        then do {
          (d', s') \<leftarrow> counter_apply d s;
          Some \<lparr>cah_cell = Atomic d', cah_hash = None\<rparr> }
        else if compare_atomic_cell_for_merge d s = Ord_less
        then Some \<lparr>cah_cell = src, cah_hash = src_hash\<rparr>
        else Some dst }
      else do {
        d \<leftarrow> as_collection_mutation (cah_cell dst);
        s \<leftarrow> as_collection_mutation src;
        Some \<lparr>cah_cell = Collection (collection_merge (col_key_less def) d s), cah_hash = None\<rparr> })"

section \<open>Rows\<close>

record row =
  row_size :: nat
  row_cells :: "(nat \<times> cell_and_hash) list"

definition empty_row :: row where
  "empty_row = \<lparr>row_size = 0, row_cells = []\<rparr>"

definition row_empty :: "row \<Rightarrow> bool" where
  "row_empty r \<longleftrightarrow> row_size r = 0"

text \<open>\<open>emplace\<close> of the tree: the entry is replaced if there is one for the key.\<close>

primrec tree_emplace :: "nat \<Rightarrow> 'v \<Rightarrow> (nat \<times> 'v) list \<Rightarrow> (nat \<times> 'v) list" where
  "tree_emplace i v [] = [(i, v)]"
| "tree_emplace i v (e # es) =
     (if fst e < i then e # tree_emplace i v es
      else if fst e = i then (i, v) # es
      else (i, v) # e # es)"

definition find_cell_and_hash :: "row \<Rightarrow> nat \<Rightarrow> cell_and_hash option" where
  "find_cell_and_hash r i = map_option snd (lookup_by fst (row_cells r) i)"

definition find_cell :: "row \<Rightarrow> nat \<Rightarrow> cell_or_collection option" where
  "find_cell r i = (case find_cell_and_hash r i of None \<Rightarrow> None | Some cah \<Rightarrow> Some (cah_cell cah))"

definition row_apply_cell :: "column_definition \<Rightarrow> cell_or_collection \<Rightarrow> nat option \<Rightarrow> row \<Rightarrow> row option" where
  "row_apply_cell column value hash r =
     (let i = col_id column
      in case find_cell_and_hash r i of
           None \<Rightarrow> Some (r\<lparr>row_cells := tree_emplace i \<lparr>cah_cell = value, cah_hash = hash\<rparr> (row_cells r), row_size := row_size r + 1\<rparr>)
         | Some cah \<Rightarrow> do {
             cah' \<leftarrow> apply_cell column cah value hash;
             Some (r\<lparr>row_cells := tree_emplace i cah' (row_cells r)\<rparr>) })"

definition append_cell :: "nat \<Rightarrow> cell_or_collection \<Rightarrow> row \<Rightarrow> row" where
  "append_cell i value r =
     r\<lparr>row_cells := tree_emplace i \<lparr>cah_cell = value, cah_hash = None\<rparr> (row_cells r), row_size := row_size r + 1\<rparr>"

text \<open>The walk over the cells of the other row.\<close>

primrec apply_cells :: "table_schema \<Rightarrow> column_kind \<Rightarrow> (nat \<times> cell_and_hash) list \<Rightarrow> row \<Rightarrow> row option" where
  "apply_cells s kind [] r = Some r"
| "apply_cells s kind (c # cs) r = do {
     def \<leftarrow> column_at s kind (fst c);
     r' \<leftarrow> row_apply_cell def (cah_cell (snd c)) (cah_hash (snd c)) r;
     apply_cells s kind cs r' }"

definition row_apply :: "table_schema \<Rightarrow> column_kind \<Rightarrow> row \<Rightarrow> row \<Rightarrow> row option" where
  "row_apply s kind r other = (if row_empty other then Some r else apply_cells s kind (row_cells other) r)"

text \<open>The variant that consumes the other row, which it leaves empty.\<close>

definition row_apply_consuming :: "table_schema \<Rightarrow> column_kind \<Rightarrow> row \<Rightarrow> row \<Rightarrow> (row \<times> row) option" where
  "row_apply_consuming s kind r other =
     (if row_empty other then Some (r, other)
      else do {
        r' \<leftarrow> apply_cells s kind (row_cells other) r;
        Some (r', other\<lparr>row_cells := [], row_size := row_size other - length (row_cells other)\<rparr>) })"

text \<open>Whether a cell is live; a walk stops at the first live cell.\<close>

definition cell_live_in :: "column_definition \<Rightarrow> cell_or_collection \<Rightarrow> tombstone \<Rightarrow> int \<Rightarrow> bool option" where
  "cell_live_in def c tomb now =
     (if col_is_atomic def then map_option (\<lambda>x. cell_is_live_at x tomb now (col_is_counter def)) (as_atomic_cell c)
      else map_option (\<lambda>m. collection_is_any_live m tomb now) (as_collection_mutation c))"

primrec any_live_loop :: "table_schema \<Rightarrow> column_kind \<Rightarrow> tombstone \<Rightarrow> int \<Rightarrow> (nat \<times> cell_and_hash) list \<Rightarrow> bool option" where
  "any_live_loop s kind tomb now [] = Some False"
| "any_live_loop s kind tomb now (c # cs) = do {
     def \<leftarrow> column_at s kind (fst c);
     live \<leftarrow> cell_live_in def (cah_cell (snd c)) tomb now;
     if live then Some True else any_live_loop s kind tomb now cs }"

definition has_any_live_data :: "table_schema \<Rightarrow> column_kind \<Rightarrow> row \<Rightarrow> tombstone \<Rightarrow> int \<Rightarrow> bool option" where
  "has_any_live_data s kind cells tomb now = any_live_loop s kind tomb now (row_cells cells)"

definition row_is_live :: "table_schema \<Rightarrow> column_kind \<Rightarrow> row \<Rightarrow> tombstone \<Rightarrow> int \<Rightarrow> bool option" where
  "row_is_live s kind r base_tombstone query_time = has_any_live_data s kind r base_tombstone query_time"

datatype row_error = Out_of_range nat

definition row_cell_at :: "row \<Rightarrow> nat \<Rightarrow> row_error + cell_or_collection" where
  "row_cell_at r i = (case find_cell r i of None \<Rightarrow> Inl (Out_of_range i) | Some c \<Rightarrow> Inr c)"

definition cells_equal :: "column_kind \<Rightarrow> table_schema \<Rightarrow> table_schema \<Rightarrow> nat \<times> cell_and_hash \<Rightarrow> nat \<times> cell_and_hash \<Rightarrow> bool option" where
  "cells_equal kind this_schema other_schema c1 c2 = do {
     d1 \<leftarrow> column_at this_schema kind (fst c1);
     d2 \<leftarrow> column_at other_schema kind (fst c2);
     if col_type d1 = col_type d2 \<and> col_name d1 = col_name d2
     then cell_or_collection_equals d1 (cah_cell (snd c1)) (cah_cell (snd c2))
     else Some False }"

fun row_equal_loop :: "column_kind \<Rightarrow> table_schema \<Rightarrow> table_schema \<Rightarrow> (nat \<times> cell_and_hash) list \<Rightarrow> (nat \<times> cell_and_hash) list \<Rightarrow> bool option" where
  "row_equal_loop kind s1 s2 [] cs2 = Some (cs2 = [])"
| "row_equal_loop kind s1 s2 (c1 # cs1) [] = Some False"
| "row_equal_loop kind s1 s2 (c1 # cs1) (c2 # cs2) = do {
     eq \<leftarrow> cells_equal kind s1 s2 c1 c2;
     if \<not> eq then Some False else row_equal_loop kind s1 s2 cs1 cs2 }"

definition row_equal :: "column_kind \<Rightarrow> table_schema \<Rightarrow> row \<Rightarrow> row \<Rightarrow> table_schema \<Rightarrow> bool option" where
  "row_equal kind this_schema r other other_schema =
     (if row_size r \<noteq> row_size other then Some False
      else row_equal_loop kind this_schema other_schema (row_cells r) (row_cells other))"

section \<open>Compaction and difference of rows\<close>

definition dead_marker_shadows_row :: "table_schema \<Rightarrow> column_kind \<Rightarrow> row_marker \<Rightarrow> bool" where
  "dead_marker_shadows_row s kind marker \<longleftrightarrow>
     is_view s \<and> has_base_non_pk_columns_in_view_pk s \<and> \<not> rm_is_live marker \<and> kind = Regular_column"

definition can_erase_cell :: "gc_fn \<Rightarrow> int \<Rightarrow> atomic_cell \<Rightarrow> bool" where
  "can_erase_cell can_gc gc_before cell \<longleftrightarrow>
     the (cell_deletion_time cell) < gc_before \<and> can_gc (cell_tombstone cell) False"

text \<open>The step for one column: whether the entry is erased, what it becomes otherwise, the counts and what the
  collector, if there is one, is given.\<close>

type_synonym compacted_cell = "bool \<times> cell_or_collection \<times> compact_and_expire_result \<times> cell_or_collection list"

definition compact_atomic_cell :: "column_definition \<Rightarrow> row_tombstone \<Rightarrow> int \<Rightarrow> gc_fn \<Rightarrow> int \<Rightarrow> bool \<Rightarrow> atomic_cell \<Rightarrow> compacted_cell" where
  "compact_atomic_cell def tomb query_time can_gc gc_before collector cell =
     (let dead = no_result\<lparr>dead_cells := 1\<rparr>; erase = can_erase_cell can_gc gc_before cell;
          given = (if erase \<and> collector then [Atomic (dead_version cell)] else [])
      in if cell_is_covered_by cell (rt_regular tomb) (col_is_counter def) then (True, Atomic cell, dead, [])
         else if cell_is_covered_by cell (rt_shadowable tomb) (col_is_counter def) then (True, Atomic cell, dead, [])
         else if cell_has_expired cell query_time
         then (erase, Atomic (if erase then cell else dead_version cell), dead, given)
         else if \<not> cell_is_live cell then (erase, Atomic cell, dead, given)
         else (False, Atomic cell, no_result\<lparr>live_cells := 1\<rparr>, []))"

definition compact_collection :: "row_tombstone \<Rightarrow> int \<Rightarrow> gc_fn \<Rightarrow> int \<Rightarrow> bool \<Rightarrow> atomic_cell collection_mutation \<Rightarrow> compacted_cell" where
  "compact_collection tomb query_time can_gc gc_before collector c =
     (let (res, m, given) = collection_compact_and_expire c tomb query_time can_gc gc_before collector;
          erase = (cm_cells m = [] \<and> tomb_compare (cm_tomb m) (rt_tomb tomb) \<noteq> Ord_greater)
      in (erase, Collection (if erase then c else m), res, case given of None \<Rightarrow> [] | Some g \<Rightarrow> [Collection g]))"

definition compact_cell :: "column_definition \<Rightarrow> row_tombstone \<Rightarrow> int \<Rightarrow> gc_fn \<Rightarrow> int \<Rightarrow> bool \<Rightarrow> cell_or_collection \<Rightarrow> compacted_cell option" where
  "compact_cell def tomb query_time can_gc gc_before collector c =
     (if col_is_atomic def
      then map_option (compact_atomic_cell def tomb query_time can_gc gc_before collector) (as_atomic_cell c)
      else map_option (compact_collection tomb query_time can_gc gc_before collector) (as_collection_mutation c))"

record row_compaction =
  rc_result :: compact_and_expire_result
  rc_row :: row
  rc_given :: "(nat \<times> cell_or_collection) list"

text \<open>\<open>remove_if\<close> over the cells; a cached hash is not touched.\<close>

primrec compact_cells :: "table_schema \<Rightarrow> column_kind \<Rightarrow> row_tombstone \<Rightarrow> int \<Rightarrow> gc_fn \<Rightarrow> int \<Rightarrow> bool \<Rightarrow> (nat \<times> cell_and_hash) list \<Rightarrow>
    row_compaction \<Rightarrow> row_compaction option" where
  "compact_cells s kind tomb query_time can_gc gc_before collector [] st = Some st"
| "compact_cells s kind tomb query_time can_gc gc_before collector (c # cs) st = do {
     def \<leftarrow> column_at s kind (fst c);
     (erase, c', res, given) \<leftarrow> compact_cell def tomb query_time can_gc gc_before collector (cah_cell (snd c));
     let r = rc_row st;
     compact_cells s kind tomb query_time can_gc gc_before collector cs
       \<lparr>rc_result = result_plus (rc_result st) res,
        rc_row = (if erase then r\<lparr>row_size := row_size r - 1\<rparr>
                  else r\<lparr>row_cells := row_cells r @ [(fst c, (snd c)\<lparr>cah_cell := c'\<rparr>)]\<rparr>),
        rc_given = rc_given st @ map (Pair (fst c)) given\<rparr> }"

definition max_time_point :: int where
  "max_time_point = 2 ^ 63 - 1"

definition row_compact_and_expire :: "table_schema \<Rightarrow> column_kind \<Rightarrow> row \<Rightarrow> row_tombstone \<Rightarrow> int \<Rightarrow> gc_fn \<Rightarrow> int \<Rightarrow> row_marker \<Rightarrow> bool \<Rightarrow>
    row_compaction option" where
  "row_compact_and_expire s kind r tomb query_time can_gc gc_before marker collector =
     (let tomb =
        (if dead_marker_shadows_row s kind marker
         then rt_apply_shadowable tomb \<lparr>tomb_timestamp = max_timestamp, tomb_deletion_time = max_time_point\<rparr> no_marker
         else tomb)
      in compact_cells s kind tomb query_time can_gc gc_before collector (row_cells r)
           \<lparr>rc_result = no_result, rc_row = r\<lparr>row_cells := []\<rparr>, rc_given = []\<rparr>)"

text \<open>The variant without a marker.\<close>

definition row_compact_and_expire_unmarked :: "table_schema \<Rightarrow> column_kind \<Rightarrow> row \<Rightarrow> row_tombstone \<Rightarrow> int \<Rightarrow> gc_fn \<Rightarrow> int \<Rightarrow> bool \<Rightarrow>
    row_compaction option" where
  "row_compact_and_expire_unmarked s kind r tomb query_time can_gc gc_before collector =
     (let m = no_marker in row_compact_and_expire s kind r tomb query_time can_gc gc_before m collector)"

text \<open>The cell of the difference for a column that both rows have.\<close>

definition cell_difference :: "column_definition \<Rightarrow> cell_or_collection \<Rightarrow> cell_or_collection \<Rightarrow> cell_or_collection option option" where
  "cell_difference cdef c other =
     (if col_is_counter cdef
      then do {
        x \<leftarrow> as_atomic_cell c;
        y \<leftarrow> as_atomic_cell other;
        d \<leftarrow> counter_difference x y;
        Some (map_option Atomic d) }
      else if col_is_atomic cdef
      then do {
        x \<leftarrow> as_atomic_cell c;
        y \<leftarrow> as_atomic_cell other;
        Some (if compare_atomic_cell_for_merge x y = Ord_greater then Some c else None) }
      else do {
        x \<leftarrow> as_collection_mutation c;
        y \<leftarrow> as_collection_mutation other;
        let diff = collection_difference (col_key_less cdef) (col_key_equal cdef) x y;
        Some (if \<not> collection_is_empty diff then Some (Collection diff) else None) })"

primrec row_difference_loop :: "table_schema \<Rightarrow> column_kind \<Rightarrow> (nat \<times> cell_and_hash) list \<Rightarrow> (nat \<times> cell_and_hash) list \<Rightarrow> row \<Rightarrow> row option" where
  "row_difference_loop s kind [] it r = Some r"
| "row_difference_loop s kind (c # cs) it r = do {
     let it = dropWhile (\<lambda>e. fst e < fst c) it;
     cdef \<leftarrow> column_at s kind (fst c);
     d \<leftarrow> (if it = [] \<or> fst (hd it) \<noteq> fst c then Some (Some (cah_cell (snd c)))
          else cell_difference cdef (cah_cell (snd c)) (cah_cell (snd (hd it))));
     row_difference_loop s kind cs it (case d of None \<Rightarrow> r | Some x \<Rightarrow> append_cell (fst c) x r) }"

definition row_difference :: "table_schema \<Rightarrow> column_kind \<Rightarrow> row \<Rightarrow> row \<Rightarrow> row option" where
  "row_difference s kind r other = row_difference_loop s kind (row_cells r) (row_cells other) empty_row"

section \<open>Deletable rows\<close>

record deletable_row =
  dr_deleted_at :: row_tombstone
  dr_marker :: row_marker
  dr_cells :: row

definition empty_deletable_row :: deletable_row where
  "empty_deletable_row = \<lparr>dr_deleted_at = no_row_tombstone, dr_marker = no_marker, dr_cells = empty_row\<rparr>"

definition dr_maybe_shadow :: "deletable_row \<Rightarrow> deletable_row" where
  "dr_maybe_shadow d = d\<lparr>dr_deleted_at := rt_maybe_shadow (dr_deleted_at d) (dr_marker d)\<rparr>"

definition dr_apply_tombstone :: "deletable_row \<Rightarrow> tombstone \<Rightarrow> deletable_row" where
  "dr_apply_tombstone d deleted_at =
     dr_maybe_shadow (d\<lparr>dr_deleted_at := rt_apply_tombstone (dr_deleted_at d) deleted_at\<rparr>)"

definition dr_apply_shadowable :: "deletable_row \<Rightarrow> tombstone \<Rightarrow> deletable_row" where
  "dr_apply_shadowable d deleted_at = d\<lparr>dr_deleted_at := rt_apply_shadowable (dr_deleted_at d) deleted_at (dr_marker d)\<rparr>"

definition dr_apply_row_tombstone :: "deletable_row \<Rightarrow> row_tombstone \<Rightarrow> deletable_row" where
  "dr_apply_row_tombstone d deleted_at = d\<lparr>dr_deleted_at := rt_apply (dr_deleted_at d) deleted_at (dr_marker d)\<rparr>"

definition dr_apply_marker :: "deletable_row \<Rightarrow> row_marker \<Rightarrow> deletable_row" where
  "dr_apply_marker d rm = dr_maybe_shadow (d\<lparr>dr_marker := rm_apply (dr_marker d) rm\<rparr>)"

definition dr_remove_tombstone :: "deletable_row \<Rightarrow> deletable_row" where
  "dr_remove_tombstone d = d\<lparr>dr_deleted_at := no_row_tombstone\<rparr>"

definition dr_apply :: "table_schema \<Rightarrow> deletable_row \<Rightarrow> deletable_row \<Rightarrow> deletable_row option" where
  "dr_apply s d src = do {
     cells \<leftarrow> row_apply s Regular_column (dr_cells d) (dr_cells src);
     let marker = rm_apply (dr_marker d) (dr_marker src);
     Some \<lparr>dr_deleted_at = rt_apply (dr_deleted_at d) (dr_deleted_at src) marker, dr_marker = marker, dr_cells = cells\<rparr> }"

definition dr_equal :: "column_kind \<Rightarrow> table_schema \<Rightarrow> deletable_row \<Rightarrow> deletable_row \<Rightarrow> table_schema \<Rightarrow> bool option" where
  "dr_equal kind s d other other_schema =
     (if rt_compare (dr_deleted_at d) (dr_deleted_at other) \<noteq> Ord_equal \<or> \<not> rm_equal (dr_marker d) (dr_marker other) then Some False
      else row_equal kind s (dr_cells d) (dr_cells other) other_schema)"

definition dr_empty :: "deletable_row \<Rightarrow> bool" where
  "dr_empty d \<longleftrightarrow> \<not> rt_bool (dr_deleted_at d) \<and> rm_is_missing (dr_marker d) \<and> row_size (dr_cells d) = 0"

definition dr_is_live :: "table_schema \<Rightarrow> column_kind \<Rightarrow> deletable_row \<Rightarrow> tombstone \<Rightarrow> int \<Rightarrow> bool option" where
  "dr_is_live s kind d base_tombstone query_time =
     (let base_tombstone = tomb_apply base_tombstone (rt_tomb (dr_deleted_at d))
      in if rm_is_live_at (dr_marker d) base_tombstone query_time then Some True
         else row_is_live s kind (dr_cells d) base_tombstone query_time)"

definition dr_compact_and_expire :: "table_schema \<Rightarrow> deletable_row \<Rightarrow> tombstone \<Rightarrow> int \<Rightarrow> gc_fn \<Rightarrow> int \<Rightarrow> bool \<Rightarrow>
    (bool \<times> deletable_row \<times> (nat \<times> cell_or_collection) list) option" where
  "dr_compact_and_expire s d tomb query_time can_gc gc_before collector = do {
     let d = dr_apply_tombstone d tomb;
     let deleted_at = dr_deleted_at d;
     let (marker_live, marker, _) = rm_compact_and_expire (dr_marker d) (rt_tomb deleted_at) query_time can_gc gc_before False;
     rc \<leftarrow> row_compact_and_expire s Regular_column (dr_cells d) deleted_at query_time can_gc gc_before marker collector;
     let d = d\<lparr>dr_marker := marker, dr_cells := rc_row rc\<rparr>;
     let purge = (rt_max_deletion_time deleted_at < gc_before \<and> can_gc (rt_tomb deleted_at) (rt_is_shadowable deleted_at));
     let d = (if tomb_compare (rt_tomb deleted_at) tomb \<noteq> Ord_greater \<or> purge then dr_remove_tombstone d else d);
     Some (marker_live \<or> result_is_live (rc_result rc), d, rc_given rc) }"

definition dr_difference :: "table_schema \<Rightarrow> column_kind \<Rightarrow> deletable_row \<Rightarrow> deletable_row \<Rightarrow> deletable_row option" where
  "dr_difference s kind d other = do {
     let dr = empty_deletable_row;
     let dr = (if rt_compare (dr_deleted_at d) (dr_deleted_at other) = Ord_greater then dr_apply_row_tombstone dr (dr_deleted_at d) else dr);
     let dr = (if compare_row_marker_for_merge (dr_marker d) (dr_marker other) > 0 then dr_apply_marker dr (dr_marker d) else dr);
     cells \<leftarrow> row_difference s kind (dr_cells d) (dr_cells other);
     Some (dr\<lparr>dr_cells := cells\<rparr>) }"

section \<open>Lazy rows\<close>

text \<open>A lazy row has no row behind it while it is empty; \<open>get\<close> is the row it stands for.\<close>

type_synonym lazy_row = "row option"

text \<open>The copy of a row looks up the type of every cell.\<close>

definition row_copy :: "table_schema \<Rightarrow> column_kind \<Rightarrow> row \<Rightarrow> row option" where
  "row_copy s kind r = (if list_all (\<lambda>c. column_at s kind (fst c) \<noteq> None) (row_cells r) then Some r else None)"

definition make_lazy_row :: "row \<Rightarrow> lazy_row" where
  "make_lazy_row r = (if \<not> row_empty r then Some r else None)"

definition lazy_empty :: "lazy_row \<Rightarrow> bool" where
  "lazy_empty l = (case l of None \<Rightarrow> True | Some r \<Rightarrow> row_empty r)"

definition lazy_copy :: "table_schema \<Rightarrow> column_kind \<Rightarrow> row \<Rightarrow> lazy_row option" where
  "lazy_copy s kind r = (if \<not> row_empty r then map_option Some (row_copy s kind r) else Some None)"

definition lazy_copy_lazy :: "table_schema \<Rightarrow> column_kind \<Rightarrow> lazy_row \<Rightarrow> lazy_row option" where
  "lazy_copy_lazy s kind l = (if \<not> lazy_empty l then map_option Some (row_copy s kind (the l)) else Some None)"

definition maybe_create :: "lazy_row \<Rightarrow> row" where
  "maybe_create l = (case l of None \<Rightarrow> empty_row | Some r \<Rightarrow> r)"

definition lazy_get :: "lazy_row \<Rightarrow> row" where
  "lazy_get l = (case l of Some r \<Rightarrow> r | None \<Rightarrow> empty_row)"

definition lazy_size :: "lazy_row \<Rightarrow> nat" where
  "lazy_size l = (case l of None \<Rightarrow> 0 | Some r \<Rightarrow> row_size r)"

definition lazy_reserve :: "nat \<Rightarrow> lazy_row \<Rightarrow> lazy_row" where
  "lazy_reserve nr l = (if nr \<noteq> 0 then Some (maybe_create l) else l)"

definition lazy_cell_at :: "lazy_row \<Rightarrow> nat \<Rightarrow> row_error + cell_or_collection" where
  "lazy_cell_at l i = (case l of None \<Rightarrow> Inl (Out_of_range i) | Some r \<Rightarrow> row_cell_at r i)"

definition lazy_find_cell_and_hash :: "lazy_row \<Rightarrow> nat \<Rightarrow> cell_and_hash option" where
  "lazy_find_cell_and_hash l i = (case l of None \<Rightarrow> None | Some r \<Rightarrow> find_cell_and_hash r i)"

definition lazy_find_cell :: "lazy_row \<Rightarrow> nat \<Rightarrow> cell_or_collection option" where
  "lazy_find_cell l i = (case l of None \<Rightarrow> None | Some r \<Rightarrow> find_cell r i)"

definition lazy_apply_cell :: "column_definition \<Rightarrow> cell_or_collection \<Rightarrow> nat option \<Rightarrow> lazy_row \<Rightarrow> lazy_row option" where
  "lazy_apply_cell column cell hash l = map_option Some (row_apply_cell column cell hash (maybe_create l))"

definition lazy_append_cell :: "nat \<Rightarrow> cell_or_collection \<Rightarrow> lazy_row \<Rightarrow> lazy_row" where
  "lazy_append_cell i cell l = Some (append_cell i cell (maybe_create l))"

definition lazy_apply_row :: "table_schema \<Rightarrow> column_kind \<Rightarrow> lazy_row \<Rightarrow> row \<Rightarrow> lazy_row option" where
  "lazy_apply_row s kind l src =
     (if row_empty src then Some l else map_option Some (row_apply s kind (maybe_create l) src))"

definition lazy_apply :: "table_schema \<Rightarrow> column_kind \<Rightarrow> lazy_row \<Rightarrow> lazy_row \<Rightarrow> lazy_row option" where
  "lazy_apply s kind l src =
     (if lazy_empty src then Some l else map_option Some (row_apply s kind (maybe_create l) (the src)))"

text \<open>Consuming a row, which is left empty.\<close>

definition lazy_apply_row_consuming :: "table_schema \<Rightarrow> column_kind \<Rightarrow> lazy_row \<Rightarrow> row \<Rightarrow> (lazy_row \<times> row) option" where
  "lazy_apply_row_consuming s kind l src =
     (if row_empty src then Some (l, src)
      else map_option (map_prod Some (\<lambda>r. r)) (row_apply_consuming s kind (maybe_create l) src))"

text \<open>Consuming another lazy row: its row is taken over if there is no row yet.\<close>

definition lazy_apply_consuming :: "table_schema \<Rightarrow> column_kind \<Rightarrow> lazy_row \<Rightarrow> lazy_row \<Rightarrow> (lazy_row \<times> lazy_row) option" where
  "lazy_apply_consuming s kind l src =
     (if lazy_empty src then Some (l, src)
      else case l of
             None \<Rightarrow> Some (src, None)
           | Some r \<Rightarrow> map_option (map_prod Some Some) (row_apply_consuming s kind r (the src)))"

definition lazy_compact_and_expire :: "table_schema \<Rightarrow> column_kind \<Rightarrow> lazy_row \<Rightarrow> row_tombstone \<Rightarrow> int \<Rightarrow> gc_fn \<Rightarrow> int \<Rightarrow> row_marker \<Rightarrow> bool \<Rightarrow>
    (bool \<times> lazy_row) option" where
  "lazy_compact_and_expire s kind l tomb query_time can_gc gc_before marker collector =
     (case l of
        None \<Rightarrow> Some (False, None)
      | Some r \<Rightarrow> map_option (\<lambda>rc. (result_is_live (rc_result rc), Some (rc_row rc)))
                    (row_compact_and_expire s kind r tomb query_time can_gc gc_before marker collector))"

text \<open>The variant for rows without a marker, such as the static row.\<close>

definition lazy_compact_and_expire_unmarked :: "table_schema \<Rightarrow> column_kind \<Rightarrow> lazy_row \<Rightarrow> row_tombstone \<Rightarrow> int \<Rightarrow> gc_fn \<Rightarrow> int \<Rightarrow> bool \<Rightarrow>
    (bool \<times> lazy_row) option" where
  "lazy_compact_and_expire_unmarked s kind l tomb query_time can_gc gc_before collector =
     (case l of
        None \<Rightarrow> Some (False, None)
      | Some r \<Rightarrow> map_option (\<lambda>rc. (result_is_live (rc_result rc), Some (rc_row rc)))
                    (row_compact_and_expire_unmarked s kind r tomb query_time can_gc gc_before collector))"

definition lazy_difference :: "table_schema \<Rightarrow> column_kind \<Rightarrow> lazy_row \<Rightarrow> lazy_row \<Rightarrow> lazy_row option" where
  "lazy_difference s kind l other =
     (case (l, other) of
        (None, _) \<Rightarrow> Some None
      | (Some r, None) \<Rightarrow> lazy_copy s kind r
      | (Some r, Some o') \<Rightarrow> map_option make_lazy_row (row_difference s kind r o'))"

definition lazy_equal :: "column_kind \<Rightarrow> table_schema \<Rightarrow> lazy_row \<Rightarrow> lazy_row \<Rightarrow> table_schema \<Rightarrow> bool option" where
  "lazy_equal kind this_schema l other other_schema =
     (let e1 = lazy_empty l; e2 = lazy_empty other
      in if e1 \<and> e2 then Some True
         else if e1 \<noteq> e2 then Some False
         else row_equal kind this_schema (the l) (the other) other_schema)"

definition lazy_is_live :: "table_schema \<Rightarrow> column_kind \<Rightarrow> lazy_row \<Rightarrow> tombstone \<Rightarrow> int \<Rightarrow> bool option" where
  "lazy_is_live s kind l tomb now = (case l of None \<Rightarrow> Some False | Some r \<Rightarrow> row_is_live s kind r tomb now)"

end
