(* ===== verification/Row_Merge.thy ===== *)
theory Row_Merge
  imports Mutation_Row
begin

text \<open>
  Merging of rows. A row is well formed for a schema if its entries are in order and every cell has the type of its
  column; the operations keep that and never fail on such rows. Merging is then described column by column, and
  the theorems on the order of merges, on differences and on lazy rows follow from those on cells and collections.
\<close>

section \<open>Entries in order\<close>

lemma lookup_tree_emplace:
  "sorted_by fst es \<Longrightarrow> lookup_by fst (tree_emplace i v es) k = (if k = i then Some (i, v) else lookup_by fst es k)"
proof (induction es)
  case (Cons e es)
  show ?case
  proof (cases "fst e < i")
    case True
    then show ?thesis using Cons by auto
  next
    case False
    then show ?thesis by (auto simp: prod_eq_iff)
  qed
qed auto

lemma set_tree_emplace: "set (tree_emplace i v es) \<subseteq> insert (i, v) (set es)" "(i, v) \<in> set (tree_emplace i v es)"
  by (induction es) auto

lemma sorted_tree_emplace: "sorted_by fst es \<Longrightarrow> sorted_by fst (tree_emplace i v es)"
proof (induction es)
  case (Cons e es)
  show ?case
  proof (cases "fst e < i")
    case True
    then show ?thesis using Cons set_tree_emplace(1)[of i v es] by fastforce
  next
    case False
    then show ?thesis using Cons.prems by (auto dest: order.strict_trans)
  qed
qed simp

lemma length_tree_emplace:
  "sorted_by fst es \<Longrightarrow> length (tree_emplace i v es) = (if lookup_by fst es i = None then length es + 1 else length es)"
proof (induction es)
  case (Cons e es)
  show ?case
  proof (cases "fst e < i")
    case True
    then show ?thesis using Cons by simp
  next
    case False
    moreover have "lookup_by fst es i = None" if "i < fst e" using Cons.prems that by (auto simp: lookup_by_None)
    ultimately show ?thesis by auto
  qed
qed simp

text \<open>Adding an entry after all the others appends it.\<close>

lemma tree_emplace_last: "\<forall>e \<in> set es. fst e < i \<Longrightarrow> tree_emplace i v es = es @ [(i, v)]"
  by (induction es) auto

section \<open>Well-formed rows\<close>

definition cell_typed :: "(nat \<Rightarrow> bytes \<Rightarrow> 'k::linorder) \<Rightarrow> column_definition \<Rightarrow> cell_or_collection \<Rightarrow> bool" where
  "cell_typed rank def c =
     (case c of
        Atomic a \<Rightarrow> col_is_atomic def \<and> (if col_is_counter def then counter_state a else a \<in> plain_cells)
      | Collection m \<Rightarrow> \<not> col_is_atomic def \<and> collection_keys.collection_wf (rank (col_id def)) m)"

text \<open>The schema gives every column its own identifier, and a collection an order of its keys.\<close>

definition column_wf :: "(nat \<Rightarrow> bytes \<Rightarrow> 'k::linorder) \<Rightarrow> column_definition \<Rightarrow> bool" where
  "column_wf rank def \<longleftrightarrow> (col_is_counter def \<longrightarrow> col_is_atomic def) \<and>
     (\<not> col_is_atomic def \<longrightarrow> collection_keys (rank (col_id def)) (col_key_less def) (col_key_equal def))"

definition schema_wf :: "(nat \<Rightarrow> bytes \<Rightarrow> 'k::linorder) \<Rightarrow> table_schema \<Rightarrow> column_kind \<Rightarrow> bool" where
  "schema_wf rank s kind \<longleftrightarrow> (\<forall>i def. column_at s kind i = Some def \<longrightarrow> col_id def = i \<and> column_wf rank def)"

definition entry_wf :: "(nat \<Rightarrow> bytes \<Rightarrow> 'k::linorder) \<Rightarrow> table_schema \<Rightarrow> column_kind \<Rightarrow> nat \<times> cell_and_hash \<Rightarrow> bool" where
  "entry_wf rank s kind e \<longleftrightarrow> (\<exists>def. column_at s kind (fst e) = Some def \<and> cell_typed rank def (cah_cell (snd e)))"

definition row_wf :: "(nat \<Rightarrow> bytes \<Rightarrow> 'k::linorder) \<Rightarrow> table_schema \<Rightarrow> column_kind \<Rightarrow> row \<Rightarrow> bool" where
  "row_wf rank s kind r \<longleftrightarrow> sorted_by fst (row_cells r) \<and> row_size r = length (row_cells r) \<and>
     (\<forall>e \<in> set (row_cells r). entry_wf rank s kind e)"

lemma row_wf_empty [simp]: "row_wf rank s kind empty_row"
  by (simp add: row_wf_def empty_row_def)

lemma row_wf_find:
  "row_wf rank s kind r \<Longrightarrow> find_cell_and_hash r i = Some cah \<Longrightarrow> entry_wf rank s kind (i, cah)"
  by (auto simp: find_cell_and_hash_def row_wf_def dest!: lookup_by_Some)

lemma find_cell_eq: "find_cell r i = map_option cah_cell (find_cell_and_hash r i)"
  by (simp add: find_cell_def option.case_eq_if map_option_case)

text \<open>What a row holds, the cached hashes apart.\<close>

definition contents :: "row \<Rightarrow> (nat \<times> cell_or_collection) list" where
  "contents r = map (map_prod id cah_cell) (row_cells r)"

lemma lookup_contents: "lookup_by fst (contents r) i = map_option (Pair i) (find_cell r i)"
proof -
  have "lookup_by fst (map (map_prod id cah_cell) es) i = map_option (\<lambda>e. (i, cah_cell (snd e))) (lookup_by fst es i)" for es
    by (induction es) auto
  then show ?thesis by (simp add: contents_def find_cell_eq find_cell_and_hash_def option.map_comp comp_def)
qed

lemma sorted_contents: "row_wf rank s kind r \<Longrightarrow> sorted_by fst (contents r)"
  by (simp add: row_wf_def contents_def sorted_by_def sorted_wrt_map)

lemma row_ext:
  assumes "row_wf rank s kind a" "row_wf rank' s' kind' b" "\<And>i. find_cell a i = find_cell b i"
  shows "contents a = contents b" "row_size a = row_size b"
proof -
  show c: "contents a = contents b"
    by (rule sorted_by_ext[OF sorted_contents[OF assms(1)] sorted_contents[OF assms(2)]]) (simp add: lookup_contents assms(3))
  have "length (contents a) = length (contents b)" by (simp add: c)
  then show "row_size a = row_size b" using assms(1,2) by (simp add: row_wf_def contents_def)
qed

section \<open>Merging\<close>

lemma counter_apply_state:
  assumes "counter_state a" "counter_state b"
  shows "\<exists>d s. counter_apply a b = Some (d, s) \<and> counter_state d"
proof (cases "cell_is_live a \<and> cell_is_live b")
  case True
  then obtain t D u S where c: "a = counter_cell t D" "b = counter_cell u S" "shards_wf D" "shards_wf S"
    using assms unfolding counter_state_def by (metis cell_is_live.simps(1))
  then show ?thesis using counter_apply_shards[OF c(3,4), of t u] combine_wf[OF c(3,4)]
    by (auto simp: counter_state_def)
next
  case False
  then show ?thesis using assms by (auto simp: counter_apply_def)
qed

definition merged_cell :: "column_definition \<Rightarrow> cell_or_collection \<Rightarrow> cell_or_collection \<Rightarrow> cell_or_collection" where
  "merged_cell def x y =
     (case (x, y) of
        (Atomic a, Atomic b) \<Rightarrow> Atomic (if col_is_counter def then fst (the (counter_apply a b)) else cell_merge a b)
      | (Collection a, Collection b) \<Rightarrow> Collection (collection_merge (col_key_less def) a b)
      | _ \<Rightarrow> x)"

lemma apply_cell_typed:
  assumes "column_wf rank def" "cell_typed rank def (cah_cell dst)" "cell_typed rank def src"
  shows "\<exists>h. apply_cell def dst src src_hash = Some \<lparr>cah_cell = merged_cell def (cah_cell dst) src, cah_hash = h\<rparr>"
    "cell_typed rank def (merged_cell def (cah_cell dst) src)"
proof -
  have "(\<exists>h. apply_cell def dst src src_hash = Some \<lparr>cah_cell = merged_cell def (cah_cell dst) src, cah_hash = h\<rparr>) \<and>
    cell_typed rank def (merged_cell def (cah_cell dst) src)"
  proof (cases "cah_cell dst")
    case (Atomic a)
    then obtain b where b: "src = Atomic b" "col_is_atomic def" using assms(2,3) by (cases src) (auto simp: cell_typed_def)
    show ?thesis
    proof (cases "col_is_counter def")
      case True
      then have "counter_state a" "counter_state b" using assms Atomic b by (auto simp: cell_typed_def)
      then show ?thesis using counter_apply_state[of a b] True Atomic b
        by (auto simp: apply_cell_def merged_cell_def cell_typed_def)
    next
      case False
      then have "a \<in> plain_cells" "b \<in> plain_cells" using assms Atomic b by (auto simp: cell_typed_def)
      then show ?thesis using False Atomic b
        by (cases dst) (auto simp: apply_cell_def merged_cell_def cell_typed_def cell_merge_def)
    qed
  next
    case (Collection a)
    then obtain b where b: "src = Collection b" "\<not> col_is_atomic def" using assms(2,3) by (cases src) (auto simp: cell_typed_def)
    then have k: "collection_keys (rank (col_id def)) (col_key_less def) (col_key_equal def)"
      using assms(1) by (simp add: column_wf_def)
    have "collection_keys.collection_wf (rank (col_id def)) (collection_merge (col_key_less def) a b)"
      by (rule collection_keys.collection_wf_merge[OF k]) (use assms Collection b in \<open>auto simp: cell_typed_def\<close>)
    then show ?thesis using Collection b by (auto simp: apply_cell_def merged_cell_def cell_typed_def)
  qed
  then show "\<exists>h. apply_cell def dst src src_hash = Some \<lparr>cah_cell = merged_cell def (cah_cell dst) src, cah_hash = h\<rparr>"
    "cell_typed rank def (merged_cell def (cah_cell dst) src)" by blast+
qed

text \<open>The cell that a column has after a merge.\<close>

definition merged :: "table_schema \<Rightarrow> column_kind \<Rightarrow> nat \<Rightarrow> cell_or_collection option \<Rightarrow> cell_or_collection option \<Rightarrow> cell_or_collection option" where
  "merged s kind i x y =
     (case x of None \<Rightarrow> y | Some a \<Rightarrow>
        (case y of None \<Rightarrow> Some a | Some b \<Rightarrow> Some (merged_cell (the (column_at s kind i)) a b)))"

lemma merged_simps [simp]:
  "merged s kind i None y = y" "merged s kind i x None = x"
  "merged s kind i (Some a) (Some b) = Some (merged_cell (the (column_at s kind i)) a b)"
  by (auto simp: merged_def split: option.splits)

lemma find_emplace:
  "sorted_by fst (row_cells r) \<Longrightarrow> find_cell_and_hash (r\<lparr>row_cells := tree_emplace i v (row_cells r), row_size := n\<rparr>) k =
     (if k = i then Some v else find_cell_and_hash r k)"
  by (simp add: find_cell_and_hash_def lookup_tree_emplace)

lemma row_wf_emplace:
  assumes "row_wf rank s kind r" "entry_wf rank s kind (i, v)"
    "n = (if find_cell_and_hash r i = None then row_size r + 1 else row_size r)"
  shows "row_wf rank s kind (r\<lparr>row_cells := tree_emplace i v (row_cells r), row_size := n\<rparr>)"
  using assms set_tree_emplace(1)[of i v "row_cells r"]
  by (auto simp: row_wf_def sorted_tree_emplace length_tree_emplace find_cell_and_hash_def)

lemma row_apply_cell_typed:
  assumes "schema_wf rank s kind" "row_wf rank s kind r" "entry_wf rank s kind (i, cah)" "column_at s kind i = Some def"
  shows "\<exists>r'. row_apply_cell def (cah_cell cah) (cah_hash cah) r = Some r' \<and> row_wf rank s kind r' \<and>
    (\<forall>k. find_cell r' k = (if k = i then merged s kind i (find_cell r i) (Some (cah_cell cah)) else find_cell r k))"
proof -
  have d: "col_id def = i" "column_wf rank def" "cell_typed rank def (cah_cell cah)"
    using assms(1,3,4) by (auto simp: schema_wf_def entry_wf_def)
  have s: "sorted_by fst (row_cells r)" using assms(2) by (simp add: row_wf_def)
  show ?thesis
  proof (cases "find_cell_and_hash r i")
    case None
    have "row_wf rank s kind (r\<lparr>row_cells := tree_emplace i cah (row_cells r), row_size := row_size r + 1\<rparr>)"
      by (rule row_wf_emplace[OF assms(2,3)]) (simp add: None)
    then show ?thesis using None d(1) by (cases cah) (auto simp: row_apply_cell_def find_cell_eq find_emplace[OF s])
  next
    case (Some old)
    have "cell_typed rank def (cah_cell old)" using row_wf_find[OF assms(2) Some] assms(4) by (auto simp: entry_wf_def)
    note a = apply_cell_typed[OF d(2) this d(3)]
    obtain h where h: "apply_cell def old (cah_cell cah) (cah_hash cah) =
        Some \<lparr>cah_cell = merged_cell def (cah_cell old) (cah_cell cah), cah_hash = h\<rparr>" using a(1)[of "cah_hash cah"] by blast
    let ?v = "\<lparr>cah_cell = merged_cell def (cah_cell old) (cah_cell cah), cah_hash = h\<rparr>"
    have "entry_wf rank s kind (i, ?v)" using a(2) assms(4) by (simp add: entry_wf_def)
    from row_wf_emplace[OF assms(2) this, of "row_size r"] have "row_wf rank s kind (r\<lparr>row_cells := tree_emplace i ?v (row_cells r)\<rparr>)"
      using Some by simp
    moreover have "find_cell_and_hash (r\<lparr>row_cells := tree_emplace i ?v (row_cells r)\<rparr>) k =
        (if k = i then Some ?v else find_cell_and_hash r k)" for k
      using find_emplace[OF s, where i = i and v = ?v and n = "row_size r" and k = k] by simp
    ultimately show ?thesis using Some d(1) h assms(4) by (auto simp: row_apply_cell_def find_cell_eq)
  qed
qed

lemma apply_cells_typed:
  assumes "schema_wf rank s kind"
  shows "row_wf rank s kind r \<Longrightarrow> \<forall>e \<in> set es. entry_wf rank s kind e \<Longrightarrow> sorted_by fst es \<Longrightarrow>
    \<exists>r'. apply_cells s kind es r = Some r' \<and> row_wf rank s kind r' \<and>
      (\<forall>k. find_cell r' k = merged s kind k (find_cell r k) (map_option (\<lambda>e. cah_cell (snd e)) (lookup_by fst es k)))"
proof (induction es arbitrary: r)
  case (Cons e es)
  have "entry_wf rank s kind (fst e, snd e)" using Cons.prems(2) by simp
  moreover then obtain def where d: "column_at s kind (fst e) = Some def" by (auto simp: entry_wf_def)
  ultimately obtain r' where r: "row_apply_cell def (cah_cell (snd e)) (cah_hash (snd e)) r = Some r'" "row_wf rank s kind r'"
    "\<forall>k. find_cell r' k = (if k = fst e then merged s kind (fst e) (find_cell r (fst e)) (Some (cah_cell (snd e))) else find_cell r k)"
    using row_apply_cell_typed[OF assms Cons.prems(1), of "fst e" "snd e" def] by blast
  obtain r'' where "apply_cells s kind es r' = Some r''" "row_wf rank s kind r''"
    "\<forall>k. find_cell r'' k = merged s kind k (find_cell r' k) (map_option (\<lambda>e. cah_cell (snd e)) (lookup_by fst es k))"
    using Cons.IH[OF r(2)] Cons.prems(2,3) by auto
  moreover have "lookup_by fst es (fst e) = None" using sorted_by_tail[OF Cons.prems(3)] by blast
  ultimately show ?case using d r by auto
qed simp

text \<open>Merging well-formed rows merges them column by column.\<close>

lemma row_apply_typed:
  assumes "schema_wf rank s kind" "row_wf rank s kind a" "row_wf rank s kind b"
  shows "\<exists>r. row_apply s kind a b = Some r \<and> row_wf rank s kind r \<and>
    (\<forall>k. find_cell r k = merged s kind k (find_cell a k) (find_cell b k))"
proof (cases "row_empty b")
  case True
  then have "row_cells b = []" using assms(3) by (simp add: row_wf_def row_empty_def)
  then show ?thesis using True assms(2) by (simp add: row_apply_def find_cell_eq find_cell_and_hash_def)
next
  case False
  have "map_option (\<lambda>e. cah_cell (snd e)) (lookup_by fst (row_cells b) k) = find_cell b k" for k
    by (simp add: find_cell_eq find_cell_and_hash_def option.map_comp comp_def)
  then show ?thesis using apply_cells_typed[OF assms(1,2), of "row_cells b"] assms(3) False
    by (auto simp: row_wf_def row_apply_def)
qed

lemma find_cell_typed: "row_wf rank s kind r \<Longrightarrow> find_cell r k = Some c \<Longrightarrow> \<exists>def. column_at s kind k = Some def \<and> cell_typed rank def c"
  using row_wf_find[of rank s kind r k] by (auto simp: find_cell_eq entry_wf_def)

section \<open>Order of merges\<close>

text \<open>The columns for which a merge of rows is a merge of equal cells in any order: no counters, which
  have their own laws, and collections whose order of keys tells apart any two keys, as it does when keys are compared as bytes.\<close>

definition mergeable :: "(nat \<Rightarrow> bytes \<Rightarrow> 'k::linorder) \<Rightarrow> column_definition \<Rightarrow> bool" where
  "mergeable rank def \<longleftrightarrow> \<not> col_is_counter def \<and> (col_is_atomic def \<or> inj (rank (col_id def)))"

definition mergeable_schema :: "(nat \<Rightarrow> bytes \<Rightarrow> 'k::linorder) \<Rightarrow> table_schema \<Rightarrow> column_kind \<Rightarrow> bool" where
  "mergeable_schema rank s kind \<longleftrightarrow> (\<forall>i def. column_at s kind i = Some def \<longrightarrow> mergeable rank def)"

lemma merged_cell_laws:
  assumes "column_wf rank def" "mergeable rank def" "cell_typed rank def x" "cell_typed rank def y" "cell_typed rank def z"
  shows "merged_cell def x y = merged_cell def y x"
    "merged_cell def (merged_cell def x y) z = merged_cell def x (merged_cell def y z)"
    "merged_cell def x x = x"
proof -
  have "merged_cell def x y = merged_cell def y x \<and>
    merged_cell def (merged_cell def x y) z = merged_cell def x (merged_cell def y z) \<and> merged_cell def x x = x"
  proof (cases "col_is_atomic def")
    case True
    then obtain a b c where "x = Atomic a" "y = Atomic b" "z = Atomic c" "{a, b, c} \<subseteq> plain_cells"
      using assms(2-5) by (cases x; cases y; cases z) (auto simp: cell_typed_def mergeable_def)
    moreover have "\<not> col_is_counter def" using assms(2) by (simp add: mergeable_def)
    ultimately show ?thesis
      by (intro conjI) (simp add: merged_cell_def cell_merge_commute[of a b], simp_all add: merged_cell_def cells.merge_assoc)
  next
    case False
    then have k: "collection_keys (rank (col_id def)) (col_key_less def) (col_key_equal def)"
      using assms(1) by (simp add: column_wf_def)
    obtain a b c where m: "x = Collection a" "y = Collection b" "z = Collection c"
      "collection_keys.collection_wf (rank (col_id def)) a" "collection_keys.collection_wf (rank (col_id def)) b"
      "collection_keys.collection_wf (rank (col_id def)) c"
      using False assms(3-5) by (cases x; cases y; cases z) (auto simp: cell_typed_def)
    have "inj (rank (col_id def))" using assms(2) False by (simp add: mergeable_def)
    then show ?thesis
      using collection_keys.merge_commute[OF k m(4,5)] collection_keys.merge_assoc[OF k m(4-6)] collection_keys.merge_idem[OF k m(4)]
      by (simp add: merged_cell_def m(1-3) same_collection_inj)
  qed
  then show "merged_cell def x y = merged_cell def y x"
    "merged_cell def (merged_cell def x y) z = merged_cell def x (merged_cell def y z)"
    "merged_cell def x x = x" by blast+
qed

definition option_typed :: "(nat \<Rightarrow> bytes \<Rightarrow> 'k::linorder) \<Rightarrow> table_schema \<Rightarrow> column_kind \<Rightarrow> nat \<Rightarrow> cell_or_collection option \<Rightarrow> bool" where
  "option_typed rank s kind k x \<longleftrightarrow> (\<forall>c. x = Some c \<longrightarrow> (\<exists>def. column_at s kind k = Some def \<and> cell_typed rank def c))"

lemma find_option_typed: "row_wf rank s kind r \<Longrightarrow> option_typed rank s kind k (find_cell r k)"
  using find_cell_typed[of rank s kind r k] by (simp add: option_typed_def)

lemma merged_laws:
  assumes "schema_wf rank s kind" "mergeable_schema rank s kind" "option_typed rank s kind k x" "option_typed rank s kind k y"
    "option_typed rank s kind k z"
  shows "merged s kind k x y = merged s kind k y x"
    "merged s kind k (merged s kind k x y) z = merged s kind k x (merged s kind k y z)"
    "merged s kind k x x = x"
proof -
  have "merged s kind k x y = merged s kind k y x \<and>
    merged s kind k (merged s kind k x y) z = merged s kind k x (merged s kind k y z) \<and> merged s kind k x x = x"
  proof (cases "column_at s kind k")
    case None
    then have "x = None" "y = None" "z = None" using assms(3-5) by (auto simp: option_typed_def)
    then show ?thesis by simp
  next
    case (Some def)
    then have d: "column_wf rank def" "mergeable rank def" using assms(1,2) by (auto simp: schema_wf_def mergeable_schema_def)
    have t: "cell_typed rank def c" if "Some c \<in> {x, y, z}" for c using assms(3-5) that Some by (auto simp: option_typed_def)
    show ?thesis
    proof (intro conjI)
      show "merged s kind k x y = merged s kind k y x"
        using merged_cell_laws(1)[OF d t t t] Some by (cases x; cases y) auto
      show "merged s kind k (merged s kind k x y) z = merged s kind k x (merged s kind k y z)"
        using merged_cell_laws(2)[OF d t t t] Some by (cases x; cases y; cases z) auto
      show "merged s kind k x x = x" using merged_cell_laws(3)[OF d t t t] Some by (cases x) auto
    qed
  qed
  then show "merged s kind k x y = merged s kind k y x"
    "merged s kind k (merged s kind k x y) z = merged s kind k x (merged s kind k y z)"
    "merged s kind k x x = x" by blast+
qed

section \<open>Row tombstones and markers\<close>

lemma tomb_apply_commute: "tomb_apply a b = tomb_apply b a"
  by (rule tombs.merge_commute) (blast dest: injD[OF tomb_key_inj])

lemma rt_apply_commute: "rt_apply a b m = rt_apply b a m"
  by (simp add: rt_apply_def tomb_apply_commute)

text \<open>Whether a marker shadows a tombstone is seen from its key.\<close>

lemma shadowed_key: "marker_key m = marker_key n \<Longrightarrow> is_shadowed_by t m \<longleftrightarrow> is_shadowed_by t n"
  by (auto simp: is_shadowed_by_def marker_key_def split: if_splits)

lemma rt_apply_key: "marker_key m = marker_key n \<Longrightarrow> rt_apply a b m = rt_apply a b n"
  by (simp add: rt_apply_def rt_maybe_shadow_def shadowable_maybe_shadow_def shadowed_key[of m n])

lemma is_shadowed_mono: "is_shadowed_by t m \<Longrightarrow> tomb_key u \<le> tomb_key t \<Longrightarrow> is_shadowed_by u m"
  by (auto simp: is_shadowed_by_def tomb_key_def)

text \<open>A tombstone that the marker of a first merge shadows is shadowed after the next merge, too, as long as the
  newer marker is live: merging twice is then the same as merging everything at once.\<close>

lemma rt_apply_apply:
  assumes "rt_inv a" "rt_inv b" "\<forall>t. is_shadowed_by t m \<longrightarrow> is_shadowed_by t n"
  shows "rt_apply (rt_apply a b m) c n =
    rt_maybe_shadow
      \<lparr>rt_regular = tomb_apply (tomb_apply (rt_regular a) (rt_regular b)) (rt_regular c),
       rt_shadowable = tomb_apply (tomb_apply (rt_shadowable a) (rt_shadowable b)) (rt_shadowable c)\<rparr> n"
proof -
  define R where "R = tomb_apply (rt_regular a) (rt_regular b)"
  define X where "X = tomb_apply (rt_shadowable a) (rt_shadowable b)"
  define Y where "Y = rt_shadowable c"
  have le: "tomb_key R \<le> tomb_key X"
    using assms(1,2) by (auto simp: R_def X_def rt_inv_def tombs.key_merge max_def)
  have "shadowable_maybe_shadow (tomb_apply R Y) Q n = shadowable_maybe_shadow (tomb_apply X Y) Q n"
    if "is_shadowed_by X m" for Q
  proof -
    have x: "is_shadowed_by X n" "is_shadowed_by R n" using assms(3) that is_shadowed_mono[OF _ le] by auto
    show ?thesis
    proof (cases "is_shadowed_by Y n")
      case True
      then show ?thesis using x by (simp add: shadowable_maybe_shadow_def tomb_apply_def)
    next
      case False
      then have "tomb_key X < tomb_key Y" using x(1) by (auto simp: is_shadowed_by_def tomb_key_def)
      then have "tomb_apply X Y = Y" "tomb_apply R Y = Y" using le by (auto simp: tombs.merge_def)
      then show ?thesis by simp
    qed
  qed
  then show ?thesis
    by (auto simp: rt_apply_def rt_maybe_shadow_def R_def[symmetric] X_def[symmetric] Y_def[symmetric]
      shadowable_maybe_shadow_def[of X])
qed

text \<open>Markers that are not deletions.\<close>

definition undeleted :: "row_marker \<Rightarrow> bool" where
  "undeleted m \<longleftrightarrow> missing_timestamp \<le> rm_timestamp m \<and> (rm_is_missing m \<or> rm_is_live m)"

lemma undeleted_merge: "undeleted m \<Longrightarrow> undeleted n \<Longrightarrow> undeleted (marker_merge m n)"
  by (simp add: marker_merge_def)

lemma shadowed_merge:
  assumes "undeleted m" "undeleted n" "is_shadowed_by t m"
  shows "is_shadowed_by t (marker_merge m n)"
  using assms by (auto simp: marker_merge_def marker_key_def is_shadowed_by_def undeleted_def rm_is_live_def rm_is_missing_def)

section \<open>Deletable rows\<close>

text \<open>The shadowable tombstone of a row is not less than the regular one, and the marker of the row does not shadow it
  unless they are the same.\<close>

definition dr_wf :: "(nat \<Rightarrow> bytes \<Rightarrow> 'k::linorder) \<Rightarrow> table_schema \<Rightarrow> deletable_row \<Rightarrow> bool" where
  "dr_wf rank s d \<longleftrightarrow> row_wf rank s Regular_column (dr_cells d) \<and> rm_wf (dr_marker d) \<and> rt_inv (dr_deleted_at d) \<and>
     (is_shadowed_by (rt_shadowable (dr_deleted_at d)) (dr_marker d) \<longrightarrow> rt_shadowable (dr_deleted_at d) = rt_regular (dr_deleted_at d))"

lemma shadow_settled: "is_shadowed_by (rt_shadowable (rt_maybe_shadow t m)) m \<Longrightarrow>
    rt_shadowable (rt_maybe_shadow t m) = rt_regular (rt_maybe_shadow t m)"
  by (auto simp: rt_maybe_shadow_def shadowable_maybe_shadow_def split: if_splits)

lemma dr_apply_typed:
  assumes "schema_wf rank s Regular_column" "dr_wf rank s a" "dr_wf rank s b"
  shows "\<exists>r. dr_apply s a b = Some r \<and> dr_wf rank s r \<and> dr_marker r = marker_merge (dr_marker a) (dr_marker b) \<and>
    dr_deleted_at r = rt_apply (dr_deleted_at a) (dr_deleted_at b) (marker_merge (dr_marker a) (dr_marker b)) \<and>
    (\<forall>k. find_cell (dr_cells r) k = merged s Regular_column k (find_cell (dr_cells a) k) (find_cell (dr_cells b) k))"
proof -
  obtain r where r: "row_apply s Regular_column (dr_cells a) (dr_cells b) = Some r" "row_wf rank s Regular_column r"
    "\<forall>k. find_cell r k = merged s Regular_column k (find_cell (dr_cells a) k) (find_cell (dr_cells b) k)"
    using row_apply_typed[OF assms(1)] assms(2,3) unfolding dr_wf_def by blast
  have m: "rm_apply (dr_marker a) (dr_marker b) = marker_merge (dr_marker a) (dr_marker b)"
    using assms(2,3) by (simp add: rm_apply_merge dr_wf_def)
  moreover have "rm_wf (marker_merge (dr_marker a) (dr_marker b))"
    using assms(2,3) by (simp add: dr_wf_def marker_merge_def)
  moreover have "rt_inv (rt_apply (dr_deleted_at a) (dr_deleted_at b) (marker_merge (dr_marker a) (dr_marker b)))"
    using assms(2,3) by (simp add: dr_wf_def rt_inv_ops)
  ultimately show ?thesis using r shadow_settled by (simp add: dr_apply_def dr_wf_def rt_apply_def Let_def)
qed

text \<open>Rows that are the same up to cached hashes and to what no operation reads of a marker.\<close>

definition same_row :: "deletable_row \<Rightarrow> deletable_row \<Rightarrow> bool" where
  "same_row a b \<longleftrightarrow> dr_deleted_at a = dr_deleted_at b \<and> rm_equal (dr_marker a) (dr_marker b) \<and>
     contents (dr_cells a) = contents (dr_cells b)"

lemma same_rowI:
  assumes "dr_wf rank s a" "dr_wf rank s b" "dr_deleted_at a = dr_deleted_at b" "marker_key (dr_marker a) = marker_key (dr_marker b)"
    "\<And>k. find_cell (dr_cells a) k = find_cell (dr_cells b) k"
  shows "same_row a b"
  using assms marker_key_equal[OF _ _ assms(4)] row_ext(1)[OF _ _ assms(5)] unfolding same_row_def dr_wf_def by blast

lemma dr_apply_commute:
  assumes "schema_wf rank s Regular_column" "mergeable_schema rank s Regular_column" "dr_wf rank s a" "dr_wf rank s b"
    "dr_apply s a b = Some x" "dr_apply s b a = Some y"
  shows "same_row x y"
proof -
  have x: "dr_wf rank s x" "dr_marker x = marker_merge (dr_marker a) (dr_marker b)"
    "dr_deleted_at x = rt_apply (dr_deleted_at a) (dr_deleted_at b) (marker_merge (dr_marker a) (dr_marker b))"
    "\<forall>k. find_cell (dr_cells x) k = merged s Regular_column k (find_cell (dr_cells a) k) (find_cell (dr_cells b) k)"
    using dr_apply_typed[OF assms(1,3,4)] assms(5) by auto
  have y: "dr_wf rank s y" "dr_marker y = marker_merge (dr_marker b) (dr_marker a)"
    "dr_deleted_at y = rt_apply (dr_deleted_at b) (dr_deleted_at a) (marker_merge (dr_marker b) (dr_marker a))"
    "\<forall>k. find_cell (dr_cells y) k = merged s Regular_column k (find_cell (dr_cells b) k) (find_cell (dr_cells a) k)"
    using dr_apply_typed[OF assms(1,4,3)] assms(6) by auto
  have k: "marker_key (dr_marker x) = marker_key (dr_marker y)" unfolding x(2) y(2) markers.key_merge by (rule max.commute)
  have w: "row_wf rank s Regular_column (dr_cells a)" "row_wf rank s Regular_column (dr_cells b)"
    using assms(3,4) by (auto simp: dr_wf_def)
  show ?thesis
  proof (rule same_rowI[OF x(1) y(1) _ k])
    show "dr_deleted_at x = dr_deleted_at y"
      unfolding x(3) y(3) rt_apply_commute[of "dr_deleted_at b"] by (rule rt_apply_key) (use k x(2) y(2) in simp)
    show "find_cell (dr_cells x) k = find_cell (dr_cells y) k" for k
      using x(4) y(4) merged_laws(1)[OF assms(1,2) w[THEN find_option_typed] w(1)[THEN find_option_typed]] by simp
  qed
qed

lemma dr_apply_assoc:
  assumes "schema_wf rank s Regular_column" "mergeable_schema rank s Regular_column" "dr_wf rank s a" "dr_wf rank s b" "dr_wf rank s c"
    "undeleted (dr_marker a)" "undeleted (dr_marker b)" "undeleted (dr_marker c)"
    "dr_apply s a b = Some ab" "dr_apply s b c = Some bc" "dr_apply s ab c = Some x" "dr_apply s a bc = Some y"
  shows "same_row x y"
proof -
  let ?A = "dr_marker a" and ?B = "dr_marker b" and ?C = "dr_marker c"
  have ab: "dr_wf rank s ab" "dr_marker ab = marker_merge ?A ?B"
    "dr_deleted_at ab = rt_apply (dr_deleted_at a) (dr_deleted_at b) (marker_merge ?A ?B)"
    "\<forall>k. find_cell (dr_cells ab) k = merged s Regular_column k (find_cell (dr_cells a) k) (find_cell (dr_cells b) k)"
    using dr_apply_typed[OF assms(1,3,4)] assms(9) by auto
  have bc: "dr_wf rank s bc" "dr_marker bc = marker_merge ?B ?C"
    "dr_deleted_at bc = rt_apply (dr_deleted_at b) (dr_deleted_at c) (marker_merge ?B ?C)"
    "\<forall>k. find_cell (dr_cells bc) k = merged s Regular_column k (find_cell (dr_cells b) k) (find_cell (dr_cells c) k)"
    using dr_apply_typed[OF assms(1,4,5)] assms(10) by auto
  have x: "dr_wf rank s x" "dr_marker x = marker_merge (marker_merge ?A ?B) ?C"
    "dr_deleted_at x = rt_apply (dr_deleted_at ab) (dr_deleted_at c) (dr_marker x)"
    "\<forall>k. find_cell (dr_cells x) k = merged s Regular_column k (find_cell (dr_cells ab) k) (find_cell (dr_cells c) k)"
    using dr_apply_typed[OF assms(1) ab(1) assms(5)] assms(11) ab(2) by auto
  have y: "dr_wf rank s y" "dr_marker y = marker_merge ?A (marker_merge ?B ?C)"
    "dr_deleted_at y = rt_apply (dr_deleted_at a) (dr_deleted_at bc) (dr_marker y)"
    "\<forall>k. find_cell (dr_cells y) k = merged s Regular_column k (find_cell (dr_cells a) k) (find_cell (dr_cells bc) k)"
    using dr_apply_typed[OF assms(1,3) bc(1)] assms(12) bc(2) by auto
  have m: "dr_marker y = dr_marker x" unfolding x(2) y(2) by (rule markers.merge_assoc[symmetric])
  have inv: "rt_inv (dr_deleted_at a)" "rt_inv (dr_deleted_at b)" "rt_inv (dr_deleted_at c)"
    using assms(3-5) by (auto simp: dr_wf_def)
  have sx: "is_shadowed_by t (dr_marker x)" if "is_shadowed_by t (marker_merge ?A ?B)" for t
    unfolding x(2) using shadowed_merge that undeleted_merge assms(6-8) by blast
  have sy: "is_shadowed_by t (dr_marker x)" if "is_shadowed_by t (marker_merge ?B ?C)" for t
  proof -
    have "is_shadowed_by t (marker_merge (marker_merge ?B ?C) ?A)" using shadowed_merge that undeleted_merge assms(6-8) by blast
    then show ?thesis unfolding m[symmetric] y(2) by (subst shadowed_key) (auto simp: markers.key_merge max.commute)
  qed
  have sh: "\<forall>t. is_shadowed_by t (marker_merge ?A ?B) \<longrightarrow> is_shadowed_by t (dr_marker x)"
    "\<forall>t. is_shadowed_by t (marker_merge ?B ?C) \<longrightarrow> is_shadowed_by t (dr_marker x)" using sx sy by blast+
  note e = rt_apply_apply[OF inv(1,2), of "marker_merge ?A ?B" "dr_marker x" "dr_deleted_at c"]
    rt_apply_apply[OF inv(2,3), of "marker_merge ?B ?C" "dr_marker x" "dr_deleted_at a"]
  have "dr_deleted_at x = dr_deleted_at y"
    unfolding x(3) y(3) m ab(3) bc(3) rt_apply_commute[of "dr_deleted_at a" "rt_apply _ _ _"] e(1)[OF sh(1)] e(2)[OF sh(2)]
    by (simp add: tombs.merge_assoc tomb_apply_commute[of "rt_regular (dr_deleted_at a)"] tomb_apply_commute[of "rt_shadowable (dr_deleted_at a)"])
  moreover have w: "row_wf rank s Regular_column (dr_cells a)" "row_wf rank s Regular_column (dr_cells b)"
    "row_wf rank s Regular_column (dr_cells c)" using assms(3-5) by (auto simp: dr_wf_def)
  have "find_cell (dr_cells x) k = find_cell (dr_cells y) k" for k
    using x(4) y(4) ab(4) bc(4) merged_laws(2)[OF assms(1,2) w[THEN find_option_typed]] by simp
  ultimately show ?thesis by (intro same_rowI[OF x(1) y(1)]) (simp_all add: m)
qed

lemma dr_apply_idem:
  assumes "schema_wf rank s Regular_column" "mergeable_schema rank s Regular_column" "dr_wf rank s a" "dr_apply s a a = Some x"
  shows "same_row x a"
proof -
  have x: "dr_wf rank s x" "dr_marker x = dr_marker a" "dr_deleted_at x = rt_apply (dr_deleted_at a) (dr_deleted_at a) (dr_marker a)"
    "\<forall>k. find_cell (dr_cells x) k = merged s Regular_column k (find_cell (dr_cells a) k) (find_cell (dr_cells a) k)"
    using dr_apply_typed[OF assms(1,3,3)] assms(4) by auto
  have w: "row_wf rank s Regular_column (dr_cells a)" using assms(3) by (simp add: dr_wf_def)
  show ?thesis
  proof (rule same_rowI[OF x(1) assms(3)])
    show "dr_deleted_at x = dr_deleted_at a"
      unfolding x(3) using assms(3) by (auto simp: dr_wf_def rt_apply_def rt_maybe_shadow_def shadowable_maybe_shadow_def)
    show "find_cell (dr_cells x) k = find_cell (dr_cells a) k" for k
      using x(4) merged_laws(3)[OF assms(1,2) w[THEN find_option_typed] w[THEN find_option_typed] w[THEN find_option_typed]] by simp
  qed (simp add: x(2))
qed

section \<open>Differences\<close>

lemma cell_difference_typed:
  assumes "column_wf rank def" "cell_typed rank def x" "cell_typed rank def y"
  shows "\<exists>d. cell_difference def x y = Some d \<and>
    (case d of None \<Rightarrow> merged_cell def y x = y
     | Some z \<Rightarrow> cell_typed rank def z \<and> merged_cell def y z = merged_cell def y x)"
proof (cases "col_is_atomic def")
  case True
  then obtain a b where ab: "x = Atomic a" "y = Atomic b" using assms(2,3) by (cases x; cases y) (auto simp: cell_typed_def)
  show ?thesis
  proof (cases "col_is_counter def")
    case c: True
    then have s: "counter_state a" "counter_state b" using assms(2,3) ab True by (auto simp: cell_typed_def)
    obtain d r where d: "counter_difference a b = Some d" "map_option fst (counter_apply b a) = Some r"
      "case d of None \<Rightarrow> r = b | Some z \<Rightarrow> counter_state z \<and> map_option fst (counter_apply b z) = Some r"
      using counter_difference_sum[OF s] by blast
    have "fst (the (counter_apply b w)) = r" if "map_option fst (counter_apply b w) = Some r" for w using that by auto
    then show ?thesis using d c ab True
      by (auto simp: cell_difference_def merged_cell_def cell_typed_def split: option.splits)
  next
    case False
    then have "cell_merge b a = b" if "compare_atomic_cell_for_merge a b \<noteq> Ord_greater"
      using that by (intro cells.merge_absorb) (simp add: compare_cell_key not_less)
    then show ?thesis using False True ab assms(2) by (auto simp: cell_difference_def merged_cell_def)
  qed
next
  case False
  then obtain a b where ab: "x = Collection a" "y = Collection b" "collection_keys.collection_wf (rank (col_id def)) a"
    "collection_keys.collection_wf (rank (col_id def)) b"
    using assms(2,3) by (cases x; cases y) (auto simp: cell_typed_def)
  have k: "collection_keys (rank (col_id def)) (col_key_less def) (col_key_equal def)" "\<not> col_is_counter def"
    using assms(1) False by (auto simp: column_wf_def)
  let ?d = "collection_difference (col_key_less def) (col_key_equal def) a b"
  note w = collection_keys.collection_wf_difference[OF k(1) ab(3,4)]
  note m = collection_keys.merge_difference[OF k(1) ab(3,4)]
  have "tomb_wf (cm_tomb ?d)" using w by (simp add: collection_keys.collection_wf_def[OF k(1)])
  then have "collection_merge (col_key_less def) b a = b" if "collection_is_empty ?d"
    using collection_keys.merge_empty[OF k(1) ab(4)] m that by simp
  then show ?thesis using False k(2) ab w m by (simp add: cell_difference_def merged_cell_def cell_typed_def Let_def)
qed

text \<open>The cell that the difference has for a column.\<close>

definition difference_of :: "table_schema \<Rightarrow> column_kind \<Rightarrow> nat \<Rightarrow> cell_or_collection option \<Rightarrow> cell_or_collection option \<Rightarrow> cell_or_collection option" where
  "difference_of s kind i x y =
     (case x of None \<Rightarrow> None | Some a \<Rightarrow>
        (case y of None \<Rightarrow> Some a | Some b \<Rightarrow> the (cell_difference (the (column_at s kind i)) a b)))"

lemma difference_of_typed:
  assumes "schema_wf rank s kind" "option_typed rank s kind i x" "option_typed rank s kind i y"
  shows "option_typed rank s kind i (difference_of s kind i x y)"
    "merged s kind i y (difference_of s kind i x y) = merged s kind i y x"
proof -
  have "option_typed rank s kind i (difference_of s kind i x y) \<and> merged s kind i y (difference_of s kind i x y) = merged s kind i y x"
  proof (cases "x = None \<or> y = None")
    case True
    then show ?thesis using assms(2) by (cases x; cases y) (auto simp: difference_of_def option_typed_def)
  next
    case False
    then obtain a b where ab: "x = Some a" "y = Some b" by auto
    then obtain def where d: "column_at s kind i = Some def" "cell_typed rank def a" "cell_typed rank def b"
      using assms(2,3) by (auto simp: option_typed_def)
    then have "column_wf rank def" using assms(1) by (auto simp: schema_wf_def)
    then obtain e where "cell_difference def a b = Some e"
      "case e of None \<Rightarrow> merged_cell def b a = b | Some z \<Rightarrow> cell_typed rank def z \<and> merged_cell def b z = merged_cell def b a"
      using cell_difference_typed d(2,3) by blast
    then show ?thesis using ab d(1) by (auto simp: difference_of_def option_typed_def split: option.splits)
  qed
  then show "option_typed rank s kind i (difference_of s kind i x y)"
    "merged s kind i y (difference_of s kind i x y) = merged s kind i y x" by blast+
qed

definition cell_of :: "(nat \<times> cell_and_hash) list \<Rightarrow> nat \<Rightarrow> cell_or_collection option" where
  "cell_of es k = map_option (\<lambda>e. cah_cell (snd e)) (lookup_by fst es k)"

lemma cell_of_row: "cell_of (row_cells r) k = find_cell r k"
  by (simp add: cell_of_def find_cell_eq find_cell_and_hash_def option.map_comp comp_def)

lemma cell_of_typed: "\<forall>e \<in> set es. entry_wf rank s kind e \<Longrightarrow> option_typed rank s kind k (cell_of es k)"
  by (auto simp: option_typed_def cell_of_def entry_wf_def dest!: lookup_by_Some)

lemma append_cell_typed:
  assumes "row_wf rank s kind r" "option_typed rank s kind i (Some x)" "find_cell r i = None"
  shows "row_wf rank s kind (append_cell i x r)" "find_cell (append_cell i x r) k = (if k = i then Some x else find_cell r k)"
proof -
  have n: "find_cell_and_hash r i = None" "sorted_by fst (row_cells r)" using assms(1,3) by (simp_all add: find_cell_eq row_wf_def)
  have "entry_wf rank s kind (i, \<lparr>cah_cell = x, cah_hash = None\<rparr>)" using assms(2) by (simp add: entry_wf_def option_typed_def)
  from row_wf_emplace[OF assms(1) this, of "row_size r + 1"] show "row_wf rank s kind (append_cell i x r)"
    using n by (simp add: append_cell_def)
  show "find_cell (append_cell i x r) k = (if k = i then Some x else find_cell r k)"
    using find_emplace[OF n(2), where i = i and v = "\<lparr>cah_cell = x, cah_hash = None\<rparr>" and n = "row_size r + 1" and k = k]
    by (simp add: append_cell_def find_cell_eq)
qed

lemma row_difference_loop_typed:
  assumes "schema_wf rank s kind"
  shows "row_wf rank s kind r \<Longrightarrow> \<forall>e \<in> set es \<union> set it. entry_wf rank s kind e \<Longrightarrow> sorted_by fst es \<Longrightarrow> sorted_by fst it \<Longrightarrow>
    \<forall>k. find_cell r k \<noteq> None \<longrightarrow> (\<forall>e \<in> set es. k < fst e) \<Longrightarrow>
    \<exists>r'. row_difference_loop s kind es it r = Some r' \<and> row_wf rank s kind r' \<and>
      (\<forall>k. find_cell r' k = (if cell_of es k = None then find_cell r k else difference_of s kind k (cell_of es k) (cell_of it k)))"
proof (induction es arbitrary: it r)
  case (Cons c es)
  let ?i = "fst c" and ?x = "cah_cell (snd c)" and ?it = "dropWhile (\<lambda>e. fst e < fst c) it"
  let ?d = "difference_of s kind ?i (Some ?x) (cell_of it ?i)"
  obtain def where def: "column_at s kind ?i = Some def" "cell_typed rank def ?x" "column_wf rank def"
    using Cons.prems(2) assms by (fastforce simp: entry_wf_def schema_wf_def)
  have tx: "option_typed rank s kind ?i (Some ?x)" using def by (simp add: option_typed_def)
  have ti: "option_typed rank s kind ?i (cell_of it ?i)" using Cons.prems(2) by (intro cell_of_typed) auto
  note td = difference_of_typed(1)[OF assms tx ti]
  have it: "sorted_by fst ?it" "set ?it \<subseteq> set it"
    using Cons.prems(4) by (auto simp: sorted_by_def intro: sorted_wrt_dropWhile dest: set_dropWhileD)
  have step: "(if ?it = [] \<or> fst (hd ?it) \<noteq> ?i then Some (Some ?x) else cell_difference def ?x (cah_cell (snd (hd ?it)))) = Some ?d"
  proof (cases "?it = [] \<or> ?i \<noteq> fst (hd ?it)")
    case True
    then show ?thesis using lookup_first[OF Cons.prems(4), of ?i] by (auto simp: Let_def cell_of_def difference_of_def)
  next
    case False
    then have "lookup_by fst it ?i = Some (hd ?it)"
      unfolding lookup_first[OF Cons.prems(4), of ?i] Let_def by (simp only: if_False)
    then have y: "cell_of it ?i = Some (cah_cell (snd (hd ?it)))" by (simp only: cell_of_def option.map)
    then have "cell_typed rank def (cah_cell (snd (hd ?it)))" using ti def(1) by (simp add: option_typed_def)
    from cell_difference_typed[OF def(3,2) this] obtain d where "cell_difference def ?x (cah_cell (snd (hd ?it))) = Some d" by blast
    then show ?thesis using False y def(1) by (auto simp: difference_of_def)
  qed
  have new: "find_cell r ?i = None" using Cons.prems(5) by auto
  define r1 where "r1 = (case ?d of None \<Rightarrow> r | Some z \<Rightarrow> append_cell ?i z r)"
  have r1: "row_wf rank s kind r1" "\<And>k. find_cell r1 k = (if k = ?i then ?d else find_cell r k)"
    using append_cell_typed[OF Cons.prems(1) _ new] td Cons.prems(1) new by (auto simp: r1_def split: option.splits)
  have above: "\<forall>e \<in> set es. ?i < fst e" using Cons.prems(3) by simp
  have "\<forall>k. find_cell r1 k \<noteq> None \<longrightarrow> (\<forall>e \<in> set es. k < fst e)" using Cons.prems(5) above by (auto simp: r1(2))
  moreover have "\<forall>e \<in> set es \<union> set ?it. entry_wf rank s kind e" using Cons.prems(2) it(2) by auto
  ultimately obtain r' where r': "row_difference_loop s kind es ?it r1 = Some r'" "row_wf rank s kind r'"
    "\<forall>k. find_cell r' k = (if cell_of es k = None then find_cell r1 k else difference_of s kind k (cell_of es k) (cell_of ?it k))"
    using Cons.IH[OF r1(1), of ?it] Cons.prems(3) it(1) by auto
  have "cell_of es ?i = None" using above by (auto simp: cell_of_def lookup_by_None)
  moreover have "cell_of ?it k = cell_of it k" if "cell_of es k \<noteq> None" for k
  proof -
    have "?i \<le> k" using that above by (auto simp: cell_of_def dest!: lookup_by_Some)
    then show ?thesis by (simp add: cell_of_def lookup_dropWhile)
  qed
  moreover have "row_difference_loop s kind (c # es) it r = Some r'" using def(1) step r'(1) by (simp add: Let_def r1_def)
  moreover have "cell_of (c # es) k = (if k = ?i then Some ?x else cell_of es k)" for k by (auto simp: cell_of_def)
  ultimately show ?case using r'(2,3) r1(2) by auto
qed (simp add: cell_of_def)

lemma row_difference_typed:
  assumes "schema_wf rank s kind" "row_wf rank s kind a" "row_wf rank s kind b"
  shows "\<exists>r. row_difference s kind a b = Some r \<and> row_wf rank s kind r \<and>
    (\<forall>k. find_cell r k = difference_of s kind k (find_cell a k) (find_cell b k))"
proof -
  have e: "find_cell empty_row k = None" for k by (simp add: find_cell_eq find_cell_and_hash_def empty_row_def)
  have "\<forall>e \<in> set (row_cells a) \<union> set (row_cells b). entry_wf rank s kind e" "sorted_by fst (row_cells a)" "sorted_by fst (row_cells b)"
    using assms(2,3) by (auto simp: row_wf_def)
  from row_difference_loop_typed[OF assms(1) row_wf_empty this] obtain r where
    "row_difference s kind a b = Some r" "row_wf rank s kind r"
    "\<forall>k. find_cell r k = (if find_cell a k = None then None else difference_of s kind k (find_cell a k) (find_cell b k))"
    unfolding row_difference_def cell_of_row by (auto simp: e)
  moreover have "difference_of s kind k None y = None" for k y by (simp add: difference_of_def)
  ultimately show ?thesis by auto
qed

text \<open>What the code means by absent: no tombstone and no marker are the least ones.\<close>

definition dr_above_none :: "deletable_row \<Rightarrow> bool" where
  "dr_above_none d \<longleftrightarrow> tomb_wf (rt_regular (dr_deleted_at d)) \<and> tomb_wf (rt_shadowable (dr_deleted_at d)) \<and>
     missing_timestamp \<le> rm_timestamp (dr_marker d)"

lemma no_marker_least: "missing_timestamp \<le> rm_timestamp m \<Longrightarrow> marker_key no_marker \<le> marker_key m"
  by (auto simp: marker_key_def no_marker_def rm_is_live_def rm_is_missing_def rm_deletion_time_def to_u64_def
    no_ttl_def no_expiry_def dead_ttl_def)

lemma no_marker_simps [simp]: "rm_wf no_marker" "\<not> is_shadowed_by t no_marker"
  by (simp_all add: rm_wf_def no_marker_def rm_deletion_time_def no_ttl_def no_expiry_def dead_ttl_def int_range_def
    is_shadowed_by_def rm_is_live_def rm_is_missing_def)

lemma tomb_none_apply: "tomb_wf t \<Longrightarrow> tomb_apply no_tombstone t = t" "tomb_wf t \<Longrightarrow> tomb_apply t no_tombstone = t"
  using tombs.merge_absorb[OF tomb_wf_least(1), of t] tomb_apply_commute[of no_tombstone t] by simp_all

text \<open>The tombstone and the marker of a difference.\<close>

lemma dr_difference_parts:
  assumes "schema_wf rank s Regular_column" "dr_wf rank s a" "dr_wf rank s b" "dr_above_none a" "dr_above_none b"
  shows "\<exists>d. dr_difference s Regular_column a b = Some d \<and> dr_wf rank s d \<and>
    dr_deleted_at d = (if rt_compare (dr_deleted_at a) (dr_deleted_at b) = Ord_greater then dr_deleted_at a else no_row_tombstone) \<and>
    dr_marker d = (if marker_key (dr_marker b) < marker_key (dr_marker a) then dr_marker a else no_marker) \<and>
    (\<forall>k. find_cell (dr_cells d) k = difference_of s Regular_column k (find_cell (dr_cells a) k) (find_cell (dr_cells b) k))"
proof -
  obtain r where r: "row_difference s Regular_column (dr_cells a) (dr_cells b) = Some r" "row_wf rank s Regular_column r"
    "\<forall>k. find_cell r k = difference_of s Regular_column k (find_cell (dr_cells a) k) (find_cell (dr_cells b) k)"
    using row_difference_typed[OF assms(1)] assms(2,3) unfolding dr_wf_def by blast
  let ?D = "dr_deleted_at a" and ?A = "dr_marker a"
  define g where "g \<longleftrightarrow> rt_compare ?D (dr_deleted_at b) = Ord_greater"
  define n where "n \<longleftrightarrow> marker_key (dr_marker b) < marker_key ?A"
  have wf: "rm_wf ?A" "rm_wf (dr_marker b)" "rt_inv ?D" "is_shadowed_by (rt_shadowable ?D) ?A \<longrightarrow> rt_shadowable ?D = rt_regular ?D"
    using assms(2,3) by (auto simp: dr_wf_def)
  have D: "rt_apply no_row_tombstone ?D no_marker = ?D"
    using assms(4) by (simp add: rt_apply_def no_row_tombstone_def tomb_none_apply dr_above_none_def rt_maybe_shadow_def shadowable_maybe_shadow_def)
  have A: "rm_apply no_marker ?A = ?A" if n
    using that no_marker_least[of "dr_marker b"] assms(5) wf(1)
    by (auto simp: rm_apply_merge marker_merge_def n_def dr_above_none_def)
  have S: "rt_maybe_shadow ?D ?A = ?D" using wf(4) by (auto simp: rt_maybe_shadow_def shadowable_maybe_shadow_def)
  have N: "rt_maybe_shadow no_row_tombstone m = no_row_tombstone" for m
    by (simp add: rt_maybe_shadow_def shadowable_maybe_shadow_def no_row_tombstone_def)
  have c: "compare_row_marker_for_merge ?A (dr_marker b) > 0 \<longleftrightarrow> n" unfolding n_def by (rule compare_marker_key(2)[OF wf(1,2)])
  have e: "dr_difference s Regular_column a b =
      Some \<lparr>dr_deleted_at = if g then ?D else no_row_tombstone, dr_marker = if n then ?A else no_marker, dr_cells = r\<rparr>"
    unfolding dr_difference_def c g_def[symmetric] r(1)
    by (cases g; cases n) (simp_all add: Let_def dr_apply_row_tombstone_def dr_apply_marker_def dr_maybe_shadow_def
      empty_deletable_row_def D A S N)
  have "dr_wf rank s \<lparr>dr_deleted_at = if g then ?D else no_row_tombstone, dr_marker = if n then ?A else no_marker, dr_cells = r\<rparr>"
    using r(2) wf rt_inv_ops(2) by (auto simp: dr_wf_def no_row_tombstone_def)
  then show ?thesis using e r(3) by (simp add: g_def n_def)
qed

lemma dr_difference_applied:
  assumes "schema_wf rank s Regular_column" "dr_wf rank s a" "dr_wf rank s b" "dr_above_none a" "dr_above_none b"
    "\<not> rt_is_shadowable (dr_deleted_at b)"
    "dr_difference s Regular_column a b = Some d" "dr_apply s b d = Some x" "dr_apply s b a = Some y"
  shows "same_row x y"
proof -
  let ?A = "dr_deleted_at a" and ?B = "dr_deleted_at b"
  have d: "dr_wf rank s d" "dr_deleted_at d = (if rt_compare ?A ?B = Ord_greater then ?A else no_row_tombstone)"
    "dr_marker d = (if marker_key (dr_marker b) < marker_key (dr_marker a) then dr_marker a else no_marker)"
    "\<forall>k. find_cell (dr_cells d) k = difference_of s Regular_column k (find_cell (dr_cells a) k) (find_cell (dr_cells b) k)"
    using dr_difference_parts[OF assms(1-5)] assms(7) by auto
  have x: "dr_wf rank s x" "dr_marker x = marker_merge (dr_marker b) (dr_marker d)"
    "dr_deleted_at x = rt_apply ?B (dr_deleted_at d) (marker_merge (dr_marker b) (dr_marker d))"
    "\<forall>k. find_cell (dr_cells x) k = merged s Regular_column k (find_cell (dr_cells b) k) (find_cell (dr_cells d) k)"
    using dr_apply_typed[OF assms(1,3) d(1)] assms(8) by auto
  have y: "dr_wf rank s y" "dr_marker y = marker_merge (dr_marker b) (dr_marker a)"
    "dr_deleted_at y = rt_apply ?B ?A (marker_merge (dr_marker b) (dr_marker a))"
    "\<forall>k. find_cell (dr_cells y) k = merged s Regular_column k (find_cell (dr_cells b) k) (find_cell (dr_cells a) k)"
    using dr_apply_typed[OF assms(1,3,2)] assms(9) by auto
  have m: "dr_marker x = dr_marker y"
    using no_marker_least[of "dr_marker b"] assms(5) by (auto simp: x(2) y(2) d(3) marker_merge_def dr_above_none_def)
  have "rt_apply ?B (dr_deleted_at d) n = rt_apply ?B ?A n" for n
  proof (cases "rt_compare ?A ?B = Ord_greater")
    case False
    have "tomb_key (rt_shadowable ?A) \<le> tomb_key (rt_shadowable ?B)" "tomb_key (rt_shadowable ?B) \<le> tomb_key (rt_regular ?B)"
      "tomb_key (rt_regular ?A) \<le> tomb_key (rt_shadowable ?A)"
      using False assms(2,6) by (auto simp: rt_compare_def rt_is_shadowable_def tomb_compare_key not_less dr_wf_def rt_inv_def)
    then have "tomb_apply (rt_shadowable ?B) (rt_shadowable ?A) = rt_shadowable ?B" "tomb_apply (rt_regular ?B) (rt_regular ?A) = rt_regular ?B"
      by (auto intro!: tombs.merge_absorb)
    then show ?thesis using False d(2) assms(5)
      by (simp add: rt_apply_def no_row_tombstone_def tomb_none_apply dr_above_none_def)
  qed (simp add: d(2))
  then have t: "dr_deleted_at x = dr_deleted_at y" unfolding x(3) y(3) using m x(2) y(2) by simp
  show ?thesis
  proof (rule same_rowI[OF x(1) y(1) t])
    fix k
    have w: "row_wf rank s Regular_column (dr_cells a)" "row_wf rank s Regular_column (dr_cells b)"
      using assms(2,3) by (auto simp: dr_wf_def)
    show "find_cell (dr_cells x) k = find_cell (dr_cells y) k"
      using x(4) y(4) d(4) difference_of_typed(2)[OF assms(1) w[THEN find_option_typed]] by simp
  qed (simp add: m)
qed

end
