(* ===== verification/Row_Compaction.thy ===== *)
theory Row_Compaction
  imports Row_Merge
begin

text \<open>
  Compaction of rows. A reader at some time, with a tombstone over the row, sees the marker of a row if it is live
  and the live cells that no tombstone covers. Compaction may drop everything that is covered, expired or purgeable
  and the tombstone of the row with it; the theorem says that the reader sees the same before and after.
\<close>

section \<open>What a reader sees\<close>

text \<open>The live part of a cell: nothing, the cell, or the live elements of a collection.\<close>

definition visible_cell :: "column_definition \<Rightarrow> cell_or_collection \<Rightarrow> tombstone \<Rightarrow> int \<Rightarrow> (bytes \<times> atomic_cell) list" where
  "visible_cell def c tomb now =
     (case c of
        Atomic a \<Rightarrow> if cell_is_live_at a tomb now (col_is_counter def) then [([], a)] else []
      | Collection m \<Rightarrow> visible_cells m tomb now)"

definition visible_entries :: "table_schema \<Rightarrow> column_kind \<Rightarrow> (nat \<times> cell_and_hash) list \<Rightarrow> tombstone \<Rightarrow> int \<Rightarrow> (nat \<times> bytes \<times> atomic_cell) list" where
  "visible_entries s kind es tomb now =
     concat (map (\<lambda>e. map (Pair (fst e)) (visible_cell (the (column_at s kind (fst e))) (cah_cell (snd e)) tomb now)) es)"

lemma visible_entries_simps [simp]:
  "visible_entries s kind [] tomb now = []"
  "visible_entries s kind (e # es) tomb now =
     map (Pair (fst e)) (visible_cell (the (column_at s kind (fst e))) (cah_cell (snd e)) tomb now) @ visible_entries s kind es tomb now"
  "visible_entries s kind (es @ fs) tomb now = visible_entries s kind es tomb now @ visible_entries s kind fs tomb now"
  by (simp_all add: visible_entries_def)

lemma any_live_visible:
  assumes "tomb_wf (cm_tomb m)" "tomb_wf tomb"
  shows "collection_is_any_live m tomb now \<longleftrightarrow> visible_cells m tomb now \<noteq> []"
proof -
  have "(if tomb_bool (cm_tomb m) then tomb_apply tomb (cm_tomb m) else tomb) = tomb_apply tomb (cm_tomb m)"
    using assms tomb_none_apply(2)[OF assms(2)] by (auto simp: tomb_bool_def tomb_wf_def)
  then show ?thesis by (simp add: collection_is_any_live_def visible_cells_def list_ex_iff filter_empty_conv Let_def)
qed

lemma cell_live_in_visible:
  assumes "column_wf rank def" "cell_typed rank def c" "tomb_wf tomb"
  shows "cell_live_in def c tomb now = Some (visible_cell def c tomb now \<noteq> [])"
proof (cases c)
  case (Atomic a)
  then show ?thesis using assms(2) by (auto simp: cell_typed_def cell_live_in_def visible_cell_def)
next
  case (Collection m)
  then have k: "\<not> col_is_atomic def" "collection_keys (rank (col_id def)) (col_key_less def) (col_key_equal def)"
    "collection_keys.collection_wf (rank (col_id def)) m"
    using assms(1,2) by (auto simp: cell_typed_def column_wf_def)
  then have "tomb_wf (cm_tomb m)" by (simp add: collection_keys.collection_wf_def)
  then show ?thesis using Collection k(1) any_live_visible[OF _ assms(3)] by (simp add: cell_live_in_def visible_cell_def)
qed

text \<open>\<open>is_live\<close> never fails on a well-formed row and tells whether the reader sees any cell.\<close>

lemma row_is_live_visible:
  assumes "schema_wf rank s kind" "row_wf rank s kind r" "tomb_wf tomb"
  shows "row_is_live s kind r tomb now = Some (visible_entries s kind (row_cells r) tomb now \<noteq> [])"
proof -
  have "any_live_loop s kind tomb now es = Some (visible_entries s kind es tomb now \<noteq> [])"
    if "\<forall>e \<in> set es. entry_wf rank s kind e" for es
    using that
  proof (induction es)
    case (Cons e es)
    then obtain def where d: "column_at s kind (fst e) = Some def" "cell_typed rank def (cah_cell (snd e))" by (auto simp: entry_wf_def)
    then have "column_wf rank def" using assms(1) by (auto simp: schema_wf_def)
    from cell_live_in_visible[OF this d(2) assms(3)] show ?case using Cons d(1) by simp
  qed simp
  then show ?thesis using assms(2) by (simp add: row_is_live_def has_any_live_data_def row_wf_def)
qed

section \<open>One column\<close>

text \<open>The tombstones of a row, regular and shadowable, are in order and not below none.\<close>

definition rt_wf :: "row_tombstone \<Rightarrow> bool" where
  "rt_wf t \<longleftrightarrow> rt_inv t \<and> tomb_wf (rt_regular t) \<and> tomb_wf (rt_shadowable t)"

lemma counter_covered_regular:
  "rt_wf t \<Longrightarrow> cell_is_covered_by c (rt_regular t) k \<Longrightarrow> cell_is_covered_by c (rt_shadowable t) k"
  using tomb_wf_least(2)[of "rt_shadowable t"] tomb_wf_least(2)[of "rt_regular t"]
  by (auto simp: cell_is_covered_by_def rt_wf_def rt_inv_def tomb_key_def)

lemma covered_below:
  "tomb_wf u \<Longrightarrow> tomb_timestamp u \<le> tomb_timestamp t \<Longrightarrow> \<not> cell_is_covered_by c t k \<Longrightarrow> \<not> cell_is_covered_by c u k"
  using tomb_wf_least(2)[of u] by (auto simp: cell_is_covered_by_def)

lemma compact_atomic_cell_visible:
  assumes "rt_wf tomb" "tomb_wf u" "tomb_timestamp u \<le> tomb_timestamp (rt_shadowable tomb)"
    "compact_atomic_cell def tomb now can_gc gc_before collector a = (erase, c', res, given)"
  shows "(if erase then [] else visible_cell def c' u now) = visible_cell def (Atomic a) (rt_shadowable tomb) now"
    "live_cells res = length (visible_cell def (Atomic a) (rt_shadowable tomb) now)"
    "col_is_atomic def \<Longrightarrow> cell_typed rank def (Atomic a) \<Longrightarrow> \<not> erase \<Longrightarrow> cell_typed rank def c'"
proof -
  note cov = counter_covered_regular[OF assms(1), of a "col_is_counter def"] covered_below[OF assms(2,3), of a "col_is_counter def"]
  have dv: "\<not> cell_is_live_at (dead_version a) t now k" for t k by (simp add: cell_is_live_at_def)
  show "(if erase then [] else visible_cell def c' u now) = visible_cell def (Atomic a) (rt_shadowable tomb) now"
    "live_cells res = length (visible_cell def (Atomic a) (rt_shadowable tomb) now)"
    using assms(4) cov dv
    by (auto simp: compact_atomic_cell_def visible_cell_def cell_is_live_at_def no_result_def Let_def split: if_splits)
  show "cell_typed rank def c'" if "col_is_atomic def" "cell_typed rank def (Atomic a)" "\<not> erase"
  proof -
    have "c' = Atomic a \<or> c' = Atomic (dead_version a) \<and> cell_has_expired a now"
      using assms(4) that(3) by (auto simp: compact_atomic_cell_def Let_def split: if_splits)
    then show ?thesis using that
      by (cases a) (auto simp: cell_typed_def plain_cells_def dead_version_def cell_has_expired_def counter_state_def counter_cell_def split: if_splits)
  qed
qed

lemma compact_collection_visible:
  assumes "rt_wf tomb" "tomb_wf u" "tomb_timestamp u \<le> tomb_timestamp (rt_shadowable tomb)"
    "collection_keys (rank (col_id def)) (col_key_less def) (col_key_equal def)" "\<not> col_is_atomic def"
    "cell_typed rank def (Collection m)"
    "compact_collection tomb now can_gc gc_before collector m = (erase, c', res, given)"
  shows "(if erase then [] else visible_cell def c' u now) = visible_cell def (Collection m) (rt_shadowable tomb) now"
    "live_cells res = length (visible_cell def (Collection m) (rt_shadowable tomb) now)"
    "\<not> erase \<Longrightarrow> cell_typed rank def c'"
proof -
  obtain res' m' g where c: "collection_compact_and_expire m tomb now can_gc gc_before collector = (res', m', g)" by (metis prod_cases3)
  have r: "res = res'" "c' = Collection (if erase then m else m')" "erase \<Longrightarrow> cm_cells m' = []"
    using assms(7) c by (auto simp: compact_collection_def Let_def)
  have w: "collection_keys.collection_wf (rank (col_id def)) m" using assms(6) by (simp add: cell_typed_def)
  then have "tomb_wf (cm_tomb m)" by (simp add: collection_keys.collection_wf_def[OF assms(4)])
  with assms(1) have t: "rt_inv tomb" "tomb_wf (cm_tomb m)" "tomb_wf (rt_shadowable tomb)" by (simp_all add: rt_wf_def)
  note v = collection_compact_visible(1)[OF t c assms(3)]
  have "visible_cells m' u now = []" if erase using r(3)[OF that] by (simp add: visible_cells_def)
  then show "(if erase then [] else visible_cell def c' u now) = visible_cell def (Collection m) (rt_shadowable tomb) now"
    using v r(2) by (auto simp: visible_cell_def)
  show "live_cells res = length (visible_cell def (Collection m) (rt_shadowable tomb) now)"
    using collection_compact_visible(2)[OF t c] r(1) by (simp add: visible_cell_def)
  show "cell_typed rank def c'" if "\<not> erase"
    using collection_keys.collection_wf_compact[OF assms(4) w c] r(2) that assms(5) by (simp add: cell_typed_def)
qed

lemma compact_cell_visible:
  assumes "rt_wf tomb" "tomb_wf u" "tomb_timestamp u \<le> tomb_timestamp (rt_shadowable tomb)"
    "column_wf rank def" "cell_typed rank def c"
  shows "\<exists>erase c' res given. compact_cell def tomb now can_gc gc_before collector c = Some (erase, c', res, given) \<and>
    (if erase then [] else visible_cell def c' u now) = visible_cell def c (rt_shadowable tomb) now \<and>
    live_cells res = length (visible_cell def c (rt_shadowable tomb) now) \<and> (\<not> erase \<longrightarrow> cell_typed rank def c')"
proof (cases c)
  case (Atomic a)
  then have d: "col_is_atomic def" using assms(5) by (simp add: cell_typed_def)
  obtain erase c' res given where "compact_atomic_cell def tomb now can_gc gc_before collector a = (erase, c', res, given)"
    by (metis prod_cases4)
  note v = compact_atomic_cell_visible[OF assms(1-3) this]
  show ?thesis
    using \<open>compact_atomic_cell def tomb now can_gc gc_before collector a = _\<close> v(1,2) v(3)[OF d, of rank] d Atomic assms(5)
    by (simp add: compact_cell_def)
next
  case (Collection m)
  then have d: "\<not> col_is_atomic def" "collection_keys (rank (col_id def)) (col_key_less def) (col_key_equal def)"
    using assms(4,5) by (auto simp: cell_typed_def column_wf_def)
  obtain erase c' res given where c: "compact_collection tomb now can_gc gc_before collector m = (erase, c', res, given)"
    by (metis prod_cases4)
  have m: "cell_typed rank def (Collection m)" using assms(5) Collection by simp
  note v = compact_collection_visible[where rank = rank and def = def, OF assms(1-3) d(2,1) m c]
  show ?thesis using c v d Collection assms(5) by (simp add: compact_cell_def)
qed

section \<open>All columns\<close>

lemma compact_cells_visible:
  assumes "schema_wf rank s kind" "rt_wf tomb" "tomb_wf u" "tomb_timestamp u \<le> tomb_timestamp (rt_shadowable tomb)"
  shows "\<forall>e \<in> set (row_cells (rc_row st)) \<union> set es. entry_wf rank s kind e \<Longrightarrow> sorted_by fst (row_cells (rc_row st) @ es) \<Longrightarrow>
    row_size (rc_row st) = length (row_cells (rc_row st)) + length es \<Longrightarrow>
    \<exists>rc. compact_cells s kind tomb now can_gc gc_before collector es st = Some rc \<and> row_wf rank s kind (rc_row rc) \<and>
      visible_entries s kind (row_cells (rc_row rc)) u now =
        visible_entries s kind (row_cells (rc_row st)) u now @ visible_entries s kind es (rt_shadowable tomb) now \<and>
      live_cells (rc_result rc) = live_cells (rc_result st) + length (visible_entries s kind es (rt_shadowable tomb) now)"
proof (induction es arbitrary: st)
  case Nil
  then show ?case by (auto simp: row_wf_def)
next
  case (Cons e es)
  obtain def where d: "column_at s kind (fst e) = Some def" "cell_typed rank def (cah_cell (snd e))" "column_wf rank def"
    using Cons.prems(1) assms(1) by (fastforce simp: entry_wf_def schema_wf_def)
  obtain erase c' res given where c: "compact_cell def tomb now can_gc gc_before collector (cah_cell (snd e)) = Some (erase, c', res, given)"
    "(if erase then [] else visible_cell def c' u now) = visible_cell def (cah_cell (snd e)) (rt_shadowable tomb) now"
    "live_cells res = length (visible_cell def (cah_cell (snd e)) (rt_shadowable tomb) now)" "\<not> erase \<longrightarrow> cell_typed rank def c'"
    using compact_cell_visible[OF assms(2-4) d(3,2)] by blast
  let ?r = "rc_row st"
  let ?e = "(fst e, (snd e)\<lparr>cah_cell := c'\<rparr>)"
  define st' where "st' = \<lparr>rc_result = result_plus (rc_result st) res,
    rc_row = (if erase then ?r\<lparr>row_size := row_size ?r - 1\<rparr> else ?r\<lparr>row_cells := row_cells ?r @ [?e]\<rparr>),
    rc_given = rc_given st @ map (Pair (fst e)) given\<rparr>"
  have cells: "row_cells (rc_row st') = row_cells ?r @ (if erase then [] else [?e])" by (simp add: st'_def)
  have "\<forall>x \<in> set (row_cells (rc_row st')) \<union> set es. entry_wf rank s kind x"
    using Cons.prems(1) c(4) d(1) by (auto simp: cells entry_wf_def)
  moreover have "sorted_by fst (row_cells (rc_row st') @ es)"
    using Cons.prems(2) by (auto simp: cells sorted_by_def sorted_wrt_append)
  moreover have "row_size (rc_row st') = length (row_cells (rc_row st')) + length es"
    using Cons.prems(3) by (simp add: st'_def)
  ultimately obtain rc where rc: "compact_cells s kind tomb now can_gc gc_before collector es st' = Some rc" "row_wf rank s kind (rc_row rc)"
    "visible_entries s kind (row_cells (rc_row rc)) u now =
        visible_entries s kind (row_cells (rc_row st')) u now @ visible_entries s kind es (rt_shadowable tomb) now"
    "live_cells (rc_result rc) = live_cells (rc_result st') + length (visible_entries s kind es (rt_shadowable tomb) now)"
    using Cons.IH[of st'] by blast
  have "compact_cells s kind tomb now can_gc gc_before collector (e # es) st = Some rc"
    using d(1) c(1) rc(1) by (simp add: Let_def st'_def)
  moreover have "visible_entries s kind (row_cells (rc_row st')) u now =
      visible_entries s kind (row_cells ?r) u now @ map (Pair (fst e)) (visible_cell def (cah_cell (snd e)) (rt_shadowable tomb) now)"
    using c(2) d(1) by (simp add: cells split: if_splits)
  moreover have "live_cells (rc_result st') = live_cells (rc_result st) + length (visible_cell def (cah_cell (snd e)) (rt_shadowable tomb) now)"
    using c(3) by (simp add: st'_def result_plus_def)
  ultimately show ?case using rc d(1) by simp
qed

lemma row_compact_visible:
  assumes "schema_wf rank s kind" "row_wf rank s kind r" "rt_wf tomb" "tomb_wf u" "tomb_timestamp u \<le> tomb_timestamp (rt_shadowable tomb)"
    "\<not> dead_marker_shadows_row s kind marker"
  shows "\<exists>rc. row_compact_and_expire s kind r tomb now can_gc gc_before marker collector = Some rc \<and> row_wf rank s kind (rc_row rc) \<and>
    visible_entries s kind (row_cells (rc_row rc)) u now = visible_entries s kind (row_cells r) (rt_shadowable tomb) now \<and>
    (result_is_live (rc_result rc) \<longleftrightarrow> visible_entries s kind (row_cells r) (rt_shadowable tomb) now \<noteq> [])"
proof -
  let ?st = "\<lparr>rc_result = no_result, rc_row = r\<lparr>row_cells := []\<rparr>, rc_given = []\<rparr>"
  have "\<forall>e \<in> set (row_cells (rc_row ?st)) \<union> set (row_cells r). entry_wf rank s kind e" "sorted_by fst (row_cells (rc_row ?st) @ row_cells r)"
    "row_size (rc_row ?st) = length (row_cells (rc_row ?st)) + length (row_cells r)"
    using assms(2) by (auto simp: row_wf_def)
  from compact_cells_visible[where now = now and can_gc = can_gc and gc_before = gc_before and collector = collector, OF assms(1,3-5) this]
  obtain rc where
    "compact_cells s kind tomb now can_gc gc_before collector (row_cells r) ?st = Some rc" "row_wf rank s kind (rc_row rc)"
    "visible_entries s kind (row_cells (rc_row rc)) u now = visible_entries s kind (row_cells r) (rt_shadowable tomb) now"
    "live_cells (rc_result rc) = length (visible_entries s kind (row_cells r) (rt_shadowable tomb) now)"
    by (auto simp: no_result_def)
  then show ?thesis using assms(6) by (simp add: row_compact_and_expire_def result_is_live_def)
qed

section \<open>Deletable rows\<close>

text \<open>What a reader sees of a row under a tombstone: whether its marker is live, and the live cells.\<close>

definition dr_visible :: "table_schema \<Rightarrow> deletable_row \<Rightarrow> tombstone \<Rightarrow> int \<Rightarrow> bool \<times> (nat \<times> bytes \<times> atomic_cell) list" where
  "dr_visible s d tomb now =
     (let t = tomb_apply tomb (rt_tomb (dr_deleted_at d))
      in (rm_is_live_at (dr_marker d) t now, visible_entries s Regular_column (row_cells (dr_cells d)) t now))"

lemma dr_is_live_visible:
  assumes "schema_wf rank s Regular_column" "dr_wf rank s d" "dr_above_none d" "tomb_wf tomb"
  shows "dr_is_live s Regular_column d tomb now = Some (fst (dr_visible s d tomb now) \<or> snd (dr_visible s d tomb now) \<noteq> [])"
proof -
  have "tomb_wf (tomb_apply tomb (rt_tomb (dr_deleted_at d)))"
    using assms(3,4) by (intro tomb_wf_apply) (simp_all add: dr_above_none_def rt_tomb_def)
  from row_is_live_visible[OF assms(1) _ this, of "dr_cells d" now] show ?thesis
    using assms(2) by (simp add: dr_is_live_def dr_visible_def dr_wf_def Let_def)
qed

lemma marker_compact:
  assumes "rm_wf m" "tomb_timestamp u \<le> tomb_timestamp t" "missing_timestamp \<le> rm_timestamp m"
    "rm_compact_and_expire m t now can_gc gc_before collector = (live, m', given)"
  shows "live \<longleftrightarrow> rm_is_live_at m t now" "rm_is_live_at m' u now \<longleftrightarrow> rm_is_live_at m t now" "rm_wf m'"
    "is_shadowed_by v m' \<Longrightarrow> is_shadowed_by v m" "missing_timestamp \<le> rm_timestamp m'"
proof -
  have "(live \<longleftrightarrow> rm_is_live_at m t now) \<and> (rm_is_live_at m' u now \<longleftrightarrow> rm_is_live_at m t now) \<and> rm_wf m' \<and>
      (is_shadowed_by v m' \<longrightarrow> is_shadowed_by v m) \<and> missing_timestamp \<le> rm_timestamp m'" for v
  proof (cases "rm_is_missing m \<or> rm_timestamp m \<le> tomb_timestamp t")
    case True
    then have "\<not> live" "rm_is_missing m'" "m' = m\<lparr>rm_timestamp := missing_timestamp\<rparr>"
      using assms(4) by (cases m; auto simp: rm_compact_and_expire_def rm_is_missing_def split: if_splits)+
    moreover have "\<not> rm_is_live_at m t now" using True by (auto simp: rm_is_live_at_def)
    moreover have "rm_wf (m\<lparr>rm_timestamp := missing_timestamp\<rparr>)" using assms(1) by (auto simp: rm_wf_def rm_deletion_time_def split: if_splits)
    moreover have "\<not> rm_is_live_at m' u now" "\<not> is_shadowed_by v m'"
      using \<open>rm_is_missing m'\<close> by (simp_all add: rm_is_live_at_def is_shadowed_by_def rm_is_live_def)
    ultimately show ?thesis by auto
  next
    case False
    define m1 where "m1 = (if rm_ttl m > no_ttl \<and> rm_expiry m \<le> now
      then m\<lparr>rm_expiry := rm_expiry m - rm_ttl m, rm_ttl := dead_ttl\<rparr> else m)"
    have m1: "rm_timestamp m1 = rm_timestamp m" "rm_wf m1" "rm_ttl m1 \<noteq> dead_ttl \<Longrightarrow> m1 = m"
      "rm_ttl m1 \<noteq> dead_ttl \<longleftrightarrow> rm_is_live_at m t now"
      using False assms(1) by (auto simp: m1_def rm_wf_def rm_deletion_time_def rm_is_live_at_def no_ttl_def dead_ttl_def)
    have m': "live \<longleftrightarrow> \<not> rm_is_missing m' \<and> rm_ttl m' \<noteq> dead_ttl"
      "m' = m1 \<or> m' = m1\<lparr>rm_timestamp := missing_timestamp\<rparr> \<and> rm_ttl m1 = dead_ttl"
      using False assms(4) by (auto simp: rm_compact_and_expire_def Let_def m1_def[symmetric] split: if_splits)
    have l: "live \<longleftrightarrow> rm_is_live_at m t now" using m' m1 False by (auto simp: rm_is_missing_def)
    have "rm_wf m'" "missing_timestamp \<le> rm_timestamp m'" using m'(2) m1(1,2) assms(3) by (auto simp: rm_wf_def rm_deletion_time_def)
    moreover have "m' = m \<or> \<not> rm_is_live m'" using m'(2) m1(3) by (auto simp: rm_is_live_def rm_is_missing_def)
    moreover have "rm_is_live_at m' u now \<longleftrightarrow> live"
    proof (cases live)
      case True
      then have "m' = m" using m' m1(3) by (auto simp: rm_is_missing_def)
      then show ?thesis using True l assms(2) by (auto simp: rm_is_live_at_def split: if_splits)
    next
      case False
      then show ?thesis using m'(1) by (auto simp: rm_is_live_at_def)
    qed
    ultimately show ?thesis using l by (auto simp: is_shadowed_by_def)
  qed
  then show "live \<longleftrightarrow> rm_is_live_at m t now" "rm_is_live_at m' u now \<longleftrightarrow> rm_is_live_at m t now" "rm_wf m'"
    "is_shadowed_by v m' \<Longrightarrow> is_shadowed_by v m" "missing_timestamp \<le> rm_timestamp m'" by blast+
qed

text \<open>Applying a tombstone of the partition or of a range to a row.\<close>

lemma dr_apply_tombstone_eq:
  assumes "dr_wf rank s d"
  shows "dr_apply_tombstone d tomb = d\<lparr>dr_deleted_at := rt_apply_tombstone (dr_deleted_at d) tomb\<rparr>"
proof -
  have "rt_shadowable t = rt_regular t" if "is_shadowed_by (rt_shadowable t) (dr_marker d)" "t = rt_apply_tombstone (dr_deleted_at d) tomb" for t
  proof -
    have "tomb_key (rt_shadowable (dr_deleted_at d)) \<le> tomb_key (rt_shadowable t)"
      by (simp add: that(2) rt_apply_tombstone_def tombs.key_merge)
    then have "is_shadowed_by (rt_shadowable (dr_deleted_at d)) (dr_marker d)" by (rule is_shadowed_mono[OF that(1)])
    then show ?thesis using assms that(2) by (simp add: dr_wf_def rt_apply_tombstone_def)
  qed
  then show ?thesis by (simp add: dr_apply_tombstone_def dr_maybe_shadow_def rt_maybe_shadow_def shadowable_maybe_shadow_def)
qed

lemma dr_compact_visible:
  assumes "schema_wf rank s Regular_column" "dr_wf rank s d" "dr_above_none d" "tomb_wf tomb"
    "\<not> (is_view s \<and> has_base_non_pk_columns_in_view_pk s)"
  shows "\<exists>live d' given. dr_compact_and_expire s d tomb now can_gc gc_before collector = Some (live, d', given) \<and>
    dr_wf rank s d' \<and> dr_above_none d' \<and> dr_visible s d' tomb now = dr_visible s d tomb now \<and>
    dr_is_live s Regular_column d tomb now = Some live"
proof -
  let ?M = "dr_marker d"
  define D where "D = rt_apply_tombstone (dr_deleted_at d) tomb"
  define T where "T = rt_shadowable D"
  have T: "T = tomb_apply tomb (rt_tomb (dr_deleted_at d))"
    unfolding T_def D_def rt_apply_tombstone_def rt_tomb_def by (simp add: tomb_apply_commute)
  have D: "rt_wf D"
    using assms(2-4) rt_inv_ops(4) by (simp add: rt_wf_def D_def dr_wf_def rt_apply_tombstone_def dr_above_none_def tomb_wf_apply)
  have le: "tomb_timestamp tomb \<le> tomb_timestamp T" unfolding T by (simp add: tomb_timestamp_apply)
  obtain mlive M' g where m: "rm_compact_and_expire ?M T now can_gc gc_before False = (mlive, M', g)" by (metis prod_cases3)
  define keep where "keep \<longleftrightarrow> tomb_compare T tomb = Ord_greater \<and> \<not> (rt_max_deletion_time D < gc_before \<and> can_gc T (rt_is_shadowable D))"
  define D' where "D' = (if keep then D else no_row_tombstone)"
  define u where "u = tomb_apply tomb (rt_tomb D')"
  have nt: "tomb_timestamp no_tombstone = missing_timestamp" by (simp add: no_tombstone_def)
  have u: "tomb_wf u" "tomb_timestamp u \<le> tomb_timestamp T"
    using assms(4) le D T_def tomb_wf_least(2)[of T] tomb_wf_least(2)[of tomb] nt
    by (auto simp: u_def D'_def no_row_tombstone_def rt_tomb_def rt_wf_def tomb_none_apply tomb_timestamp_apply intro: tomb_wf_apply)
  have w: "row_wf rank s Regular_column (dr_cells d)" "rm_wf ?M" "missing_timestamp \<le> rm_timestamp ?M"
    using assms(2,3) by (auto simp: dr_wf_def dr_above_none_def)
  have ns: "\<not> dead_marker_shadows_row s Regular_column M'" using assms(5) by (auto simp: dead_marker_shadows_row_def)
  obtain rc where rc: "row_compact_and_expire s Regular_column (dr_cells d) D now can_gc gc_before M' collector = Some rc"
    "row_wf rank s Regular_column (rc_row rc)"
    "visible_entries s Regular_column (row_cells (rc_row rc)) u now = visible_entries s Regular_column (row_cells (dr_cells d)) T now"
    "result_is_live (rc_result rc) \<longleftrightarrow> visible_entries s Regular_column (row_cells (dr_cells d)) T now \<noteq> []"
    using row_compact_visible[OF assms(1) w(1) D u(1) u(2)[unfolded T_def] ns] unfolding T_def by blast
  note mc = marker_compact[OF w(2) u(2) w(3) m]
  let ?d' = "\<lparr>dr_deleted_at = D', dr_marker = M', dr_cells = rc_row rc\<rparr>"
  have e: "dr_compact_and_expire s d tomb now can_gc gc_before collector = Some (mlive \<or> result_is_live (rc_result rc), ?d', rc_given rc)"
    using m rc(1) unfolding dr_compact_and_expire_def dr_apply_tombstone_eq[OF assms(2)] D_def[symmetric]
    by (cases d) (auto simp: Let_def rt_tomb_def T_def[symmetric] D'_def keep_def dr_remove_tombstone_def)
  have "is_shadowed_by (rt_shadowable D) M' \<Longrightarrow> rt_shadowable D = rt_regular D"
    using mc(4)[of "rt_shadowable D"] dr_apply_tombstone_eq[OF assms(2), of tomb] shadow_settled[of D ?M]
    by (metis D_def deletable_row.ext_inject deletable_row.surjective deletable_row.update_convs(1) dr_apply_tombstone_def
      dr_maybe_shadow_def deletable_row.select_convs(1,2))
  then have "dr_wf rank s ?d'" "dr_above_none ?d'"
    using rc(2) mc(3,5) D rt_inv_ops(2)
    by (auto simp: dr_wf_def D'_def dr_above_none_def rt_wf_def no_row_tombstone_def tomb_wf_def)
  moreover have "dr_visible s ?d' tomb now = dr_visible s d tomb now"
    using mc(2) rc(3) by (simp add: dr_visible_def u_def[symmetric] T[symmetric] Let_def)
  moreover have "dr_is_live s Regular_column d tomb now = Some (mlive \<or> result_is_live (rc_result rc))"
    unfolding dr_is_live_visible[OF assms(1-4)] using mc(1) rc(4) by (simp add: dr_visible_def T[symmetric] Let_def)
  ultimately show ?thesis using e by blast
qed

end
