(* ===== verification/Row_Properties.thy ===== *)
theory Row_Properties
  imports Row_Compaction
begin

text \<open>
  The properties of rows, of the lazy rows that implement rows with no cost for empty ones, and of deletable rows,
  with an example table that has a blob column and a set column.
\<close>

section \<open>Lazy rows\<close>

lemma lazy_get_simps [simp]: "lazy_get None = empty_row" "lazy_get (Some r) = r" "maybe_create l = lazy_get l"
  by (auto simp: lazy_get_def maybe_create_def split: option.splits)

lemma empty_row_simps [simp]: "row_empty empty_row" "row_cells empty_row = []" "row_size empty_row = 0" "find_cell empty_row i = None"
  by (simp_all add: row_empty_def empty_row_def find_cell_eq find_cell_and_hash_def)

lemma lazy_empty_get: "lazy_empty l \<longleftrightarrow> row_empty (lazy_get l)"
  by (cases l) (simp_all add: lazy_empty_def)

lemma lazy_accessors:
  "lazy_size l = row_size (lazy_get l)" "lazy_find_cell_and_hash l i = find_cell_and_hash (lazy_get l) i"
  "lazy_find_cell l i = find_cell (lazy_get l) i" "lazy_cell_at l i = row_cell_at (lazy_get l) i"
  "map_option lazy_get (lazy_apply_cell column c h l) = row_apply_cell column c h (lazy_get l)"
  "lazy_get (lazy_append_cell i c l) = append_cell i c (lazy_get l)"
  "lazy_is_live s kind l tomb now = row_is_live s kind (lazy_get l) tomb now" "lazy_get (lazy_reserve nr l) = lazy_get l"
  by (cases l; simp add: lazy_reserve_def lazy_size_def lazy_find_cell_and_hash_def lazy_find_cell_def lazy_cell_at_def lazy_apply_cell_def
    lazy_append_cell_def lazy_is_live_def find_cell_and_hash_def row_cell_at_def row_is_live_def has_any_live_data_def
    option.map_comp comp_def option.map_ident)+

lemma lazy_apply_get:
  "map_option lazy_get (lazy_apply s kind l m) = row_apply s kind (lazy_get l) (lazy_get m)"
  "map_option lazy_get (lazy_apply_row s kind l r) = row_apply s kind (lazy_get l) r"
  "map_option (map_prod lazy_get id) (lazy_apply_row_consuming s kind l r) = row_apply_consuming s kind (lazy_get l) r"
  by (cases m; auto simp: lazy_apply_def lazy_apply_row_def lazy_apply_row_consuming_def lazy_empty_def row_apply_def
    row_apply_consuming_def option.map_comp comp_def option.map_ident map_prod.compositionality prod.map_id split: option.splits)+

text \<open>A well-typed row without cells is the empty row; copies are exact.\<close>

lemma row_wf_empty_row: "row_wf rank s kind r \<Longrightarrow> row_empty r \<Longrightarrow> r = empty_row"
  by (cases r) (simp add: row_wf_def row_empty_def empty_row_def)

lemma row_copy_typed: "row_wf rank s kind r \<Longrightarrow> row_copy s kind r = Some r"
  by (fastforce simp: row_copy_def row_wf_def list_all_iff entry_wf_def)

lemma lazy_copy_get:
  assumes "row_wf rank s kind r"
  shows "map_option lazy_get (lazy_copy s kind r) = Some r" "lazy_get (make_lazy_row r) = r"
  using row_copy_typed[OF assms] row_wf_empty_row[OF assms] by (auto simp: lazy_copy_def make_lazy_row_def)

lemma lazy_copy_lazy_get:
  assumes "row_wf rank s kind (lazy_get l)"
  shows "map_option lazy_get (lazy_copy_lazy s kind l) = Some (lazy_get l)"
  using row_copy_typed[OF assms] row_wf_empty_row[OF assms] by (cases l) (auto simp: lazy_copy_lazy_def lazy_empty_def)

text \<open>Rows that are equal but for cached hashes.\<close>

definition same_cells :: "row \<Rightarrow> row \<Rightarrow> bool" where
  "same_cells a b \<longleftrightarrow> contents a = contents b \<and> row_size a = row_size b"

lemma same_cells_refl [simp]: "same_cells r r"
  by (simp add: same_cells_def)

lemma same_cellsI:
  "row_wf rank s kind a \<Longrightarrow> row_wf rank' s' kind' b \<Longrightarrow> (\<And>i. find_cell a i = find_cell b i) \<Longrightarrow> same_cells a b"
  by (simp add: same_cells_def row_ext[of rank s kind a rank' s' kind' b])

lemma lazy_apply_consuming_get:
  assumes "schema_wf rank s kind" "row_wf rank s kind (lazy_get l)" "row_wf rank s kind (lazy_get m)"
  shows "rel_option (\<lambda>p q. same_cells (lazy_get (fst p)) (fst q) \<and> lazy_get (snd p) = snd q)
    (lazy_apply_consuming s kind l m) (row_apply_consuming s kind (lazy_get l) (lazy_get m))"
proof (cases l)
  case None
  obtain r where r: "row_apply s kind empty_row (lazy_get m) = Some r" "row_wf rank s kind r" "\<forall>k. find_cell r k = find_cell (lazy_get m) k"
    using row_apply_typed[OF assms(1) row_wf_empty assms(3)] by auto
  have "same_cells (lazy_get m) r" by (rule same_cellsI[OF assms(3) r(2)]) (simp add: r(3))
  then show ?thesis using None r(1) assms(3)
    by (auto simp: lazy_apply_consuming_def lazy_empty_get row_apply_def row_apply_consuming_def row_wf_def empty_row_def)
next
  case (Some x)
  then show ?thesis
    by (cases m; cases "apply_cells s kind (row_cells (lazy_get m)) x")
      (auto simp: lazy_apply_consuming_def lazy_empty_def row_apply_consuming_def)
qed

lemma lazy_difference_get:
  assumes "schema_wf rank s kind" "row_wf rank s kind (lazy_get l)" "row_wf rank s kind (lazy_get m)"
  shows "rel_option (\<lambda>x. same_cells (lazy_get x)) (lazy_difference s kind l m) (row_difference s kind (lazy_get l) (lazy_get m))"
proof -
  obtain r where r: "row_difference s kind (lazy_get l) (lazy_get m) = Some r" "row_wf rank s kind r"
    "\<forall>k. find_cell r k = difference_of s kind k (find_cell (lazy_get l) k) (find_cell (lazy_get m) k)"
    using row_difference_typed[OF assms] by blast
  consider "l = None" | x where "l = Some x" "m = None" | x y where "l = Some x" "m = Some y" by (cases l; cases m) auto
  then show ?thesis
  proof cases
    case 1
    have "same_cells empty_row r" by (rule same_cellsI[OF row_wf_empty r(2)]) (simp add: r(3) 1 difference_of_def)
    then show ?thesis using 1 r(1) by (simp add: lazy_difference_def)
  next
    case (2 x)
    have "same_cells x r" by (rule same_cellsI[OF _ r(2)]) (use assms(2) 2 r(3) in \<open>auto simp: difference_of_def split: option.splits\<close>)
    then show ?thesis using lazy_copy_get(1)[of rank s kind x] assms(2) 2 r(1) by (auto simp: lazy_difference_def)
  next
    case (3 x y)
    then show ?thesis using r(1) lazy_copy_get(2)[OF r(2)] by (simp add: lazy_difference_def)
  qed
qed

lemma lazy_equal_get:
  assumes "row_wf rank s kind (lazy_get l)" "row_wf rank' s' kind (lazy_get m)"
  shows "lazy_equal kind s l m s' = row_equal kind s (lazy_get l) (lazy_get m) s'"
proof -
  have "the l = lazy_get l" "the m = lazy_get m" if "\<not> lazy_empty l" "\<not> lazy_empty m"
    using that by (cases l; cases m; simp add: lazy_empty_def)+
  moreover have "row_cells (lazy_get l) = [] \<longleftrightarrow> row_size (lazy_get l) = 0" "row_cells (lazy_get m) = [] \<longleftrightarrow> row_size (lazy_get m) = 0"
    using assms by (simp_all add: row_wf_def)
  ultimately show ?thesis by (auto simp: lazy_equal_def lazy_empty_get row_equal_def row_empty_def Let_def)
qed

lemma lazy_compact_get:
  "map_option (map_prod id lazy_get) (lazy_compact_and_expire s kind l tomb now can_gc gc_before marker collector) =
   map_option (\<lambda>rc. (result_is_live (rc_result rc), rc_row rc))
     (row_compact_and_expire s kind (lazy_get l) tomb now can_gc gc_before marker collector)"
  "map_option (map_prod id lazy_get) (lazy_compact_and_expire_unmarked s kind l tomb now can_gc gc_before collector) =
   map_option (\<lambda>rc. (result_is_live (rc_result rc), rc_row rc))
     (row_compact_and_expire_unmarked s kind (lazy_get l) tomb now can_gc gc_before collector)"
  by (cases l; auto simp: lazy_compact_and_expire_def lazy_compact_and_expire_unmarked_def row_compact_and_expire_unmarked_def
    row_compact_and_expire_def result_is_live_def no_result_def option.map_comp comp_def empty_row_def)+

section \<open>Example table\<close>

definition ex_column :: "nat \<Rightarrow> bool \<Rightarrow> column_definition" where
  "ex_column i atomic = \<lparr>col_id = i, col_name = [of_nat i], col_type = i, col_is_atomic = atomic, col_is_counter = False,
     col_key_less = bytes_less, col_key_equal = bytes_equal\<rparr>"

definition ex_schema :: table_schema where
  "ex_schema = \<lparr>column_at = (\<lambda>kind i. if i = 0 then Some (ex_column 0 True) else if i = 1 then Some (ex_column 1 False) else None),
     is_view = False, has_base_non_pk_columns_in_view_pk = False\<rparr>"

definition ex_rank :: "nat \<Rightarrow> bytes \<Rightarrow> bytes" where
  "ex_rank i = (\<lambda>k. k)"

definition ex_row :: "(nat \<times> cell_or_collection) list \<Rightarrow> row" where
  "ex_row cs = \<lparr>row_size = length cs, row_cells = map (\<lambda>(i, c). (i, \<lparr>cah_cell = c, cah_hash = None\<rparr>)) cs\<rparr>"

definition ex_tomb :: "int \<Rightarrow> tombstone" where
  "ex_tomb ts = \<lparr>tomb_timestamp = ts, tomb_deletion_time = 0\<rparr>"

definition ex_dr :: "int \<Rightarrow> int \<Rightarrow> row_marker \<Rightarrow> row \<Rightarrow> deletable_row" where
  "ex_dr regular shadowable m r =
     \<lparr>dr_deleted_at = \<lparr>rt_regular = ex_tomb regular, rt_shadowable = ex_tomb shadowable\<rparr>, dr_marker = m, dr_cells = r\<rparr>"

lemma ex_collection_wf [simp]: "collection_keys.collection_wf (ex_rank i) c \<longleftrightarrow> bytes_keys.collection_wf c"
  by (simp add: ex_rank_def)

lemma ex_schema_wf: "schema_wf ex_rank ex_schema kind" "mergeable_schema ex_rank ex_schema kind"
proof -
  have "collection_keys (ex_rank i) bytes_less bytes_equal" for i
    unfolding ex_rank_def by (rule bytes_keys.collection_keys_axioms)
  then show "schema_wf ex_rank ex_schema kind" "mergeable_schema ex_rank ex_schema kind"
    by (auto simp: schema_wf_def column_wf_def mergeable_schema_def mergeable_def ex_schema_def ex_column_def ex_rank_def inj_def)
qed

definition ex_row1 :: row where
  "ex_row1 = ex_row [(0, Atomic (Live_cell 4 [1])), (1, Collection (ex_collection 2 [([7], Live_cell 9 [])]))]"

definition ex_row2 :: row where
  "ex_row2 = ex_row [(0, Atomic (Dead_cell 6 3))]"

lemma ex_rows_wf: "row_wf ex_rank ex_schema kind ex_row1" "row_wf ex_rank ex_schema kind ex_row2"
  by (auto simp: row_wf_def ex_row1_def ex_row2_def ex_row_def entry_wf_def ex_schema_def ex_column_def cell_typed_def
    bytes_keys.collection_wf_def ex_collection_def plain_cells_def int_range_def tomb_wf_def missing_timestamp_def)

lemma ex_dr_wf:
  "dr_wf ex_rank ex_schema (ex_dr 1 3 no_marker ex_row1)" "dr_wf ex_rank ex_schema (ex_dr 1 1 (marker_created_at 5) ex_row2)"
  "dr_above_none (ex_dr 1 3 no_marker ex_row1)" "dr_above_none (ex_dr 1 1 (marker_created_at 5) ex_row2)"
  by (auto simp: dr_wf_def dr_above_none_def ex_dr_def ex_rows_wf rt_inv_def tomb_key_def ex_tomb_def is_shadowed_by_def
    rm_is_live_def rm_is_missing_def marker_created_at_def rm_wf_def rm_deletion_time_def no_marker_def
    no_ttl_def dead_ttl_def no_expiry_def int_range_def tomb_wf_def missing_timestamp_def)

lemma ex_undeleted: "undeleted no_marker" "undeleted (marker_created_at 5)"
  by (auto simp: undeleted_def rm_is_live_def rm_is_missing_def marker_created_at_def no_marker_def
    no_ttl_def dead_ttl_def missing_timestamp_def)

section \<open>Properties\<close>

lemma row_compact_typed:
  assumes "schema_wf rank s kind" "row_wf rank s kind r" "rt_wf tomb"
  shows "\<exists>rc. row_compact_and_expire s kind r tomb now can_gc gc_before marker collector = Some rc \<and> row_wf rank s kind (rc_row rc)"
proof -
  define t where "t = (if dead_marker_shadows_row s kind marker
    then rt_apply_shadowable tomb \<lparr>tomb_timestamp = max_timestamp, tomb_deletion_time = max_time_point\<rparr> no_marker else tomb)"
  have "tomb_wf \<lparr>tomb_timestamp = max_timestamp, tomb_deletion_time = max_time_point\<rparr>"
    by (simp add: tomb_wf_def max_timestamp_def missing_timestamp_def)
  then have t: "rt_wf t"
    using assms(3) rt_inv_ops(5)
    by (auto simp: rt_wf_def t_def) (auto simp: rt_apply_shadowable_def rt_maybe_shadow_def shadowable_maybe_shadow_def tomb_wf_apply)
  then have u: "tomb_wf (rt_shadowable t)" by (simp add: rt_wf_def)
  let ?st = "\<lparr>rc_result = no_result, rc_row = r\<lparr>row_cells := []\<rparr>, rc_given = []\<rparr>"
  have "\<forall>e \<in> set (row_cells (rc_row ?st)) \<union> set (row_cells r). entry_wf rank s kind e" "sorted_by fst (row_cells (rc_row ?st) @ row_cells r)"
    "row_size (rc_row ?st) = length (row_cells (rc_row ?st)) + length (row_cells r)"
    using assms(2) by (auto simp: row_wf_def)
  from compact_cells_visible[where now = now and can_gc = can_gc and gc_before = gc_before and collector = collector,
      OF assms(1) t u order_refl this]
  show ?thesis by (auto simp: row_compact_and_expire_def t_def[symmetric] Let_def)
qed

text \<open>C34: The operations on rows are type safe: on rows whose cells have the types that the schema gives their columns,
  merging, taking the difference, asking for live data and compacting never read a cell as something it is not,
  never miss a column and return well-typed rows in order; a merge has exactly the columns of both rows.\<close>

theorem row_operations_typed:
  assumes "schema_wf rank s kind" "row_wf rank s kind a" "row_wf rank s kind b" "rt_wf tomb"
  shows "(\<exists>r. row_apply s kind a b = Some r \<and> row_wf rank s kind r \<and>
      (\<forall>i. find_cell r i = None \<longleftrightarrow> find_cell a i = None \<and> find_cell b i = None)) \<and>
    (\<exists>r. row_difference s kind a b = Some r \<and> row_wf rank s kind r) \<and>
    (\<exists>live. row_is_live s kind a (rt_tomb tomb) now = Some live) \<and>
    (\<exists>rc. row_compact_and_expire s kind a tomb now can_gc gc_before marker collector = Some rc \<and> row_wf rank s kind (rc_row rc))"
proof (intro conjI)
  have "merged s kind i x y = None \<longleftrightarrow> x = None \<and> y = None" for i x y by (cases x; cases y) simp_all
  then show "\<exists>r. row_apply s kind a b = Some r \<and> row_wf rank s kind r \<and>
      (\<forall>i. find_cell r i = None \<longleftrightarrow> find_cell a i = None \<and> find_cell b i = None)"
    using row_apply_typed[OF assms(1-3)] by auto
  show "\<exists>r. row_difference s kind a b = Some r \<and> row_wf rank s kind r" using row_difference_typed[OF assms(1-3)] by blast
  show "\<exists>live. row_is_live s kind a (rt_tomb tomb) now = Some live"
    using row_is_live_visible[OF assms(1,2)] assms(4) by (simp add: rt_tomb_def rt_wf_def)
qed (rule row_compact_typed[OF assms(1,2,4)])

lemma row_operations_typed_witness:
  "\<exists>r. row_apply ex_schema Regular_column ex_row1 ex_row2 = Some r \<and> row_wf ex_rank ex_schema Regular_column r \<and> find_cell r 5 = None"
proof -
  have t: "rt_wf no_row_tombstone" by (simp add: rt_wf_def rt_inv_def tomb_wf_def no_row_tombstone_def)
  have "find_cell ex_row1 5 = None" "find_cell ex_row2 5 = None"
    by (simp_all add: find_cell_eq find_cell_and_hash_def ex_row1_def ex_row2_def ex_row_def)
  then show ?thesis using row_operations_typed[OF ex_schema_wf(1) ex_rows_wf t, of Regular_column] by blast
qed

text \<open>C35: Replicas agree on a row: merging rows is commutative, associative and idempotent, marker, tombstones and cells,
  also where a newer insertion removes a shadowable tombstone. This is so in tables without counter columns, where the
  order of the keys of a collection tells any two keys apart, and for rows whose markers are missing or live, never
  deletions. The results are equal up to cached hashes.\<close>

theorem deletable_row_converges:
  assumes "schema_wf rank s Regular_column" "mergeable_schema rank s Regular_column" "dr_wf rank s a" "dr_wf rank s b" "dr_wf rank s c"
    "undeleted (dr_marker a)" "undeleted (dr_marker b)" "undeleted (dr_marker c)"
  shows "\<exists>ab ba bc l r aa. dr_apply s a b = Some ab \<and> dr_apply s b a = Some ba \<and> dr_apply s b c = Some bc \<and>
    dr_apply s ab c = Some l \<and> dr_apply s a bc = Some r \<and> dr_apply s a a = Some aa \<and>
    same_row ab ba \<and> same_row l r \<and> same_row aa a"
proof -
  obtain ab ba bc aa where x: "dr_apply s a b = Some ab" "dr_apply s b a = Some ba" "dr_apply s b c = Some bc" "dr_apply s a a = Some aa"
    "dr_wf rank s ab" "dr_wf rank s bc"
    using dr_apply_typed[OF assms(1)] assms(3-5) by meson
  moreover obtain l r where "dr_apply s ab c = Some l" "dr_apply s a bc = Some r"
    using dr_apply_typed[OF assms(1)] assms(3,5) x(5,6) by meson
  ultimately show ?thesis
    using dr_apply_commute[OF assms(1-4)] dr_apply_assoc[OF assms] dr_apply_idem[OF assms(1-3)] by blast
qed

lemma deletable_row_converges_witness:
  "\<exists>ab ba. dr_apply ex_schema (ex_dr 1 3 no_marker ex_row1) (ex_dr 1 1 (marker_created_at 5) ex_row2) = Some ab \<and>
     dr_apply ex_schema (ex_dr 1 1 (marker_created_at 5) ex_row2) (ex_dr 1 3 no_marker ex_row1) = Some ba \<and> same_row ab ba"
proof -
  have m: "undeleted (dr_marker (ex_dr 1 3 no_marker ex_row1))" "undeleted (dr_marker (ex_dr 1 1 (marker_created_at 5) ex_row2))"
    using ex_undeleted by (simp_all add: ex_dr_def)
  show ?thesis using deletable_row_converges[OF ex_schema_wf ex_dr_wf(1,2,1) m m(1)] by (elim exE conjE) (intro exI conjI)
qed

text \<open>A shadowable tombstone above the regular one, merged with rows that have no tombstones.\<close>

lemma rt_apply_none: "tomb_wf (rt_regular t) \<Longrightarrow> tomb_wf (rt_shadowable t) \<Longrightarrow> rt_apply t no_row_tombstone m = rt_maybe_shadow t m"
  by (cases t) (simp add: rt_apply_def no_row_tombstone_def tomb_none_apply)

lemma rt_shadow_tomb:
  "is_shadowed_by (rt_shadowable t) m \<Longrightarrow> rt_tomb (rt_maybe_shadow t m) = rt_regular t"
  "\<not> rm_is_live m \<Longrightarrow> rt_maybe_shadow t m = t" "rt_regular (rt_maybe_shadow t m) = rt_regular t"
  by (simp_all add: rt_maybe_shadow_def shadowable_maybe_shadow_def rt_tomb_def is_shadowed_by_def)

lemma merge_newer: "marker_key m < marker_key n \<Longrightarrow> marker_merge m n = n \<and> marker_merge n m = n"
  by (simp add: marker_merge_def)

text \<open>C36: With a marker that is a deletion the order of merges matters. Take any row \<open>a\<close> with a shadowable tombstone above its
  regular one, any row \<open>b\<close> without tombstones whose live marker is newer than that tombstone and than the marker of \<open>a\<close>,
  and any row \<open>c\<close> without tombstones whose dead marker is newer than the one of \<open>b\<close>. If \<open>a\<close> meets \<open>b\<close> first, the shadowable
  tombstone is removed for good; if it meets \<open>c\<close> first, or \<open>b\<close> and \<open>c\<close> merged, it stays. The markers are the same, the rows
  are not: merging is not associative.\<close>

theorem dead_marker_breaks_order:
  assumes "schema_wf rank s Regular_column" "dr_wf rank s a" "dr_wf rank s b" "dr_wf rank s c"
    "tomb_wf (rt_regular (dr_deleted_at a))" "tomb_wf (rt_shadowable (dr_deleted_at a))"
    "rt_is_shadowable (dr_deleted_at a)" "dr_deleted_at b = no_row_tombstone" "dr_deleted_at c = no_row_tombstone"
    "is_shadowed_by (rt_shadowable (dr_deleted_at a)) (dr_marker b)" "\<not> rm_is_live (dr_marker c)"
    "marker_key (dr_marker a) < marker_key (dr_marker b)" "marker_key (dr_marker b) < marker_key (dr_marker c)"
  shows "\<exists>ab ac bc abc acb abc'.
     dr_apply s a b = Some ab \<and> dr_apply s ab c = Some abc \<and> dr_apply s a c = Some ac \<and> dr_apply s ac b = Some acb \<and>
     dr_apply s b c = Some bc \<and> dr_apply s a bc = Some abc' \<and>
     dr_marker abc = dr_marker c \<and> dr_marker acb = dr_marker c \<and> dr_marker abc' = dr_marker c \<and>
     rt_tomb (dr_deleted_at abc) = rt_regular (dr_deleted_at a) \<and>
     rt_tomb (dr_deleted_at acb) = rt_shadowable (dr_deleted_at a) \<and>
     rt_tomb (dr_deleted_at abc') = rt_shadowable (dr_deleted_at a) \<and>
     \<not> same_row abc acb \<and> \<not> same_row abc abc'"
proof -
  let ?A = "dr_deleted_at a"
  note ops = dr_apply_typed[OF assms(1)] and none = rt_apply_none[of ?A, OF assms(5,6)]
  have k: "marker_key (dr_marker a) < marker_key (dr_marker c)" using assms(12,13) by simp
  have n: "rt_apply no_row_tombstone no_row_tombstone (dr_marker c) = no_row_tombstone"
    using assms(11) by (subst rt_apply_none) (simp_all add: rt_shadow_tomb(2), simp_all add: tomb_wf_def no_row_tombstone_def)
  obtain ab where ab: "dr_apply s a b = Some ab" "dr_wf rank s ab" "dr_marker ab = dr_marker b" "dr_deleted_at ab = rt_maybe_shadow ?A (dr_marker b)"
    using ops[OF assms(2,3)] assms(8) none merge_newer[OF assms(12)] by auto
  obtain ac where ac: "dr_apply s a c = Some ac" "dr_wf rank s ac" "dr_marker ac = dr_marker c" "dr_deleted_at ac = ?A"
    using ops[OF assms(2,4)] assms(9,11) none merge_newer[OF k] rt_shadow_tomb(2) by auto
  obtain bc where bc: "dr_apply s b c = Some bc" "dr_wf rank s bc" "dr_marker bc = dr_marker c" "dr_deleted_at bc = no_row_tombstone"
    using ops[OF assms(3,4)] assms(8,9) n merge_newer[OF assms(13)] by auto
  have w: "tomb_wf (rt_regular (dr_deleted_at ab))" "tomb_wf (rt_shadowable (dr_deleted_at ab))"
    using assms(5,6) by (auto simp: ab(4) rt_maybe_shadow_def shadowable_maybe_shadow_def)
  obtain abc where abc: "dr_apply s ab c = Some abc" "dr_marker abc = dr_marker c" "dr_deleted_at abc = dr_deleted_at ab"
    using ops[OF ab(2) assms(4)] ab(3) assms(9,11) rt_apply_none[OF w] merge_newer[OF assms(13)] rt_shadow_tomb(2) by auto
  obtain acb where acb: "dr_apply s ac b = Some acb" "dr_marker acb = dr_marker c" "dr_deleted_at acb = ?A"
    using ops[OF ac(2) assms(3)] ac(3,4) assms(8,11) none merge_newer[OF assms(13)] rt_shadow_tomb(2) by auto
  obtain abc' where abc': "dr_apply s a bc = Some abc'" "dr_marker abc' = dr_marker c" "dr_deleted_at abc' = ?A"
    using ops[OF assms(2) bc(2)] bc(3,4) assms(11) none merge_newer[OF k] rt_shadow_tomb(2) by auto
  have t: "rt_tomb (dr_deleted_at abc) = rt_regular ?A" "rt_tomb ?A = rt_shadowable ?A" "rt_regular ?A \<noteq> rt_shadowable ?A"
    using abc(3) ab(4) rt_shadow_tomb(1)[OF assms(10)] assms(7) by (auto simp: rt_tomb_def rt_is_shadowable_def tomb_compare_key)
  then have "dr_deleted_at abc \<noteq> ?A" by auto
  then have "\<not> same_row abc acb" "\<not> same_row abc abc'" using acb(3) abc'(3) by (auto simp: same_row_def)
  moreover have "rt_tomb (dr_deleted_at acb) = rt_shadowable ?A" "rt_tomb (dr_deleted_at abc') = rt_shadowable ?A"
    using t(2) acb(3) abc'(3) by simp_all
  ultimately show ?thesis using ab(1) ac(1) bc(1) abc(1,2) acb(1,2) abc'(1,2) t(1) by blast
qed

definition ex_marked :: "row_marker \<Rightarrow> deletable_row" where
  "ex_marked m = empty_deletable_row\<lparr>dr_marker := m\<rparr>"

lemmas ex_marker_simps = rm_is_live_def rm_is_missing_def rm_deletion_time_def rm_wf_def marker_created_at_def
  marker_deleted_at_def no_ttl_def dead_ttl_def no_expiry_def missing_timestamp_def int_range_def ex_tomb_def no_marker_def

lemma ex_marked_wf:
  "dr_wf ex_rank ex_schema (ex_marked (marker_created_at 7))" "dr_wf ex_rank ex_schema (ex_marked (marker_deleted_at (ex_tomb 8)))"
  by (simp_all add: dr_wf_def ex_marked_def empty_deletable_row_def row_wf_empty rt_inv_def no_row_tombstone_def ex_marker_simps)

lemma dead_marker_breaks_order_witness:
  "\<exists>ab ac abc acb.
     dr_apply ex_schema (ex_dr 1 3 no_marker ex_row1) (ex_marked (marker_created_at 7)) = Some ab \<and>
     dr_apply ex_schema ab (ex_marked (marker_deleted_at (ex_tomb 8))) = Some abc \<and>
     dr_apply ex_schema (ex_dr 1 3 no_marker ex_row1) (ex_marked (marker_deleted_at (ex_tomb 8))) = Some ac \<and>
     dr_apply ex_schema ac (ex_marked (marker_created_at 7)) = Some acb \<and>
     rt_tomb (dr_deleted_at abc) = ex_tomb 1 \<and> rt_tomb (dr_deleted_at acb) = ex_tomb 3"
proof -
  let ?a = "ex_dr 1 3 no_marker ex_row1" and ?b = "ex_marked (marker_created_at 7)" and ?c = "ex_marked (marker_deleted_at (ex_tomb 8))"
  have d: "rt_regular (dr_deleted_at ?a) = ex_tomb 1" "rt_shadowable (dr_deleted_at ?a) = ex_tomb 3" "dr_marker ?a = no_marker"
    by (simp_all add: ex_dr_def)
  have h: "tomb_wf (rt_regular (dr_deleted_at ?a))" "tomb_wf (rt_shadowable (dr_deleted_at ?a))" "rt_is_shadowable (dr_deleted_at ?a)"
    "dr_deleted_at ?b = no_row_tombstone" "dr_deleted_at ?c = no_row_tombstone"
    "is_shadowed_by (rt_shadowable (dr_deleted_at ?a)) (dr_marker ?b)" "\<not> rm_is_live (dr_marker ?c)"
    "marker_key (dr_marker ?a) < marker_key (dr_marker ?b)" "marker_key (dr_marker ?b) < marker_key (dr_marker ?c)"
    by (simp_all add: ex_dr_def tomb_wf_def rt_is_shadowable_def tomb_compare_key tomb_key_def ex_marked_def empty_deletable_row_def
      is_shadowed_by_def marker_key_def ex_marker_simps)
  obtain ab ac bc abc acb abc' where "dr_apply ex_schema ?a ?b = Some ab" "dr_apply ex_schema ab ?c = Some abc"
    "dr_apply ex_schema ?a ?c = Some ac" "dr_apply ex_schema ac ?b = Some acb"
    "rt_tomb (dr_deleted_at abc) = rt_regular (dr_deleted_at ?a)" "rt_tomb (dr_deleted_at acb) = rt_shadowable (dr_deleted_at ?a)"
    using dead_marker_breaks_order[OF ex_schema_wf(1) ex_dr_wf(1) ex_marked_wf h] by blast
  then show ?thesis by (simp add: d)
qed

text \<open>C37: The difference of two rows, merged into the second one, gives the sum of both, provided the second one has no
  shadowable tombstone above its regular one.\<close>

theorem deletable_row_difference_correct:
  assumes "schema_wf rank s Regular_column" "dr_wf rank s a" "dr_wf rank s b" "dr_above_none a" "dr_above_none b"
    "\<not> rt_is_shadowable (dr_deleted_at b)"
  shows "\<exists>d x y. dr_difference s Regular_column a b = Some d \<and> dr_apply s b d = Some x \<and> dr_apply s b a = Some y \<and> same_row x y"
proof -
  obtain d where d: "dr_difference s Regular_column a b = Some d" "dr_wf rank s d" using dr_difference_parts[OF assms(1-5)] by blast
  then obtain x y where "dr_apply s b d = Some x" "dr_apply s b a = Some y" using dr_apply_typed[OF assms(1)] assms(2,3) by meson
  then show ?thesis using dr_difference_applied[OF assms d(1)] d(1) by blast
qed

lemma deletable_row_difference_correct_witness:
  "\<exists>d x y. dr_difference ex_schema Regular_column (ex_dr 1 3 no_marker ex_row1) (ex_dr 1 1 (marker_created_at 5) ex_row2) = Some d \<and>
     dr_apply ex_schema (ex_dr 1 1 (marker_created_at 5) ex_row2) d = Some x \<and>
     dr_apply ex_schema (ex_dr 1 1 (marker_created_at 5) ex_row2) (ex_dr 1 3 no_marker ex_row1) = Some y \<and> same_row x y"
  by (rule deletable_row_difference_correct[OF ex_schema_wf(1) ex_dr_wf])
    (simp add: ex_dr_def rt_is_shadowable_def tomb_compare_def three_way_def)

text \<open>C38: Without that proviso it does not. The comparison of row tombstones looks at the shadowable ones only, so whenever \<open>a\<close>
  has the newer regular tombstone and no newer shadowable one, the difference leaves out the regular tombstone: the second
  row keeps its own after the merge with the difference, but takes the one of \<open>a\<close> after the merge with \<open>a\<close>. Every insertion
  of the row that is newer than the shadowable tombstone then brings back what the regular tombstone of \<open>a\<close> deletes.\<close>

theorem difference_loses_regular:
  assumes "schema_wf rank s Regular_column" "dr_wf rank s a" "dr_wf rank s b" "dr_above_none a" "dr_above_none b"
    "tomb_key (rt_regular (dr_deleted_at b)) < tomb_key (rt_regular (dr_deleted_at a))"
    "tomb_key (rt_shadowable (dr_deleted_at a)) \<le> tomb_key (rt_shadowable (dr_deleted_at b))"
    "rm_wf m" "is_shadowed_by (rt_shadowable (dr_deleted_at b)) m"
    "marker_key (dr_marker a) < marker_key m" "marker_key (dr_marker b) < marker_key m"
  shows "\<exists>d x y. dr_difference s Regular_column a b = Some d \<and> dr_apply s b d = Some x \<and> dr_apply s b a = Some y \<and>
    rt_regular (dr_deleted_at x) = rt_regular (dr_deleted_at b) \<and> rt_regular (dr_deleted_at y) = rt_regular (dr_deleted_at a) \<and>
    \<not> same_row x y \<and>
    rt_tomb (dr_deleted_at (dr_apply_marker x m)) = rt_regular (dr_deleted_at b) \<and>
    rt_tomb (dr_deleted_at (dr_apply_marker y m)) = rt_regular (dr_deleted_at a)"
proof -
  let ?A = "dr_deleted_at a" and ?B = "dr_deleted_at b"
  have g: "rt_compare ?A ?B \<noteq> Ord_greater" using assms(7) by (simp add: rt_compare_def tomb_compare_key)
  obtain d where d: "dr_difference s Regular_column a b = Some d" "dr_wf rank s d" "dr_deleted_at d = no_row_tombstone"
    "dr_marker d = dr_marker a \<or> dr_marker d = no_marker"
    using dr_difference_parts[OF assms(1-5)] g by auto
  have low: "tomb_key (rt_regular ?A) \<le> tomb_key (rt_shadowable ?B)" "tomb_key (rt_regular ?B) \<le> tomb_key (rt_shadowable ?B)"
    using assms(2,3,7) by (auto simp: dr_wf_def rt_inv_def)
  obtain x where x: "dr_apply s b d = Some x" "dr_wf rank s x" "dr_marker x = marker_merge (dr_marker b) (dr_marker d)"
    "dr_deleted_at x = rt_maybe_shadow ?B (dr_marker x)"
    using dr_apply_typed[OF assms(1,3) d(2)] rt_apply_none assms(5) by (auto simp: d(3) dr_above_none_def)
  obtain y where y: "dr_apply s b a = Some y" "dr_wf rank s y" "dr_marker y = marker_merge (dr_marker b) (dr_marker a)"
    "dr_deleted_at y = rt_apply ?B ?A (dr_marker y)"
    using dr_apply_typed[OF assms(1,3,2)] by auto
  have "tomb_apply (rt_regular ?B) (rt_regular ?A) = rt_regular ?A" "tomb_apply (rt_shadowable ?B) (rt_shadowable ?A) = rt_shadowable ?B"
    using assms(6,7) by (auto simp: tombs.merge_def)
  then have ya: "dr_deleted_at y = rt_maybe_shadow \<lparr>rt_regular = rt_regular ?A, rt_shadowable = rt_shadowable ?B\<rparr> (dr_marker y)"
    by (simp add: y(4) rt_apply_def)
  have new: "marker_key (dr_marker x) < marker_key m" "marker_key (dr_marker y) < marker_key m"
    using assms(4,10,11) d(4) no_marker_least[of "dr_marker a"] by (auto simp: x(3) y(3) marker_merge_def dr_above_none_def)
  have r: "rt_regular (dr_deleted_at x) = rt_regular ?B" "rt_regular (dr_deleted_at y) = rt_regular ?A"
    by (simp_all add: x(4) ya rt_shadow_tomb)
  have "is_shadowed_by (rt_shadowable (dr_deleted_at z)) m" if "z \<in> {x, y}" for z
    using that assms(9) is_shadowed_mono[OF assms(9) low(1)] is_shadowed_mono[OF assms(9) low(2)]
    by (auto simp: x(4) ya rt_maybe_shadow_def shadowable_maybe_shadow_def)
  then have "rt_tomb (rt_maybe_shadow (dr_deleted_at z) m) = rt_regular (dr_deleted_at z)" if "z \<in> {x, y}" for z
    using that rt_shadow_tomb(1) by blast
  moreover have "rm_apply (dr_marker z) m = m" if "z \<in> {x, y}" for z
    using that x(2) y(2) new assms(8) by (auto simp: rm_apply_merge dr_wf_def merge_newer)
  ultimately have "rt_tomb (dr_deleted_at (dr_apply_marker z m)) = rt_regular (dr_deleted_at z)" if "z \<in> {x, y}" for z
    using that by (simp add: dr_apply_marker_def dr_maybe_shadow_def)
  then show ?thesis using d(1) x(1) y(1) r assms(6) by (auto simp: same_row_def)
qed

lemma difference_loses_regular_witness:
  "\<exists>d x y. dr_difference ex_schema Regular_column (ex_dr 3 3 no_marker ex_row2) (ex_dr 1 3 no_marker ex_row1) = Some d \<and>
     dr_apply ex_schema (ex_dr 1 3 no_marker ex_row1) d = Some x \<and>
     dr_apply ex_schema (ex_dr 1 3 no_marker ex_row1) (ex_dr 3 3 no_marker ex_row2) = Some y \<and> \<not> same_row x y"
proof -
  have w: "dr_wf ex_rank ex_schema (ex_dr 3 3 no_marker ex_row2)" "dr_above_none (ex_dr 3 3 no_marker ex_row2)"
    by (simp_all add: dr_wf_def dr_above_none_def ex_dr_def ex_rows_wf rt_inv_def tomb_wf_def ex_marker_simps)
  have k: "tomb_key (rt_regular (dr_deleted_at (ex_dr 1 3 no_marker ex_row1))) < tomb_key (rt_regular (dr_deleted_at (ex_dr 3 3 no_marker ex_row2)))"
    "tomb_key (rt_shadowable (dr_deleted_at (ex_dr 3 3 no_marker ex_row2))) \<le> tomb_key (rt_shadowable (dr_deleted_at (ex_dr 1 3 no_marker ex_row1)))"
    "rm_wf (marker_created_at 7)" "is_shadowed_by (rt_shadowable (dr_deleted_at (ex_dr 1 3 no_marker ex_row1))) (marker_created_at 7)"
    "marker_key (dr_marker (ex_dr 3 3 no_marker ex_row2)) < marker_key (marker_created_at 7)"
    "marker_key (dr_marker (ex_dr 1 3 no_marker ex_row1)) < marker_key (marker_created_at 7)"
    by (simp_all add: ex_dr_def tomb_key_def is_shadowed_by_def marker_key_def ex_marker_simps)
  show ?thesis using difference_loses_regular[OF ex_schema_wf(1) w(1) ex_dr_wf(1) w(2) ex_dr_wf(3) k] by blast
qed

text \<open>C39: Compaction is invisible: whatever cells, collection tombstones, marker and row tombstone it expires, erases and
  purges, a reader at the time of compaction, under the tombstone that covers the row, sees the same live marker and
  the same live cells before and after, and the result tells whether the row is live. It never fails. This is so in
  every table and in every view whose key has the columns of the key of its base table.\<close>

theorem deletable_row_compaction_invisible:
  assumes "schema_wf rank s Regular_column" "dr_wf rank s d" "dr_above_none d" "tomb_wf tomb"
    "\<not> (is_view s \<and> has_base_non_pk_columns_in_view_pk s)"
  shows "\<exists>live d' given. dr_compact_and_expire s d tomb now can_gc gc_before collector = Some (live, d', given) \<and>
    dr_wf rank s d' \<and> dr_visible s d' tomb now = dr_visible s d tomb now \<and>
    dr_is_live s Regular_column d tomb now = Some live"
  using dr_compact_visible[OF assms] by blast

lemma deletable_row_compaction_invisible_witness:
  "\<exists>d' given. dr_compact_and_expire ex_schema (ex_dr 1 3 no_marker ex_row1) (ex_tomb 4) 100 (\<lambda>t sh. True) 50 True = Some (True, d', given) \<and>
     snd (dr_visible ex_schema d' (ex_tomb 4) 100) = [(1, [7], Live_cell 9 [])]"
proof -
  have t: "tomb_wf (ex_tomb 4)" "\<not> (is_view ex_schema \<and> has_base_non_pk_columns_in_view_pk ex_schema)"
    by (simp_all add: ex_tomb_def tomb_wf_def missing_timestamp_def ex_schema_def)
  have T: "tomb_apply (ex_tomb 4) (rt_tomb (dr_deleted_at (ex_dr 1 3 no_marker ex_row1))) = ex_tomb 4"
    by (simp add: ex_dr_def rt_tomb_def ex_tomb_def tomb_apply_def tomb_compare_def)
  have v: "snd (dr_visible ex_schema (ex_dr 1 3 no_marker ex_row1) (ex_tomb 4) 100) = [(1, [7], Live_cell 9 [])]"
    unfolding dr_visible_def T
    by (simp add: ex_dr_def ex_row1_def ex_row_def ex_schema_def ex_column_def visible_cell_def cell_is_live_at_def
      cell_is_covered_by_def cell_has_expired_def ex_tomb_def visible_cells_def ex_collection_def tomb_apply_def tomb_compare_def Let_def)
  have "dr_is_live ex_schema Regular_column (ex_dr 1 3 no_marker ex_row1) (ex_tomb 4) 100 = Some True"
    using dr_is_live_visible[OF ex_schema_wf(1) ex_dr_wf(1,3) t(1), of 100] v by simp
  then show ?thesis
    using deletable_row_compaction_invisible[OF ex_schema_wf(1) ex_dr_wf(1,3) t, of 100 "\<lambda>t sh. True" 50 True] v by auto
qed

text \<open>C40: A lazy row behaves as the row it stands for. Seen through \<open>get\<close>, these are the operations of \<open>row\<close>: being empty, size,
  looking up a cell with and without its hash or with an error, reserving, merging a cell, appending a cell, merging a
  row or another lazy row, also one that is consumed and left empty, compaction with and without a marker, being live,
  comparison with a row of any schema; making or copying a lazy row gives the row it is made from. The merge that takes
  over the row of its argument and the difference give the same cells and size and may keep a cached hash where \<open>row\<close>
  drops it; all other results are equal.\<close>

theorem lazy_row_refines:
  assumes "schema_wf rank s kind" "row_wf rank s kind (lazy_get l)" "row_wf rank s kind (lazy_get m)" "row_wf rank s kind r"
    "row_wf rank' s' kind (lazy_get n)"
  shows "(lazy_empty l \<longleftrightarrow> row_empty (lazy_get l)) \<and> lazy_size l = row_size (lazy_get l) \<and>
    lazy_find_cell l i = find_cell (lazy_get l) i \<and> lazy_find_cell_and_hash l i = find_cell_and_hash (lazy_get l) i \<and>
    lazy_cell_at l i = row_cell_at (lazy_get l) i \<and> lazy_get (lazy_reserve nr l) = lazy_get l \<and>
    lazy_get (make_lazy_row r) = r \<and> map_option lazy_get (lazy_copy s kind r) = Some r \<and>
    map_option lazy_get (lazy_copy_lazy s kind l) = Some (lazy_get l) \<and>
    map_option lazy_get (lazy_apply_cell column c h l) = row_apply_cell column c h (lazy_get l) \<and>
    lazy_get (lazy_append_cell i c l) = append_cell i c (lazy_get l) \<and>
    map_option lazy_get (lazy_apply_row s kind l r) = row_apply s kind (lazy_get l) r \<and>
    map_option (map_prod lazy_get id) (lazy_apply_row_consuming s kind l r) = row_apply_consuming s kind (lazy_get l) r \<and>
    map_option lazy_get (lazy_apply s kind l m) = row_apply s kind (lazy_get l) (lazy_get m) \<and>
    rel_option (\<lambda>p q. same_cells (lazy_get (fst p)) (fst q) \<and> lazy_get (snd p) = snd q)
      (lazy_apply_consuming s kind l m) (row_apply_consuming s kind (lazy_get l) (lazy_get m)) \<and>
    rel_option (\<lambda>x. same_cells (lazy_get x)) (lazy_difference s kind l m) (row_difference s kind (lazy_get l) (lazy_get m)) \<and>
    lazy_equal kind s l n s' = row_equal kind s (lazy_get l) (lazy_get n) s' \<and>
    lazy_is_live s kind l tomb now = row_is_live s kind (lazy_get l) tomb now \<and>
    map_option (map_prod id lazy_get) (lazy_compact_and_expire s kind l rtomb now can_gc gc_before marker collector) =
      map_option (\<lambda>rc. (result_is_live (rc_result rc), rc_row rc))
        (row_compact_and_expire s kind (lazy_get l) rtomb now can_gc gc_before marker collector) \<and>
    map_option (map_prod id lazy_get) (lazy_compact_and_expire_unmarked s kind l rtomb now can_gc gc_before collector) =
      map_option (\<lambda>rc. (result_is_live (rc_result rc), rc_row rc))
        (row_compact_and_expire_unmarked s kind (lazy_get l) rtomb now can_gc gc_before collector)"
  by (intro conjI lazy_empty_get lazy_accessors lazy_apply_get lazy_copy_get[OF assms(4)] lazy_copy_lazy_get[OF assms(2)]
    lazy_apply_consuming_get[OF assms(1-3)] lazy_difference_get[OF assms(1-3)] lazy_equal_get[OF assms(2,5)] lazy_compact_get)

lemma lazy_row_refines_witness:
  "rel_option (\<lambda>x. same_cells (lazy_get x)) (lazy_difference ex_schema Regular_column (Some ex_row1) None)
     (row_difference ex_schema Regular_column ex_row1 empty_row) \<and>
   lazy_equal Regular_column ex_schema (Some ex_row1) (Some ex_row2) ex_schema =
     row_equal Regular_column ex_schema ex_row1 ex_row2 ex_schema"
  using lazy_row_refines[OF ex_schema_wf(1), of Regular_column "Some ex_row1" None ex_row1 ex_rank ex_schema "Some ex_row2"] ex_rows_wf
  by simp

end
