(* ===== verification/Spec2Isabelle.thy ===== *)
theory Spec2Isabelle
  imports Raft_Log_Matching Raft_Cluster Raft_Liveness Token Vint Row_Properties
begin

text \<open>
  A verification development of parts of the database under \<open>src/\<close> that decide whether its replicas agree: the Raft
  state machine that orders the changes of group 0, the data model in which mutations of rows are merged, and
  the intervals and variable-length integers below both.

  \<^bold>\<open>The parts and how they interact.\<close> A Raft server (\<open>raft/server.cc\<close>) owns a state machine (\<open>raft/fsm.cc\<close>). It
  feeds it ticks, messages and requests, persists what \<open>get_output\<close> returns, the term and the vote before anything
  else, and only then sends the messages of the output. The state machine keeps a log (\<open>raft/log.cc\<close>) with its
  configurations (\<open>raft/raft.hh\<close>), as a leader the progress of its followers and as a candidate the votes
  (\<open>raft/tracker.cc\<close>). Writes of clients are mutations: a row (\<open>mutation/mutation_partition.cc\<close>) has a marker, a
  tombstone and a cell for each column, which is an atomic cell (\<open>mutation/atomic_cell.cc\<close>), a counter
  (\<open>counters.cc\<close>) or a collection of cells (\<open>collection_mutation.cc\<close>). Replicas merge what they receive, in any
  order, and compact what they keep. Ranges of tokens and of keys are intervals (\<open>interval.hh\<close>).

  \<^bold>\<open>Conventions.\<close> A C++ class is a record or a datatype, a method a function on it that returns the updated value.
  Failures are values: \<open>'a result\<close> is \<open>raft_error + 'a\<close> in the Raft theories, where \<open>Assertion_failed\<close> stands for a
  failed \<open>SCYLLA_ASSERT\<close>, and \<open>'a option\<close> elsewhere, where \<open>None\<close> stands for a failed assertion, a
  \<open>marshal_exception\<close> or an access out of range. Theorems that say that a function returns are stated as equations
  with \<open>Inr\<close> or \<open>Some\<close>. Terms, indexes and read identifiers are 64-bit counters that the code only increments; they are
  natural numbers. Timestamps, times and durations are integers, within \<open>int_range\<close> of their width where they are
  written to bytes. Words are at their width where the code works on bits: bytes, the 64-bit words of \<open>Vint\<close>, the
  identifiers of counter shards, tokens. Values and clocks of counters are integers whose sums wrap around at 64 bits
  (\<open>wrap64\<close>). No function of the model needs fuel: every loop has a termination proof.

  \<^bold>\<open>Shared theories.\<close> \<open>Prelude\<close> has the results and their sequencing, association lists, deques with an offset and
  the fact that majorities meet. \<open>Byte_Order\<close> has integers as bytes. \<open>Merge_Order\<close> has the locale \<open>keeps_greatest\<close>, the
  contract of a merge that keeps the greater of two writes, with its convergence; it is interpreted on tombstones,
  cells and markers. \<open>Combine\<close> has the merge of sorted sequences (\<open>combine.hh\<close>) and the locale \<open>sorted_merge\<close> of
  its callers, interpreted on counter shards and, through the locale \<open>collection_keys\<close>, on collection elements.

  \<^bold>\<open>Raft.\<close>
  \<^item> \<open>Raft_Config\<close> models \<open>raft.hh\<close>: members, simple and joint configurations. It shows that quorums of
    consecutive configurations of a joint change meet (\<open>joint_transition_safe\<close>, on the locale \<open>meeting_quorums\<close>) and
    that a diff determines the new members (\<open>conf_diff_reconstructs\<close>).
  \<^item> \<open>Raft_Log\<close> models every operation of \<open>class log\<close> with the memory accounting, and that they keep it well formed.
    \<open>Raft_Log_Spec\<close> has the specification of the configuration queries, a replay of the log, and that the answer of
    \<open>get_configuration\<close> agrees with it on every log a server builds (\<open>log_reachable\<close>, which assumes of the protocol that
    committed entries are never replaced and that at most the last configuration entry of a log is uncommitted); also the
    constructor and \<open>apply_snapshot\<close>, and a state in which \<open>last_conf_for\<close> does not agree. \<open>Raft_Log_Matching\<close> has two
    logs: what \<open>match_term\<close> and \<open>maybe_append\<close> keep of the log matching property.
  \<^item> \<open>Raft_Messages\<close> has the messages, \<open>Raft_Tracker\<close> the progress of followers and the commit index, shown to be the
    greatest that a quorum has acknowledged, \<open>Raft_Votes\<close> the count of votes, shown to be right and to admit one winner.
  \<^item> \<open>Raft_Fsm\<close> models every method of \<open>class fsm\<close> that changes its state: ticks, elections with prevote, replication,
    snapshots, configuration changes, read barriers, leadership transfer and \<open>get_output\<close>. \<open>Raft_Fsm_Frame\<close> has what each
    of them leaves alone, \<open>Raft_Fsm_Run\<close> that over every sequence of calls terms, votes and the commit index only move
    forward (locale \<open>monotone_system\<close>), \<open>Raft_Ballots\<close> the invariant that ties votes and queued grants to the term.
  \<^item> \<open>Raft_Cluster\<close> composes state machines, their persisted term and vote, crashes and restarts, and a network that
    may lose, repeat and reorder messages, as the inductive relation \<open>cluster_step\<close>, which also records in which
    configuration each server ran each of its elections. In every reachable state two leaders of a term are the same
    server if their elections were in the same configuration or in successive ones of a change of members
    (\<open>election_safety\<close>); that the winners of a term always have such configurations rests on the safety of the committed
    log and is not shown. \<open>Raft_Liveness\<close> has the other side: the ticks of a voter that hears of no
    live leader never fail and make it campaign before its timeout is over (\<open>elections_start\<close>).

  \<^bold>\<open>Intervals and integers.\<close> \<open>Wrapping_Interval\<close> models both classes of \<open>interval.hh\<close>; the order of the values is
  that of their type. \<open>Interval_Points\<close> gives an interval its set of values and shows for every operation, wrapping
  around included, that it computes with these sets, and where its comments promise more. The tests \<open>overlaps\<close> and
  \<open>contains\<close> of two intervals look at bounds only; they are exact for the places of an interval (locale \<open>cut_places\<close>),
  and for its values where the order has no gaps. \<open>Token\<close> models the tokens of \<open>dht/token.hh\<close>, to whose order the
  intervals apply, and the split of the ring into the ranges of compaction groups. \<open>Vint\<close> models
  \<open>vint-serialization.cc\<close>; Seastar's \<open>count_leading_zeros\<close> and \<open>be_to_cpu\<close> are the parameters \<open>clz\<close> and \<open>be\<close>, with the
  hypotheses \<open>leading_zeros\<close> and \<open>big_endian\<close>, which hold for the instances in the witnesses.

  \<^bold>\<open>Mutations.\<close>
  \<^item> \<open>Atomic_Cell\<close> has tombstones and cells twice, as the code has them in bytes and as a datatype, with the refinement
    between them and the convergence of merges. The contents of memory that is not yet initialized is a parameter.
  \<^item> \<open>Counters\<close> has shards, the builder, the merge in place with its undo, the merge by combination and the difference.
  \<^item> \<open>Row_Tombstone\<close> has row markers, shadowable tombstones and row tombstones with their invariant.
  \<^item> \<open>Collection_Mutation\<close> has collections: merge, difference, compaction and the serialized form. The comparison of
    keys belongs to the type of the collection and is a parameter that satisfies \<open>collection_keys\<close>: it orders keys by a
    rank, which may be the same for different bytes. It is interpreted on the comparison of bytes and on that of varints,
    where it is. Merges agree up to such keys.
  \<^item> \<open>Mutation_Row\<close> has rows, lazy rows and deletable rows over a schema. Whether garbage may be collected, \<open>can_gc\<close>,
    is the caller's predicate. \<open>Row_Merge\<close> shows that rows keep their types and merge column by column, and what
    follows for the order of merges, in tables without counters, and for differences; \<open>Row_Compaction\<close> what a reader sees before and after a
    compaction; \<open>Row_Properties\<close> states the properties, with two cases in which merges or differences of rows with
    shadowable tombstones lose something.

  \<^bold>\<open>Not modelled.\<close> The fibers of the Raft server besides the order of persisting and sending (the persistence of the log, the
  apply fiber, the RPC handlers, the waiting clients) depend on the Seastar scheduler. Of \<open>class fsm\<close>,
  \<open>wait_for_memory_permit\<close> only waits on a semaphore of Seastar, whose calls are recorded. Partitions
  (\<open>mutation_partition\<close>, its rows and range tombstones in intrusive trees), conversion between schema versions, hashing,
  printing and \<open>transform_counter_updates_to_shards\<close>, which walks over whole mutations, are left out. The other
  directories of \<open>src/\<close> are front ends, network services, file formats and the storage engine, whose code is
  asynchronous and performs I/O; the manifest lists them one by one.
\<close>

end
